(* ===== verification/CLib.thy ===== *)
theory CLib
  imports Main "HOL-Library.Word" "HOL-Library.Sublist"
begin

text \<open>
  The part of the C library and of C's data that the program uses, shared by every component.

  A C string is a \<open>string\<close> (a list of bytes) without the terminating NUL. Where the program
  copies raw bytes and appends the NUL, the value a later reader sees is \<open>cstr\<close> of the bytes:
  everything before the first NUL. \<open>snprintf\<close> into a buffer of n bytes keeps n - 1 characters
  (\<open>snprintf_buf\<close>). A pointer argument that the code tests against NULL is an \<open>option\<close>.
  \<open>long\<close> is 64 bits wide and \<open>int\<close> 32 bits (the LP64 targets of the build files).
\<close>

named_theorems clib \<open>evaluation rules of the C library functions\<close>

type_synonym u64 = "64 word"
type_synonym u32 = "32 word"
type_synonym u8 = "8 word"

section \<open>Bytes\<close>

abbreviation NUL :: char where "NUL \<equiv> CHR 0x00"
abbreviation LF :: char where "LF \<equiv> CHR 0x0A"
abbreviation CR :: char where "CR \<equiv> CHR 0x0D"
abbreviation TAB :: char where "TAB \<equiv> CHR 0x09"
abbreviation DQ :: char where "DQ \<equiv> CHR 0x22"
abbreviation BSL :: char where "BSL \<equiv> CHR 0x5C"

abbreviation CRLF :: string where "CRLF \<equiv> [CR, LF]"

abbreviation byte :: "char \<Rightarrow> nat" where "byte c \<equiv> of_char c"

definition isdigit :: "char \<Rightarrow> bool" where
  "isdigit c \<longleftrightarrow> 48 \<le> byte c \<and> byte c \<le> 57"

definition isupper :: "char \<Rightarrow> bool" where
  "isupper c \<longleftrightarrow> 65 \<le> byte c \<and> byte c \<le> 90"

definition islower :: "char \<Rightarrow> bool" where
  "islower c \<longleftrightarrow> 97 \<le> byte c \<and> byte c \<le> 122"

definition isalnum :: "char \<Rightarrow> bool" where
  "isalnum c \<longleftrightarrow> isdigit c \<or> isupper c \<or> islower c"

definition isspace :: "char \<Rightarrow> bool" where
  "isspace c \<longleftrightarrow> byte c = 32 \<or> (9 \<le> byte c \<and> byte c \<le> 13)"

definition tolower :: "char \<Rightarrow> char" where
  "tolower c = (if isupper c then char_of (byte c + 32) else c)"

definition digit_char :: "nat \<Rightarrow> char" where
  "digit_char d = char_of (48 + d)"

definition digit_val :: "char \<Rightarrow> nat" where
  "digit_val c = byte c - 48"

lemma byte_lt [simp]: "byte c < 256"
  by (metis of_char_mod_256 mod_less_divisor zero_less_numeral)

lemma byte_digit_char [simp]: "d < 10 \<Longrightarrow> byte (digit_char d) = 48 + d"
  by (simp add: digit_char_def)

lemma isdigit_digit_char [simp]: "d < 10 \<Longrightarrow> isdigit (digit_char d)"
  by (simp add: isdigit_def)

lemma digit_val_digit_char [simp]: "d < 10 \<Longrightarrow> digit_val (digit_char d) = d"
  by (simp add: digit_val_def)

section \<open>NUL-terminated buffers\<close>

definition cstr :: "string \<Rightarrow> string" where
  "cstr bs = takeWhile (\<lambda>c. c \<noteq> NUL) bs"

definition nulfree :: "string \<Rightarrow> bool" where
  "nulfree s \<longleftrightarrow> NUL \<notin> set s"

lemma cstr_nulfree [simp]: "nulfree s \<Longrightarrow> cstr s = s"
  by (auto simp: cstr_def nulfree_def takeWhile_eq_all_conv)

lemma nulfree_cstr [simp]: "nulfree (cstr s)"
  by (auto simp: cstr_def nulfree_def dest: set_takeWhileD)

lemma nulfree_append [simp]: "nulfree (s @ t) \<longleftrightarrow> nulfree s \<and> nulfree t"
  by (auto simp: nulfree_def)

lemma nulfree_Cons [simp]: "nulfree (c # s) \<longleftrightarrow> c \<noteq> NUL \<and> nulfree s"
  by (auto simp: nulfree_def)

lemma nulfree_Nil [simp]: "nulfree []"
  by (simp add: nulfree_def)

lemma nulfree_take [simp]: "nulfree s \<Longrightarrow> nulfree (take n s)"
  by (auto simp: nulfree_def dest: in_set_takeD)

lemma nulfree_drop [simp]: "nulfree s \<Longrightarrow> nulfree (drop n s)"
  by (auto simp: nulfree_def dest: in_set_dropD)

lemma length_cstr: "length (cstr s) \<le> length s"
  by (simp add: cstr_def length_takeWhile_le)

lemma set_cstr: "set (cstr s) \<subseteq> set s"
  by (auto simp: cstr_def dest: set_takeWhileD)

text \<open>\<open>memcpy\<close> of at most n - 1 bytes into a buffer of n bytes, then a NUL.\<close>

definition cbuf :: "nat \<Rightarrow> string \<Rightarrow> string" where
  "cbuf n bs = cstr (take (n - 1) bs)"

text \<open>What \<open>snprintf(buf, n, \<dots>)\<close> leaves in \<open>buf\<close> when the whole output would be s.\<close>

definition snprintf_buf :: "nat \<Rightarrow> string \<Rightarrow> string" where
  "snprintf_buf n s = take (n - 1) s"

lemma snprintf_buf_fits [clib]: "length s < n \<Longrightarrow> snprintf_buf n s = s"
  by (simp add: snprintf_buf_def)

lemma length_snprintf_buf: "0 < n \<Longrightarrow> length (snprintf_buf n s) < n"
  by (simp add: snprintf_buf_def)

lemma nulfree_snprintf_buf [simp]: "nulfree s \<Longrightarrow> nulfree (snprintf_buf n s)"
  by (simp add: snprintf_buf_def)

lemma nulfree_cbuf [simp]: "nulfree (cbuf n s)"
  by (simp add: cbuf_def)

lemma cbuf_fits [clib]: "length s < n \<Longrightarrow> nulfree s \<Longrightarrow> cbuf n s = s"
  by (simp add: cbuf_def)

lemma set_cbuf: "set (cbuf n s) \<subseteq> set s"
  using set_cstr by (fastforce simp: cbuf_def dest: in_set_takeD)

section \<open>Searching in strings\<close>

text \<open>\<open>strchr\<close>: the suffix that starts at the first occurrence; NULL is \<open>None\<close>.\<close>

fun strchr :: "string \<Rightarrow> char \<Rightarrow> string option" where
  "strchr [] c = None"
| "strchr (x # xs) c = (if x = c then Some (x # xs) else strchr xs c)"

text \<open>\<open>strrchr\<close> as the index of the last occurrence, so that two results can be compared.\<close>

fun strrchr_idx :: "string \<Rightarrow> char \<Rightarrow> nat option" where
  "strrchr_idx [] c = None"
| "strrchr_idx (x # xs) c =
     (case strrchr_idx xs c of
        Some i \<Rightarrow> Some (Suc i)
      | None \<Rightarrow> if x = c then Some 0 else None)"

text \<open>\<open>strstr(s, t) != NULL\<close>.\<close>

fun strstr :: "string \<Rightarrow> string \<Rightarrow> bool" where
  "strstr [] t \<longleftrightarrow> t = []"
| "strstr (x # xs) t \<longleftrightarrow> prefix t (x # xs) \<or> strstr xs t"

lemma strstr_iff: "strstr s t \<longleftrightarrow> (\<exists>u v. s = u @ t @ v)"
proof (induction s)
  case Nil
  then show ?case by simp
next
  case (Cons x xs)
  show ?case
  proof
    assume "strstr (x # xs) t"
    then consider "prefix t (x # xs)" | "strstr xs t" by auto
    then show "\<exists>u v. x # xs = u @ t @ v"
    proof cases
      case 1
      then obtain v where "x # xs = [] @ t @ v" by (auto simp: prefix_def)
      then show ?thesis by blast
    next
      case 2
      with Cons.IH obtain u v where "x # xs = (x # u) @ t @ v" by auto
      then show ?thesis by blast
    qed
  next
    assume "\<exists>u v. x # xs = u @ t @ v"
    then obtain u v where eq: "x # xs = u @ t @ v" by blast
    show "strstr (x # xs) t"
    proof (cases u)
      case Nil
      with eq have "prefix t (x # xs)" by (auto simp: prefix_def)
      then show ?thesis by simp
    next
      case (Cons y ys)
      with eq Cons.IH show ?thesis by auto
    qed
  qed
qed

lemma strstr_infix: "strstr s t \<longleftrightarrow> sublist t s"
  by (simp add: strstr_iff sublist_def)

lemma strchr_split: "strchr s c = Some r \<Longrightarrow> \<exists>u. s = u @ r \<and> c \<notin> set u \<and> hd r = c \<and> r \<noteq> []"
proof (induction s)
  case Nil
  then show ?case by simp
next
  case (Cons x xs)
  show ?case
  proof (cases "x = c")
    case True
    with Cons.prems show ?thesis by (intro exI [of _ "[]"]) auto
  next
    case False
    with Cons obtain u where "xs = u @ r" "c \<notin> set u" "hd r = c" "r \<noteq> []" by auto
    with False show ?thesis by (intro exI [of _ "x # u"]) auto
  qed
qed

lemma strchr_None_iff: "strchr s c = None \<longleftrightarrow> c \<notin> set s"
  by (induction s) auto

text \<open>Everything before the first occurrence of c: \<open>char *q = strchr(s, c); if (q) *q = 0;\<close>\<close>

definition cut_at :: "char \<Rightarrow> string \<Rightarrow> string" where
  "cut_at c s = takeWhile (\<lambda>x. x \<noteq> c) s"

text \<open>\<open>strncmp(s, t, n) == 0\<close> for C strings: equal up to n bytes or up to a common NUL.\<close>

fun strncmp_eq :: "string \<Rightarrow> string \<Rightarrow> nat \<Rightarrow> bool" where
  "strncmp_eq s t 0 = True"
| "strncmp_eq [] [] (Suc n) = True"
| "strncmp_eq [] (y # ys) (Suc n) = False"
| "strncmp_eq (x # xs) [] (Suc n) = False"
| "strncmp_eq (x # xs) (y # ys) (Suc n) = (x = y \<and> strncmp_eq xs ys n)"

lemma strncmp_eq_take: "strncmp_eq s t n \<longleftrightarrow> take n s = take n t"
  by (induction s t n rule: strncmp_eq.induct) auto

section \<open>Decimal output\<close>

fun nat_str :: "nat \<Rightarrow> string" where
  "nat_str n = (if n < 10 then [digit_char n] else nat_str (n div 10) @ [digit_char (n mod 10)])"

declare nat_str.simps [simp del]

definition int_str :: "int \<Rightarrow> string" where
  "int_str i = (if i < 0 then CHR ''-'' # nat_str (nat (- i)) else nat_str (nat i))"

lemma nat_str_small [clib]: "n < 10 \<Longrightarrow> nat_str n = [digit_char n]"
  by (simp add: nat_str.simps)

lemma nat_str_big [clib]: "\<not> n < 10 \<Longrightarrow> nat_str n = nat_str (n div 10) @ [digit_char (n mod 10)]"
  by (subst nat_str.simps) simp

lemma nat_str_not_Nil [simp]: "nat_str n \<noteq> []"
  by (subst nat_str.simps) simp

lemma nat_str_digits: "list_all isdigit (nat_str n)"
proof (induction n rule: nat_str.induct)
  case (1 n)
  then show ?case by (subst nat_str.simps) auto
qed

lemma isdigit_not_NUL [simp]: "isdigit c \<Longrightarrow> c \<noteq> NUL"
  by (auto simp: isdigit_def)

lemma nulfree_nat_str [simp]: "nulfree (nat_str n)"
proof -
  have "\<forall>c \<in> set (nat_str n). isdigit c"
    using nat_str_digits [of n] by (simp add: list_all_iff)
  then show ?thesis by (fastforce simp: nulfree_def isdigit_def)
qed

lemma nulfree_int_str [simp]: "nulfree (int_str i)"
  by (simp add: int_str_def)

lemma length_nat_str: "n < 10 ^ k \<Longrightarrow> 0 < k \<Longrightarrow> length (nat_str n) \<le> k"
proof (induction n arbitrary: k rule: nat_str.induct)
  case (1 n)
  show ?case
  proof (cases "n < 10")
    case True
    with "1.prems" show ?thesis by (simp add: nat_str_small)
  next
    case False
    then obtain j where k: "k = Suc j" and j: "0 < j"
      using "1.prems" by (cases k; cases "k - 1") auto
    from "1.prems"(1) k have "n div 10 < 10 ^ j" by (simp add: less_mult_imp_div_less)
    with "1.IH" False j have "length (nat_str (n div 10)) \<le> j" by blast
    with False k show ?thesis by (simp add: nat_str_big)
  qed
qed

section \<open>Decimal input: strtol and atoi\<close>

definition LONG_MAX :: int where "LONG_MAX = 2 ^ 63 - 1"
definition LONG_MIN :: int where "LONG_MIN = - (2 ^ 63)"

definition clamp_long :: "int \<Rightarrow> int" where
  "clamp_long v = max LONG_MIN (min LONG_MAX v)"

fun digits_val :: "nat \<Rightarrow> string \<Rightarrow> nat" where
  "digits_val acc [] = acc"
| "digits_val acc (c # cs) = digits_val (acc * 10 + digit_val c) cs"

text \<open>
  \<open>strtol(s, &end, 10)\<close>: the value (saturated at the ends of \<open>long\<close>) and the number of
  characters consumed, 0 when no digits follow the optional blanks and sign.
\<close>

definition strtol10 :: "string \<Rightarrow> int \<times> nat" where
  "strtol10 s =
     (let ws = takeWhile isspace s;
          r = dropWhile isspace s;
          (neg, sg, r') = (case r of
              c # cs \<Rightarrow> if c = CHR ''-'' then (True, 1, cs)
                        else if c = CHR ''+'' then (False, 1, cs) else (False, 0, r)
            | [] \<Rightarrow> (False, 0, []));
          ds = takeWhile isdigit r';
          v = int (digits_val 0 ds)
      in if ds = [] then (0, 0)
         else (clamp_long (if neg then - v else v), length ws + sg + length ds))"

text \<open>\<open>atoi\<close> as the C library of the Linux build computes it: the low 32 bits of \<open>strtol\<close>.\<close>

definition atoi :: "string \<Rightarrow> int" where
  "atoi s = sint (word_of_int (fst (strtol10 s)) :: 32 word)"

lemma digits_val_append: "digits_val acc (s @ t) = digits_val (digits_val acc s) t"
  by (induction s arbitrary: acc) auto

lemma digits_val_nat_str: "digits_val 0 (nat_str n) = n"
proof (induction n rule: nat_str.induct)
  case (1 n)
  then show ?case
    by (subst nat_str.simps) (auto simp: digits_val_append)
qed

lemma takeWhile_digits_nat_str:
  assumes "case r of [] \<Rightarrow> True | c # _ \<Rightarrow> \<not> isdigit c"
  shows "takeWhile isdigit (nat_str n @ r) = nat_str n"
proof -
  have "\<forall>c \<in> set (nat_str n). isdigit c"
    using nat_str_digits [of n] by (simp add: list_all_iff)
  then have "takeWhile isdigit (nat_str n @ r) = nat_str n @ takeWhile isdigit r"
    by (simp add: takeWhile_append2)
  also have "takeWhile isdigit r = []" using assms by (cases r) auto
  finally show ?thesis by simp
qed

lemma nat_str_hd_digit: "\<exists>c cs. nat_str n = c # cs \<and> isdigit c"
  using nat_str_digits [of n] nat_str_not_Nil [of n] by (cases "nat_str n") auto

lemma isdigit_not_space: "isdigit c \<Longrightarrow> \<not> isspace c"
  by (auto simp: isdigit_def isspace_def)

lemma isdigit_not_sign: "isdigit c \<Longrightarrow> c \<noteq> CHR ''-'' \<and> c \<noteq> CHR ''+''"
  by (auto simp: isdigit_def)

text \<open>Printing with \<open>%ld\<close> and reading back with \<open>strtol\<close> gives the value.\<close>

lemma strtol10_int_str:
  assumes "case r of [] \<Rightarrow> True | c # _ \<Rightarrow> \<not> isdigit c"
    and "LONG_MIN \<le> i" and "i \<le> LONG_MAX"
  shows "strtol10 (int_str i @ r) = (i, length (int_str i))"
proof (cases "i < 0")
  case True
  obtain c cs where ns: "nat_str (nat (- i)) = c # cs" "isdigit c"
    using nat_str_hd_digit by blast
  have tw: "takeWhile isdigit (nat_str (nat (- i)) @ r) = nat_str (nat (- i))"
    by (rule takeWhile_digits_nat_str) (rule assms)
  have sp: "\<not> isspace (CHR ''-'')" by (simp add: isspace_def)
  have "int (digits_val 0 (nat_str (nat (- i)))) = - i"
    using True by (simp add: digits_val_nat_str)
  then show ?thesis
    using True tw sp assms ns
    by (simp add: strtol10_def int_str_def clamp_long_def)
next
  case False
  obtain c cs where ns: "nat_str (nat i) = c # cs" "isdigit c"
    using nat_str_hd_digit by blast
  have tw: "takeWhile isdigit (nat_str (nat i) @ r) = nat_str (nat i)"
    by (rule takeWhile_digits_nat_str) (rule assms)
  have sp: "\<not> isspace c" "c \<noteq> CHR ''-''" "c \<noteq> CHR ''+''"
    using ns isdigit_not_space isdigit_not_sign by auto
  have "int (digits_val 0 (nat_str (nat i))) = i"
    using False by (simp add: digits_val_nat_str)
  then show ?thesis
    using False tw sp assms ns
    by (simp add: strtol10_def int_str_def clamp_long_def)
qed

end
