(* ===== verification/MgStr.thy ===== *)
theory MgStr
  imports CLib
begin

text \<open>
  The string helpers of the embedded HTTP library (crates/mongoose/mongoose.c, section
  src/str.c and the comparison of src/http.c). A \<open>struct mg_str\<close> is the list of its \<open>len\<close>
  bytes; a \<open>mg_str\<close> that may have a NULL \<open>buf\<close> is an \<open>option\<close>.
\<close>

text \<open>The value of a \<open>char\<close>, which is signed on the platforms built for.\<close>

definition schar :: "char \<Rightarrow> int" where
  "schar c = (if byte c < 128 then int (byte c) else int (byte c) - 256)"

definition mg_tolc :: "char \<Rightarrow> int" where
  "mg_tolc c = (if isupper c then schar c + 32 else schar c)"

text \<open>\<open>mg_ncasecmp\<close>: the difference of the first bytes that differ, case folded, 0 if none do.\<close>

fun mg_ncasecmp :: "string \<Rightarrow> string \<Rightarrow> nat \<Rightarrow> int" where
  "mg_ncasecmp s1 s2 0 = 0"
| "mg_ncasecmp (c # cs) (d # ds) (Suc n) =
     (let diff = mg_tolc c - mg_tolc d
      in if diff = 0 \<and> c \<noteq> NUL then mg_ncasecmp cs ds n else diff)"
| "mg_ncasecmp s1 s2 (Suc n) = 0"

fun mg_strcasecmp :: "string \<Rightarrow> string \<Rightarrow> int" where
  "mg_strcasecmp [] [] = 0"
| "mg_strcasecmp (x # xs) [] = 1"
| "mg_strcasecmp [] (y # ys) = -1"
| "mg_strcasecmp (x # xs) (y # ys) =
     (if mg_tolc x < mg_tolc y then -1
      else if mg_tolc x > mg_tolc y then 1
      else mg_strcasecmp xs ys)"

text \<open>\<open>mg_span\<close>: cut at the first separator, which is dropped; \<open>None\<close> on an empty string.\<close>

definition mg_span :: "string \<Rightarrow> char \<Rightarrow> (string \<times> string) option" where
  "mg_span s sep =
     (if s = [] then None
      else Some (takeWhile (\<lambda>c. c \<noteq> sep) s, drop 1 (dropWhile (\<lambda>c. c \<noteq> sep) s)))"

lemma mg_span_shorter: "mg_span s sep = Some (a, b) \<Longrightarrow> length b < length s"
proof -
  assume h: "mg_span s sep = Some (a, b)"
  then have b: "b = drop 1 (dropWhile (\<lambda>c. c \<noteq> sep) s)" and s: "s \<noteq> []"
    by (auto simp: mg_span_def split: if_splits)
  have "length (dropWhile (\<lambda>c. c \<noteq> sep) s) \<le> length s" by (rule length_dropWhile_le)
  with b s show ?thesis by (cases "dropWhile (\<lambda>c. c \<noteq> sep) s") auto
qed

section \<open>Numbers\<close>

definition hex_digit :: "char \<Rightarrow> nat option" where
  "hex_digit c =
     (if isdigit c then Some (byte c - 48)
      else if 65 \<le> byte c \<and> byte c \<le> 70 then Some (byte c - 55)
      else if 97 \<le> byte c \<and> byte c \<le> 102 then Some (byte c - 87)
      else None)"

definition dec_digit :: "char \<Rightarrow> nat option" where
  "dec_digit c = (if isdigit c then Some (byte c - 48) else None)"

definition bin_digit :: "char \<Rightarrow> nat option" where
  "bin_digit c = (if c = CHR ''0'' \<or> c = CHR ''1'' then Some (byte c - 48) else None)"

text \<open>
  The digit loop of \<open>mg_str_to_num\<close> for one base: \<open>None\<close> is the overflow return, otherwise the
  value, the number of digits and the unread rest. The checks against \<open>max\<close> come before each
  multiplication and addition, so the 64-bit arithmetic never wraps.
\<close>

fun mg_digits :: "(char \<Rightarrow> nat option) \<Rightarrow> nat \<Rightarrow> nat \<Rightarrow> string \<Rightarrow> nat \<Rightarrow> nat \<Rightarrow>
    (nat \<times> nat \<times> string) option" where
  "mg_digits dv base mx [] result nd = Some (result, nd, [])"
| "mg_digits dv base mx (c # cs) result nd =
     (case dv c of
        None \<Rightarrow> Some (result, nd, c # cs)
      | Some digit \<Rightarrow>
          if result > mx div base then None
          else if result * base > mx - digit then None
          else mg_digits dv base mx cs (result * base + digit) (Suc nd))"

definition num_max :: "nat \<Rightarrow> nat" where
  "num_max val_len = (if val_len = 1 then 0xFF else if val_len = 2 then 0xFFFF
     else if val_len = 4 then 0xFFFFFFFF else 0xFFFFFFFFFFFFFFFF)"

text \<open>Base 0 takes the base from a \<open>0b\<close>, \<open>0x\<close> or \<open>0\<close> prefix.\<close>

definition num_prefix :: "string \<Rightarrow> nat \<Rightarrow> nat \<times> string" where
  "num_prefix str base =
     (if base = 0 \<and> 2 \<le> length str then
        (if str ! 0 = CHR ''0'' then
           (if str ! 1 = CHR ''b'' then (2, drop 2 str)
            else if str ! 1 = CHR ''x'' then (16, drop 2 str)
            else (10, drop 1 str))
         else (10, str))
      else (base, str))"

definition num_scan :: "nat \<Rightarrow> nat \<Rightarrow> string \<Rightarrow> (nat \<times> nat \<times> string) option" where
  "num_scan base mx s =
     (if base = 2 then mg_digits bin_digit 2 mx s 0 0
      else if base = 10 then mg_digits dec_digit 10 mx s 0 0
      else if base = 16 then mg_digits hex_digit 16 mx s 0 0
      else None)"

definition mg_str_to_num :: "string \<Rightarrow> nat \<Rightarrow> nat \<Rightarrow> nat option" where
  "mg_str_to_num str base0 val_len =
     (if val_len \<notin> {1, 2, 4, 8} then None
      else case num_prefix str base0 of (base, s) \<Rightarrow>
        (case num_scan base (num_max val_len) s of
           None \<Rightarrow> None
         | Some (result, nd, rest) \<Rightarrow>
             if nd = 0 then None else if rest \<noteq> [] then None else Some result))"

lemma mg_digits_bound:
  assumes "mg_digits dv base mx s r nd = Some (r', nd', rest)" and "r \<le> mx"
    and "\<And>c d. dv c = Some d \<Longrightarrow> d \<le> mx"
  shows "r' \<le> mx"
  using assms(1,2)
proof (induction s arbitrary: r nd)
  case Nil
  then show ?case by simp
next
  case (Cons c cs)
  show ?case
  proof (cases "dv c")
    case None
    with Cons.prems show ?thesis by simp
  next
    case (Some d)
    with Cons.prems have le: "r * base \<le> mx - d"
      and rec: "mg_digits dv base mx cs (r * base + d) (Suc nd) = Some (r', nd', rest)"
      by (auto split: if_splits)
    from Some assms(3) have "d \<le> mx" by blast
    with le have "r * base + d \<le> mx" by simp
    with Cons.IH rec show ?thesis by blast
  qed
qed

lemma hex_digit_le: "hex_digit c = Some d \<Longrightarrow> d \<le> 15"
  by (auto simp: hex_digit_def isdigit_def split: if_splits)

lemma dec_digit_le: "dec_digit c = Some d \<Longrightarrow> d \<le> 9"
  by (auto simp: dec_digit_def isdigit_def split: if_splits)

lemma bin_digit_le: "bin_digit c = Some d \<Longrightarrow> d \<le> 1"
  by (auto simp: bin_digit_def split: if_splits)

lemma num_scan_bound:
  assumes scan: "num_scan b mx s = Some (v, nd, rest)" and mx: "15 \<le> mx"
  shows "v \<le> mx"
proof -
  consider (two) "mg_digits bin_digit 2 mx s 0 0 = Some (v, nd, rest)"
    | (ten) "mg_digits dec_digit 10 mx s 0 0 = Some (v, nd, rest)"
    | (hex) "mg_digits hex_digit 16 mx s 0 0 = Some (v, nd, rest)"
    using scan by (simp add: num_scan_def split: if_splits)
  then show ?thesis
  proof cases
    case two
    then show ?thesis
      by (rule mg_digits_bound) (use mx bin_digit_le in fastforce)+
  next
    case ten
    then show ?thesis
      by (rule mg_digits_bound) (use mx dec_digit_le in fastforce)+
  next
    case hex
    then show ?thesis
      by (rule mg_digits_bound) (use mx hex_digit_le in fastforce)+
  qed
qed

text \<open>A number that parses fits the width it is stored in.\<close>

lemma mg_str_to_num_bound:
  assumes "mg_str_to_num s base val_len = Some v"
  shows "v < 2 ^ (8 * val_len)"
proof -
  obtain b s' nd rest where "num_scan b (num_max val_len) s' = Some (v, nd, rest)"
    using assms
    by (auto simp: mg_str_to_num_def split: if_splits option.splits prod.splits)
  then have le: "v \<le> num_max val_len"
    by (rule num_scan_bound) (simp add: num_max_def)
  consider "val_len = 1" | "val_len = 2" | "val_len = 4" | "val_len = 8"
    using assms by (auto simp: mg_str_to_num_def split: if_splits)
  then show ?thesis using le by cases (simp_all add: num_max_def)
qed

end
