(* ===== verification/MgHttp.thy ===== *)
theory MgHttp
  imports MgStr
begin

text \<open>
  The parts of the embedded HTTP library (crates/mongoose/mongoose.c, src/http.c) that the
  server's handlers rest on: the parser of a request's head, the lookup of headers and query
  variables, URL decoding, and the text of a reply. The request is a list of bytes; the parsed
  message is a record of the substrings that the code's \<open>mg_str\<close> fields point to. A body
  length of \<open>(size_t) -1\<close> is \<open>None\<close>.

  The lemmas bound the decoder's output, make decoding undo percent-encoding, and read a reply
  back with the same library's parser.
\<close>

section \<open>Query variables\<close>

function mg_http_var :: "string \<Rightarrow> string \<Rightarrow> string option" where
  "mg_http_var buf name =
     (case mg_span buf (CHR ''&'') of
        None \<Rightarrow> None
      | Some (entry, rest) \<Rightarrow>
          (case mg_span entry (CHR ''='') of
             Some (k, v) \<Rightarrow>
               if length name = length k \<and> mg_ncasecmp name k (length k) = 0 then Some v
               else mg_http_var rest name
           | None \<Rightarrow> mg_http_var rest name))"
  by pat_completeness auto
termination
  by (relation "measure (\<lambda>(buf, name). length buf)") (auto dest: mg_span_shorter)

declare mg_http_var.simps [simp del]

definition isx :: "char \<Rightarrow> bool" where
  "isx c \<longleftrightarrow> isdigit c \<or> (97 \<le> byte c \<and> byte c \<le> 102) \<or> (65 \<le> byte c \<and> byte c \<le> 70)"

text \<open>
  The loop of \<open>mg_url_decode\<close> with room for \<open>room\<close> more bytes, the NUL included; \<open>None\<close> is the
  result -1 (bad escape, or no room).
\<close>

fun url_dec :: "string \<Rightarrow> nat \<Rightarrow> bool \<Rightarrow> string option" where
  "url_dec [] room form = (if 0 < room then Some [] else None)"
| "url_dec (c # cs) room form =
     (if room \<le> 1 then None
      else if c = CHR ''%'' then
        (case cs of
           a # b # r \<Rightarrow>
             if isx a \<and> isx b then
               (case mg_str_to_num [a, b] 16 1 of
                  Some v \<Rightarrow> map_option ((#) (char_of v)) (url_dec r (room - 1) form)
                | None \<Rightarrow> None)
             else None
         | _ \<Rightarrow> None)
      else if form \<and> c = CHR ''+'' then map_option ((#) (CHR '' '')) (url_dec cs (room - 1) form)
      else map_option ((#) c) (url_dec cs (room - 1) form))"

definition mg_url_decode :: "string \<Rightarrow> nat \<Rightarrow> bool \<Rightarrow> string option" where
  "mg_url_decode src dst_len form = url_dec src dst_len form"

text \<open>
  The return value and, when it is not negative, the bytes left in \<open>dst\<close>. A query without a
  buffer is \<open>None\<close>.
\<close>

definition mg_http_get_var :: "string option \<Rightarrow> string \<Rightarrow> nat \<Rightarrow> int \<times> string" where
  "mg_http_get_var buf name dst_len =
     (if dst_len = 0 then (-2, [])
      else case buf of
        None \<Rightarrow> (-1, [])
      | Some q \<Rightarrow>
          if q = [] then (-1, [])
          else (case mg_http_var q name of
                  None \<Rightarrow> (-4, [])
                | Some v \<Rightarrow>
                    (case mg_url_decode v dst_len True of
                       None \<Rightarrow> (-3, [])
                     | Some d \<Rightarrow> (int (length d), d))))"

section \<open>The request head\<close>

definition isok :: "char \<Rightarrow> bool" where
  "isok c \<longleftrightarrow> c = LF \<or> c = CR \<or> c = TAB \<or> 32 \<le> byte c"

text \<open>
  \<open>mg_http_get_request_len\<close>: the loop keeps the bytes already passed, newest first; -1 for a byte
  that no head contains, 0 when the blank line has not arrived.
\<close>

fun request_len_loop :: "string \<Rightarrow> string \<Rightarrow> int" where
  "request_len_loop seen [] = 0"
| "request_len_loop seen (c # cs) =
     (if \<not> isok c then -1
      else if (c = LF \<and> (case seen of p # _ \<Rightarrow> p = LF | [] \<Rightarrow> False))
           \<or> (3 < length seen \<and> c = LF \<and> seen ! 0 = CR \<and> seen ! 1 = LF)
      then int (length seen) + 1
      else request_len_loop (c # seen) cs)"

definition mg_http_get_request_len :: "string \<Rightarrow> int" where
  "mg_http_get_request_len buf = request_len_loop [] buf"

type_synonym header = "string \<times> string"

fun mg_http_get_header :: "header list \<Rightarrow> string \<Rightarrow> string option" where
  "mg_http_get_header [] name = None"
| "mg_http_get_header ((k, v) # hs) name =
     (if k = [] then None
      else if length name = length k \<and> mg_ncasecmp k name (length name) = 0 then Some v
      else mg_http_get_header hs name)"

definition vcb :: "char \<Rightarrow> bool" where
  "vcb c \<longleftrightarrow> 128 \<le> byte c \<and> byte c < 192"

text \<open>The length of the UTF-8 character at the front of a text that is not empty.\<close>

definition clen :: "string \<Rightarrow> nat" where
  "clen s =
     (let c = byte (hd s); n = length s
      in if 32 < c \<and> c \<le> 126 then 1
         else if 192 \<le> c \<and> c < 224 \<and> n > 1 \<and> vcb (s ! 1) then 2
         else if 224 \<le> c \<and> c < 240 \<and> n > 2 \<and> vcb (s ! 1) \<and> vcb (s ! 2) then 3
         else if 240 \<le> c \<and> c < 248 \<and> n > 3 \<and> vcb (s ! 1) \<and> vcb (s ! 2) \<and> vcb (s ! 3) then 4
         else 0)"

lemma clen_le: "s \<noteq> [] \<Longrightarrow> clen s \<le> length s"
  unfolding clen_def Let_def by (simp add: Suc_le_eq)

text \<open>
  The loops that collect characters: up to a byte \<open>stop\<close> (a header's name stops at the colon), or
  as far as \<open>clen\<close> is positive. The first part is what was read, the second the rest.
\<close>

function take_chars :: "char option \<Rightarrow> string \<Rightarrow> string \<times> string" where
  "take_chars stop s =
     (if s = [] \<or> Some (hd s) = stop \<or> clen s = 0 then ([], s)
      else case take_chars stop (drop (clen s) s) of (a, r) \<Rightarrow> (take (clen s) s @ a, r))"
  by pat_completeness auto
termination
  by (relation "measure (\<lambda>(stop, s). length s)") auto

declare take_chars.simps [simp del]

text \<open>\<open>skiptorn\<close>: the value up to the end of the line and what follows it.\<close>

definition skiptorn :: "string \<Rightarrow> (string \<times> string) option" where
  "skiptorn s =
     (let v = takeWhile (\<lambda>c. c \<noteq> LF \<and> c \<noteq> CR) s; r = dropWhile (\<lambda>c. c \<noteq> LF \<and> c \<noteq> CR) s
      in case r of
           [] \<Rightarrow> None
         | c # r' \<Rightarrow>
             if c = LF then Some (v, r')
             else (case r' of d # r'' \<Rightarrow> if d = LF then Some (v, r'') else None | [] \<Rightarrow> None))"

definition is_blank :: "char \<Rightarrow> bool" where
  "is_blank c \<longleftrightarrow> c = CHR '' '' \<or> c = TAB"

definition trim_end :: "string \<Rightarrow> string" where
  "trim_end v = rev (dropWhile is_blank (rev v))"

definition MG_MAX_HTTP_HEADERS :: nat where "MG_MAX_HTTP_HEADERS = 30"

text \<open>\<open>mg_http_parse_headers\<close> with room for \<open>n\<close> more headers; \<open>None\<close> is an error.\<close>

fun parse_headers :: "nat \<Rightarrow> string \<Rightarrow> header list option" where
  "parse_headers 0 s = Some []"
| "parse_headers (Suc n) s =
     (if s = [] then None
      else if s ! 0 = LF \<or> (s ! 0 = CR \<and> 1 < length s \<and> s ! 1 = LF) then Some []
      else
        (case take_chars (Some (CHR '':'')) s of (k, r) \<Rightarrow>
           if k = [] then None
           else if r = [] \<or> clen r = 0 then None
           else if hd r \<noteq> CHR '':'' then None
           else
             (case skiptorn (dropWhile is_blank (tl r)) of
                None \<Rightarrow> None
              | Some (v, r') \<Rightarrow> map_option ((#) (k, trim_end v)) (parse_headers n r'))))"

definition mg_to_size_t :: "string \<Rightarrow> nat option" where
  "mg_to_size_t str =
     (let s = dropWhile is_blank str
      in if s \<noteq> [] \<and> hd s = CHR ''-'' then None
         else (case mg_digits dec_digit 10 (2 ^ 64 - 1) s 0 0 of
                 None \<Rightarrow> None
               | Some (v, nd, rest) \<Rightarrow>
                   if nd = 0 then None
                   else if dropWhile is_blank rest \<noteq> [] then None else Some v))"

record http_message =
  hm_method :: string
  hm_uri :: string
  hm_query :: "string option"
  hm_proto :: string
  hm_headers :: "header list"
  hm_body_len :: "nat option"

definition is_version :: "string \<Rightarrow> bool" where
  "is_version p \<longleftrightarrow> length p = 8 \<and> mg_ncasecmp p ''HTTP/'' 5 = 0
     \<and> isdigit (p ! 5) \<and> p ! 6 = CHR ''.'' \<and> isdigit (p ! 7)"

text \<open>
  \<open>mg_http_parse\<close>: the return value (the length of the head, 0 when it is not complete, -1 on an
  error; a stray line end in the request line returns \<open>false\<close>, which is 0 as well) and the
  message.
\<close>

definition body_len :: "bool \<Rightarrow> string \<Rightarrow> string \<Rightarrow> nat option \<Rightarrow> nat option" where
  "body_len is_response meth uri cl =
     (case cl of
        Some n \<Rightarrow> Some n
      | None \<Rightarrow>
          if \<not> is_response \<and> mg_strcasecmp meth ''PUT'' \<noteq> 0 \<and> mg_strcasecmp meth ''POST'' \<noteq> 0
          then Some 0
          else if is_response \<and> mg_strcasecmp uri ''204'' = 0 then Some 0
          else None)"

definition mg_http_parse :: "string \<Rightarrow> int \<times> http_message option" where
  "mg_http_parse s =
     (let req_len = mg_http_get_request_len s; head = take (nat req_len) s
      in if req_len \<le> 0 then (req_len, None)
      else case take_chars None head of (method, r1) \<Rightarrow>
      (case take_chars None (dropWhile (\<lambda>c. c = CHR '' '') r1) of (target, r2) \<Rightarrow>
      (let is_response = 5 < length method \<and> mg_ncasecmp method ''HTTP/'' 5 = 0
       in case skiptorn (dropWhile (\<lambda>c. c = CHR '' '') r2) of
            None \<Rightarrow> (0, None)
          | Some (proto, r3) \<Rightarrow>
              if \<not> is_response \<and> proto \<noteq> [] \<and> \<not> is_version proto then (-1, None)
              else
                (let uri = cut_at (CHR ''?'') target;
                     query = (if CHR ''?'' \<in> set target then Some (drop (length uri + 1) target) else None)
                 in if method = [] \<or> uri = [] then (-1, None)
                    else case parse_headers MG_MAX_HTTP_HEADERS r3 of
                      None \<Rightarrow> (-1, None)
                    | Some hs \<Rightarrow>
                        (let cl = mg_http_get_header hs ''Content-Length'';
                             n = (case cl of None \<Rightarrow> None | Some v \<Rightarrow> mg_to_size_t v)
                         in if cl \<noteq> None \<and> n = None then (-1, None)
                            else if (case n of Some v \<Rightarrow> 2 ^ 64 \<le> nat req_len + v | None \<Rightarrow> False)
                            then (-1, None)
                            else (req_len,
                              Some \<lparr>hm_method = method, hm_uri = uri, hm_query = query,
                                hm_proto = proto, hm_headers = hs,
                                hm_body_len = body_len is_response method uri n\<rparr>))))))"

section \<open>Replies\<close>

definition status_table :: "(int \<times> string) list" where
  "status_table = [(100, ''Continue''), (101, ''Switching Protocols''), (102, ''Processing''),
        (200, ''OK''), (201, ''Created''), (202, ''Accepted''),
        (203, ''Non-authoritative Information''), (204, ''No Content''), (205, ''Reset Content''),
        (206, ''Partial Content''), (207, ''Multi-Status''), (208, ''Already Reported''),
        (226, ''IM Used''), (300, ''Multiple Choices''), (301, ''Moved Permanently''),
        (302, ''Found''), (303, ''See Other''), (304, ''Not Modified''), (305, ''Use Proxy''),
        (307, ''Temporary Redirect''), (308, ''Permanent Redirect''), (400, ''Bad Request''),
        (401, ''Unauthorized''), (402, ''Payment Required''), (403, ''Forbidden''),
        (404, ''Not Found''), (405, ''Method Not Allowed''), (406, ''Not Acceptable''),
        (407, ''Proxy Authentication Required''), (408, ''Request Timeout''), (409, ''Conflict''),
        (410, ''Gone''), (411, ''Length Required''), (412, ''Precondition Failed''),
        (413, ''Payload Too Large''), (414, ''Request-URI Too Long''),
        (415, ''Unsupported Media Type''), (416, ''Requested Range Not Satisfiable''),
        (417, ''Expectation Failed''), (418, ''I'' @ [CHR 0x27] @ ''m a teapot''),
        (421, ''Misdirected Request''), (422, ''Unprocessable Entity''), (423, ''Locked''),
        (424, ''Failed Dependency''), (426, ''Upgrade Required''), (428, ''Precondition Required''),
        (429, ''Too Many Requests''), (431, ''Request Header Fields Too Large''),
        (444, ''Connection Closed Without Response''), (451, ''Unavailable For Legal Reasons''),
        (499, ''Client Closed Request''), (500, ''Internal Server Error''), (501, ''Not Implemented''),
        (502, ''Bad Gateway''), (503, ''Service Unavailable''), (504, ''Gateway Timeout''),
        (505, ''HTTP Version Not Supported''), (506, ''Variant Also Negotiates''),
        (507, ''Insufficient Storage''), (508, ''Loop Detected''), (510, ''Not Extended''),
        (511, ''Network Authentication Required''), (599, ''Network Connect Timeout Error'')]"

definition mg_http_status_code_str :: "int \<Rightarrow> string" where
  "mg_http_status_code_str code =
     (case map_of status_table code of Some s \<Rightarrow> s | None \<Rightarrow> [])"

text \<open>
  \<open>mg_http_reply\<close> prints the head with twelve blanks after \<open>Content-Length:\<close>, then the body, and
  then goes back to print the body's length over the last eleven (\<open>%-10lu\<close>, at most ten characters
  and a NUL that becomes a blank).
\<close>

definition overwrite :: "string \<Rightarrow> nat \<Rightarrow> string \<Rightarrow> string" where
  "overwrite buf i ys = take i buf @ ys @ drop (i + length ys) buf"

definition pad10 :: "string \<Rightarrow> string" where
  "pad10 s = s @ replicate (10 - length s) (CHR '' '')"

definition reply_head :: "int \<Rightarrow> string \<Rightarrow> string" where
  "reply_head code headers =
     ''HTTP/1.1 '' @ int_str code @ '' '' @ mg_http_status_code_str code @ CRLF @ headers
     @ ''Content-Length:'' @ replicate 12 (CHR '' '') @ CRLF @ CRLF"

definition http_reply_bytes :: "int \<Rightarrow> string \<Rightarrow> string \<Rightarrow> string" where
  "http_reply_bytes code headers body =
     (let head = reply_head code headers; len = length head; out = head @ body
      in if 16 < length out
         then overwrite out (len - 15) (take 10 (pad10 (nat_str (length body))) @ '' '')
         else out)"

section \<open>The URL decoder\<close>

lemma url_dec_length: "url_dec s room form = Some d \<Longrightarrow> length d < room"
proof (induction s room form arbitrary: d rule: url_dec.induct)
  case (1 room form)
  then show ?case by (simp split: if_splits)
next
  case (2 c cs room form)
  then show ?case by (fastforce split: if_splits list.splits option.splits)
qed

definition hexd :: "nat \<Rightarrow> char" where
  "hexd d = (if d < 10 then char_of (48 + d) else char_of (55 + d))"

definition percent :: "char \<Rightarrow> string" where
  "percent c = [CHR ''%'', hexd (byte c div 16), hexd (byte c mod 16)]"

definition percent_encode :: "string \<Rightarrow> string" where
  "percent_encode s = concat (map percent s)"

lemma hexd_props: "d < 16 \<Longrightarrow> isx (hexd d) \<and> hex_digit (hexd d) = Some d"
  by (auto simp: hexd_def isx_def isdigit_def hex_digit_def)

lemma hex_pair_num:
  assumes "a < 16" and "b < 16"
  shows "mg_str_to_num [hexd a, hexd b] 16 1 = Some (16 * a + b)"
proof -
  have "a \<le> 15" "16 * a + b \<le> 255" using assms by auto
  then show ?thesis
    using hexd_props [OF assms(1)] hexd_props [OF assms(2)]
    by (auto simp: mg_str_to_num_def num_prefix_def num_scan_def num_max_def algebra_simps)
qed

lemma byte_halves: "byte c div 16 < 16" "byte c mod 16 < 16"
proof -
  have "byte c < 16 * 16" using byte_lt [of c] by simp
  then show "byte c div 16 < 16" by (rule less_mult_imp_div_less)
qed simp

lemma url_dec_percent:
  "1 < room \<Longrightarrow> url_dec (percent c @ r) room form = map_option ((#) c) (url_dec r (room - 1) form)"
proof -
  assume room: "1 < room"
  have d: "byte c div 16 < 16" "byte c mod 16 < 16" by (rule byte_halves)+
  have "16 * (byte c div 16) + byte c mod 16 = byte c" by simp
  then show ?thesis
    using room hexd_props [OF d(1)] hexd_props [OF d(2)] hex_pair_num [OF d]
    by (simp add: percent_def)
qed

lemma url_dec_encoded: "length s < room \<Longrightarrow> url_dec (percent_encode s) room form = Some s"
proof (induction s arbitrary: room)
  case Nil
  then show ?case by (simp add: percent_encode_def)
next
  case (Cons c cs)
  then have "url_dec (percent_encode cs) (room - 1) form = Some cs" by simp
  with Cons.prems show ?case using url_dec_percent [of room c "percent_encode cs" form]
    by (simp add: percent_encode_def)
qed

lemma hexd_not_delim: "d < 16 \<Longrightarrow> hexd d \<noteq> CHR ''&'' \<and> hexd d \<noteq> CHR ''=''"
  by (auto simp: hexd_def dest: arg_cong [where f = byte])

lemma percent_encode_no_amp: "CHR ''&'' \<notin> set (percent_encode s)"
proof (induction s)
  case Nil
  then show ?case by (simp add: percent_encode_def)
next
  case (Cons c cs)
  have "CHR ''&'' \<notin> set (percent c)"
    using hexd_not_delim [OF byte_halves(1) [of c]] hexd_not_delim [OF byte_halves(2) [of c]]
    by (auto simp: percent_def)
  moreover have "percent_encode (c # cs) = percent c @ percent_encode cs"
    by (simp add: percent_encode_def)
  ultimately show ?case using Cons by (simp del: set_simps)
qed

lemma mg_ncasecmp_refl: "mg_ncasecmp s s n = 0"
  by (induction s arbitrary: n) (case_tac n; simp add: Let_def)+

lemma span_at:
  "c \<notin> set a \<Longrightarrow> mg_span (a @ c # r) c = Some (a, r)"
  "c \<notin> set a \<Longrightarrow> a \<noteq> [] \<Longrightarrow> mg_span a c = Some (a, [])"
proof -
  assume a: "c \<notin> set a"
  then have "takeWhile (\<lambda>x. x \<noteq> c) (a @ c # r) = a" "dropWhile (\<lambda>x. x \<noteq> c) (a @ c # r) = c # r"
    by (subst takeWhile_append2 dropWhile_append2; auto)+
  then show "mg_span (a @ c # r) c = Some (a, r)" by (simp add: mg_span_def)
  have t: "takeWhile (\<lambda>x. x \<noteq> c) a = a" and d: "dropWhile (\<lambda>x. x \<noteq> c) a = []"
    using a by (auto simp: takeWhile_eq_all_conv)
  show "mg_span a c = Some (a, [])" if "a \<noteq> []"
    using that by (simp add: mg_span_def t d)
qed

text \<open>A variable that stands first in the query.\<close>

lemma http_var_first:
  assumes "CHR ''='' \<notin> set name" "CHR ''&'' \<notin> set name" "CHR ''&'' \<notin> set v"
  shows "mg_http_var (name @ CHR ''='' # v @ CHR ''&'' # rest) name = Some v"
    and "mg_http_var (name @ CHR ''='' # v) name = Some v"
proof -
  have amp: "CHR ''&'' \<notin> set (name @ CHR ''='' # v)" using assms by simp
  have "mg_span ((name @ CHR ''='' # v) @ CHR ''&'' # rest) (CHR ''&'')
      = Some (name @ CHR ''='' # v, rest)" using amp by (rule span_at(1))
  moreover have "mg_span (name @ CHR ''='' # v) (CHR ''&'') = Some (name @ CHR ''='' # v, [])"
    using amp by (intro span_at(2)) auto
  moreover have "mg_span (name @ CHR ''='' # v) (CHR ''='') = Some (name, v)"
    using assms by (intro span_at(1))
  ultimately show "mg_http_var (name @ CHR ''='' # v @ CHR ''&'' # rest) name = Some v"
    "mg_http_var (name @ CHR ''='' # v) name = Some v"
    by (subst mg_http_var.simps; simp add: mg_ncasecmp_refl)+
qed

text \<open>Percent-encoding a value and sending it as the first variable of the query gives
  exactly that value back from \<open>mg_http_get_var\<close>, whatever bytes it holds, whenever it fits the
  destination with its NUL.\<close>

theorem query_var_roundtrip:
  assumes "CHR ''='' \<notin> set name" "CHR ''&'' \<notin> set name" "length v < n"
  shows "mg_http_get_var (Some (name @ CHR ''='' # percent_encode v @ CHR ''&'' # rest)) name n
       = (int (length v), v)"
  using http_var_first(1) [OF assms(1,2) percent_encode_no_amp] assms(3)
  by (simp add: mg_http_get_var_def mg_url_decode_def url_dec_encoded)

theorem query_var_roundtrip_witness:
  "mg_http_get_var (Some ''lib=%61%26%25&once=1'') ''lib'' 64 = (3, ''a&%'')"
proof -
  have "percent_encode ''a&%'' = ''%61%26%25''" by code_simp
  then show ?thesis using query_var_roundtrip [of "''lib''" "''a&%''" 64 "''once=1''"] by simp
qed

text \<open>What \<open>mg_http_get_var\<close> writes always fits the destination with its terminating NUL,
  and the value it returns is the number of bytes written, or negative.\<close>

theorem get_var_bounded:
  "case mg_http_get_var q name n of (len, d) \<Rightarrow> (len < 0 \<and> d = []) \<or> (len = int (length d) \<and> length d < n)"
  by (auto simp: mg_http_get_var_def mg_url_decode_def dest: url_dec_length split: option.splits)

section \<open>A reply, read back\<close>

definition name_char :: "char \<Rightarrow> bool" where
  "name_char c \<longleftrightarrow> 32 < byte c \<and> byte c \<le> 126 \<and> c \<noteq> CHR '':''"

definition value_char :: "char \<Rightarrow> bool" where
  "value_char c \<longleftrightarrow> 32 \<le> byte c \<and> byte c \<le> 126"

text \<open>A header field as the handlers write it: a name, a value without outer blanks.\<close>

definition good_header :: "header \<Rightarrow> bool" where
  "good_header h \<longleftrightarrow> fst h \<noteq> [] \<and> list_all name_char (fst h) \<and> list_all value_char (snd h)
     \<and> snd h \<noteq> [] \<and> \<not> is_blank (hd (snd h)) \<and> \<not> is_blank (last (snd h))"

definition header_line :: "header \<Rightarrow> string" where
  "header_line h = fst h @ '': '' @ snd h @ CRLF"

definition header_block :: "header list \<Rightarrow> string" where
  "header_block hs = concat (map header_line hs)"

lemma name_char_clen: "name_char c \<Longrightarrow> clen (c # r) = 1 \<and> c \<noteq> CHR '':''"
  by (simp add: name_char_def clen_def)

lemma value_char_props: "value_char c \<Longrightarrow> c \<noteq> LF \<and> c \<noteq> CR \<and> isok c"
  by (auto simp: value_char_def isok_def)

lemma name_value_char: "name_char c \<Longrightarrow> value_char c"
  by (simp add: name_char_def value_char_def)

lemma take_chars_name:
  "list_all name_char k \<Longrightarrow> r = [] \<or> Some (hd r) = stop \<or> clen r = 0 \<Longrightarrow>
   stop = None \<or> stop = Some (CHR '':'') \<Longrightarrow> take_chars stop (k @ r) = (k, r)"
proof (induction k)
  case Nil
  then show ?case by (subst take_chars.simps) auto
next
  case (Cons c k)
  then have "clen (c # k @ r) = 1" "c \<noteq> CHR '':''" "take_chars stop (k @ r) = (k, r)"
    using name_char_clen by auto
  then show ?case using Cons.prems(3) by (subst take_chars.simps) auto
qed

lemma skiptorn_line: "list_all value_char v \<Longrightarrow> skiptorn (v @ CRLF @ r) = Some (v, r)"
proof -
  assume "list_all value_char v"
  then have "\<forall>c \<in> set v. c \<noteq> LF \<and> c \<noteq> CR" using value_char_props by (auto simp: list_all_iff)
  then have "takeWhile (\<lambda>c. c \<noteq> LF \<and> c \<noteq> CR) (v @ CRLF @ r) = v"
    "dropWhile (\<lambda>c. c \<noteq> LF \<and> c \<noteq> CR) (v @ CRLF @ r) = CRLF @ r"
    by (subst takeWhile_append2 dropWhile_append2; auto)+
  then show ?thesis by (simp add: skiptorn_def)
qed

lemma trim_end_good: "v \<noteq> [] \<Longrightarrow> \<not> is_blank (last v) \<Longrightarrow> trim_end v = v"
  by (cases v rule: rev_cases) (simp_all add: trim_end_def)

lemma trim_end_pad: "v \<noteq> [] \<Longrightarrow> \<not> is_blank (last v) \<Longrightarrow> list_all is_blank b \<Longrightarrow> trim_end (v @ b) = v"
proof -
  assume v: "v \<noteq> []" "\<not> is_blank (last v)" and b: "list_all is_blank b"
  have "dropWhile is_blank (rev b @ rev v) = dropWhile is_blank (rev v)"
    using b by (subst dropWhile_append2) (auto simp: list_all_iff)
  with trim_end_good [OF v] show ?thesis by (simp add: trim_end_def)
qed

text \<open>One header: its name, any blanks, a value that may be followed by blanks.\<close>

lemma parse_headers_line:
  assumes "k \<noteq> []" "list_all name_char k" "list_all value_char v" "v \<noteq> []"
    "\<not> is_blank (hd v)" "\<not> is_blank (last v)" "list_all is_blank b" "list_all value_char b"
  shows "parse_headers (Suc n) (k @ '': '' @ v @ b @ CRLF @ r)
       = map_option ((#) (k, v)) (parse_headers n r)"
proof -
  let ?s = "k @ '': '' @ v @ b @ CRLF @ r"
  obtain c k' where k: "k = c # k'" using assms(1) by (cases k) auto
  have c: "c \<noteq> LF" "c \<noteq> CR" using assms(2) k value_char_props name_value_char by auto
  have tc: "take_chars (Some (CHR '':'')) ?s = (k, '': '' @ v @ b @ CRLF @ r)"
    using assms(2) by (rule take_chars_name) auto
  have vb: "skiptorn (v @ b @ CRLF @ r) = Some (v @ b, r)"
    using skiptorn_line [of "v @ b" r] assms by simp
  have dw: "dropWhile is_blank ('' '' @ v @ b @ CRLF @ r) = v @ b @ CRLF @ r"
    using assms(4,5) by (cases v) (auto simp: is_blank_def)
  have cl: "clen ('': '' @ v @ b @ CRLF @ r) \<noteq> 0" by (simp add: clen_def)
  show ?thesis
    using tc vb dw cl c k trim_end_pad [OF assms(4,6,7)] by simp
qed

lemma parse_headers_block:
  assumes "list_all good_header hs" and "length hs < n"
  shows "parse_headers n (header_block hs @ r)
     = map_option ((@) hs) (parse_headers (n - length hs) r)"
  using assms
proof (induction hs arbitrary: n)
  case Nil
  then show ?case by (simp add: header_block_def option.map_ident)
next
  case (Cons h hs)
  obtain k v where h: "h = (k, v)" by (cases h)
  obtain m where n: "n = Suc m" using Cons.prems by (cases n) auto
  have "parse_headers (Suc m) (header_block (h # hs) @ r)
      = map_option ((#) h) (parse_headers m (header_block hs @ r))"
    using parse_headers_line [of k v "[]" m "header_block hs @ r"] Cons.prems(1) h
    by (simp add: good_header_def header_block_def header_line_def)
  with Cons n show ?case by (simp add: option.map_comp comp_def)
qed

lemma request_len_text:
  "list_all value_char v \<Longrightarrow> request_len_loop seen (v @ r) = request_len_loop (rev v @ seen) r"
  by (induction v arbitrary: seen) (auto simp: value_char_props)

lemma request_len_line:
  assumes "list_all value_char v" "v \<noteq> []"
  shows "request_len_loop seen (v @ CRLF @ r) = request_len_loop (rev (v @ CRLF) @ seen) r"
proof -
  have "last v \<noteq> LF" using assms value_char_props by (simp add: list_all_iff)
  then obtain y ys where y: "rev v = y # ys" "y \<noteq> LF"
    using assms(2) by (cases v rule: rev_cases) auto
  have "request_len_loop (y # ys @ seen) (CRLF @ r) = request_len_loop (LF # CR # y # ys @ seen) r"
    using y(2) by (simp add: isok_def)
  then show ?thesis
    using request_len_text [OF assms(1), of seen "CRLF @ r"] y(1) by simp
qed

text \<open>A block of non-empty lines and the blank line that ends it.\<close>

lemma request_len_lines:
  assumes "list_all (\<lambda>l. l \<noteq> [] \<and> list_all value_char l) ls" "ls \<noteq> []"
  shows "request_len_loop seen (concat (map (\<lambda>l. l @ CRLF) ls) @ CRLF @ body)
     = int (length seen + length (concat (map (\<lambda>l. l @ CRLF) ls)) + 2)"
  using assms
proof (induction ls arbitrary: seen)
  case Nil
  then show ?case by simp
next
  case (Cons l ls)
  have l: "l \<noteq> []" "list_all value_char l" using Cons.prems by auto
  let ?r = "concat (map (\<lambda>l. l @ CRLF) ls) @ CRLF @ body"
  have step: "request_len_loop seen (l @ CRLF @ ?r) = request_len_loop (rev (l @ CRLF) @ seen) ?r"
    by (rule request_len_line) (rule l)+
  show ?case
  proof (cases "ls = []")
    case True
    have "0 < length l" using l by simp
    with True step show ?thesis by (auto simp: isok_def)
  next
    case False
    with Cons step show ?thesis by simp
  qed
qed

lemma mg_digits_run:
  "list_all isdigit ds \<Longrightarrow> digits_val acc ds \<le> mx \<Longrightarrow> case r of [] \<Rightarrow> True | c # _ \<Rightarrow> \<not> isdigit c \<Longrightarrow>
   mg_digits dec_digit 10 mx (ds @ r) acc nd = Some (digits_val acc ds, nd + length ds, r)"
proof (induction ds arbitrary: acc nd)
  case Nil
  then show ?case by (cases r) (auto simp: dec_digit_def)
next
  case (Cons d ds)
  have mono: "a \<le> digits_val a s" for a s
  proof (induction s arbitrary: a)
    case (Cons x xs)
    have "a * 10 + digit_val x \<le> digits_val (a * 10 + digit_val x) xs" by (rule Cons)
    then show ?case by simp
  qed simp
  have "acc * 10 + digit_val d \<le> mx"
    using Cons.prems(2) mono [of "acc * 10 + digit_val d" ds] by simp
  then have le: "acc * 10 \<le> mx - digit_val d" "acc \<le> mx div 10" by auto
  have "dec_digit d = Some (digit_val d)"
    using Cons.prems(1) by (simp add: dec_digit_def digit_val_def)
  with le Cons show ?case by simp
qed

lemma mg_to_size_t_nat_str: "n < 2 ^ 64 \<Longrightarrow> mg_to_size_t (nat_str n) = Some n"
proof -
  assume n: "n < 2 ^ 64"
  obtain c cs where ns: "nat_str n = c # cs" "isdigit c" using nat_str_hd_digit by blast
  have "\<not> is_blank c" "c \<noteq> CHR ''-''" using ns(2) by (auto simp: is_blank_def isdigit_def)
  moreover have "mg_digits dec_digit 10 (2 ^ 64 - 1) (nat_str n @ []) 0 0
      = Some (digits_val 0 (nat_str n), 0 + length (nat_str n), [])"
    using n nat_str_digits [of n] by (intro mg_digits_run) (simp_all add: digits_val_nat_str)
  ultimately show ?thesis
    using ns digits_val_nat_str [of n] by (simp add: mg_to_size_t_def)
qed

text \<open>The reply's bytes with the length in its place.\<close>

definition reply_head_done :: "int \<Rightarrow> string \<Rightarrow> nat \<Rightarrow> string" where
  "reply_head_done code headers n =
     ''HTTP/1.1 '' @ int_str code @ '' '' @ mg_http_status_code_str code @ CRLF @ headers
     @ ''Content-Length: '' @ pad10 (nat_str n) @ '' '' @ CRLF @ CRLF"

lemma length_pad10: "length s \<le> 10 \<Longrightarrow> length (pad10 s) = 10"
  by (simp add: pad10_def)

lemma overwrite_middle: "length x = length y \<Longrightarrow> overwrite (p @ x @ t) (length p) y = p @ y @ t"
  by (simp add: overwrite_def)

lemma reply_bytes_done:
  assumes "length body < 10 ^ 10"
  shows "http_reply_bytes code headers body = reply_head_done code headers (length body) @ body"
proof -
  have l: "length (nat_str (length body)) \<le> 10" using assms by (intro length_nat_str) simp_all
  define p where "p = ''HTTP/1.1 '' @ int_str code @ '' '' @ mg_http_status_code_str code @ CRLF
     @ headers @ ''Content-Length:'' @ '' ''"
  define y where "y = pad10 (nat_str (length body)) @ '' ''"
  have h: "reply_head code headers = p @ replicate 11 (CHR '' '') @ CRLF @ CRLF"
    by (simp add: reply_head_def p_def eval_nat_numeral)
  have y: "length y = 11" "take 10 (pad10 (nat_str (length body))) @ '' '' = y"
    using l by (simp_all add: y_def length_pad10)
  have d: "reply_head_done code headers (length body) = p @ y @ CRLF @ CRLF"
    by (simp add: reply_head_done_def p_def y_def)
  have "length (reply_head code headers) - 15 = length p" by (simp add: h)
  moreover have "16 < length (reply_head code headers @ body)" by (simp add: reply_head_def)
  moreover have "overwrite (p @ replicate 11 (CHR '' '') @ (CRLF @ CRLF @ body)) (length p) y
      = p @ y @ (CRLF @ CRLF @ body)"
    using y(1) by (intro overwrite_middle) simp
  ultimately show ?thesis
    unfolding http_reply_bytes_def Let_def by (simp add: y(2) h d)
qed

lemma status_chars: "list_all value_char (mg_http_status_code_str code)"
proof -
  have tab: "list_all (\<lambda>(k, v). list_all value_char v) status_table"
    by (simp add: status_table_def value_char_def)
  have "list_all value_char s" if "map_of status_table code = Some s" for s
    using map_of_SomeD [OF that] tab by (auto simp: list_all_iff)
  then show ?thesis by (auto simp: mg_http_status_code_str_def split: option.splits)
qed

definition status_line :: "int \<Rightarrow> string" where
  "status_line code = ''HTTP/1.1 '' @ int_str code @ '' '' @ mg_http_status_code_str code"

definition length_line :: "nat \<Rightarrow> string" where
  "length_line n = ''Content-Length: '' @ pad10 (nat_str n) @ '' ''"

lemma digit_name_char: "isdigit c \<Longrightarrow> name_char c"
  by (auto simp: isdigit_def name_char_def)

lemma nat_str_name: "list_all name_char (nat_str n)"
  using nat_str_digits [of n] digit_name_char by (auto simp: list_all_iff)

lemma int_str_name: "list_all name_char (int_str i)"
  using nat_str_name by (auto simp: int_str_def name_char_def)

lemma name_value_all: "list_all name_char s \<Longrightarrow> list_all value_char s"
  using name_value_char by (auto simp: list_all_iff)

lemma pad10_value: "list_all value_char (pad10 (nat_str n))"
  using name_value_all [OF nat_str_name] by (auto simp: pad10_def value_char_def list_all_iff)

lemma head_lines:
  "reply_head_done code (header_block hs) n =
     concat (map (\<lambda>l. l @ CRLF)
       (status_line code # map (\<lambda>h. fst h @ '': '' @ snd h) hs @ [length_line n])) @ CRLF"
  by (induction hs)
     (simp_all add: reply_head_done_def status_line_def length_line_def header_block_def header_line_def)

lemma status_line_ok: "list_all value_char (status_line code)"
  using status_chars name_value_all [OF int_str_name] by (simp add: status_line_def value_char_def)

lemma reply_request_len:
  assumes "list_all good_header hs"
  shows "mg_http_get_request_len (reply_head_done code (header_block hs) n @ body)
     = int (length (reply_head_done code (header_block hs) n))"
proof -
  let ?ls = "status_line code # map (\<lambda>h. fst h @ '': '' @ snd h) hs @ [length_line n]"
  have hv: "list_all value_char (fst h @ '': '' @ snd h)" if "good_header h" for h
    using that name_value_all by (auto simp: good_header_def value_char_def)
  have "list_all (\<lambda>l. l \<noteq> [] \<and> list_all value_char l) (map (\<lambda>h. fst h @ '': '' @ snd h) hs)"
    using assms hv by (auto simp: list_all_iff)
  moreover have "status_line code \<noteq> []" by (simp add: status_line_def)
  moreover have "list_all value_char (length_line n)" "length_line n \<noteq> []"
    using pad10_value by (simp_all add: length_line_def value_char_def)
  ultimately have "list_all (\<lambda>l. l \<noteq> [] \<and> list_all value_char l) ?ls"
    using status_line_ok by simp
  then show ?thesis
    using request_len_lines [of ?ls "[]" body]
    by (simp only: mg_http_get_request_len_def head_lines append_assoc) simp
qed

lemma first_value_not_blank: "nat_str n \<noteq> [] \<and> \<not> is_blank (hd (nat_str n)) \<and> \<not> is_blank (last (nat_str n))"
proof -
  have d: "\<not> is_blank c" if "c \<in> set (nat_str n)" for c
    using nat_str_digits [of n] that by (auto simp: list_all_iff is_blank_def isdigit_def)
  then show ?thesis by (simp add: d)
qed

lemma parse_length_line:
  "parse_headers (Suc (Suc m)) (length_line n @ CRLF @ CRLF) = Some [(''Content-Length'', nat_str n)]"
proof -
  let ?b = "replicate (10 - length (nat_str n)) (CHR '' '') @ '' ''"
  have b: "list_all is_blank ?b" "list_all value_char ?b"
    by (auto simp: is_blank_def value_char_def list_all_iff)
  have k: "list_all name_char ''Content-Length''" by (simp add: name_char_def)
  have "length_line n @ CRLF @ CRLF = ''Content-Length'' @ '': '' @ nat_str n @ ?b @ CRLF @ CRLF"
    by (simp add: length_line_def pad10_def)
  then show ?thesis
    using parse_headers_line [OF _ k name_value_all [OF nat_str_name [of n]] _ _ _ b, of "Suc m" CRLF]
      first_value_not_blank [of n]
    by simp
qed

lemma get_header_append:
  "mg_http_get_header hs name = None \<Longrightarrow> list_all (\<lambda>h. fst h \<noteq> []) hs \<Longrightarrow>
   mg_http_get_header (hs @ hs') name = mg_http_get_header hs' name"
  by (induction hs name rule: mg_http_get_header.induct) (auto split: if_splits)

text \<open>The parts of a reply's head.\<close>

lemma status_text:
  "list_all value_char (mg_http_status_code_str code)"
  "mg_http_status_code_str code = [] \<or> hd (mg_http_status_code_str code) \<noteq> CHR '' ''"
  "length (mg_http_status_code_str code) < 100"
proof -
  show "list_all value_char (mg_http_status_code_str code)" by (rule status_chars)
  have "list_all (\<lambda>(k, v). hd v \<noteq> CHR '' '' \<and> length v < 100) status_table" by (simp add: status_table_def)
  then show "mg_http_status_code_str code = [] \<or> hd (mg_http_status_code_str code) \<noteq> CHR '' ''"
    "length (mg_http_status_code_str code) < 100"
    using map_of_SomeD [of status_table code]
    by (fastforce simp: mg_http_status_code_str_def list_all_iff split: option.splits)+
qed

lemma code_text:
  "int_str code \<noteq> []" "list_all name_char (int_str code)" "hd (int_str code) \<noteq> CHR '' ''"
  "CHR ''?'' \<notin> set (int_str code)" "cut_at (CHR ''?'') (int_str code) = int_str code"
proof -
  show n: "int_str code \<noteq> []" "list_all name_char (int_str code)" by (simp add: int_str_def) (rule int_str_name)
  then show "hd (int_str code) \<noteq> CHR '' ''" by (cases "int_str code") (auto simp: name_char_def)
  have "\<forall>c \<in> set (int_str code). isdigit c \<or> c = CHR ''-''"
    using nat_str_digits by (auto simp: int_str_def list_all_iff)
  then show "CHR ''?'' \<notin> set (int_str code)" by (auto simp: isdigit_def)
  then show "cut_at (CHR ''?'') (int_str code) = int_str code"
    by (auto simp: cut_at_def takeWhile_eq_all_conv)
qed

lemma reply_headers_parse:
  assumes "list_all good_header hs" "length hs \<le> 28"
  shows "parse_headers MG_MAX_HTTP_HEADERS (header_block hs @ length_line n @ CRLF @ CRLF)
    = Some (hs @ [(''Content-Length'', nat_str n)])"
proof -
  obtain k where k: "30 - length hs = Suc (Suc k)" using assms(2) that [of "28 - length hs"] by simp
  show ?thesis
    using parse_headers_block [OF assms(1), of 30 "length_line n @ CRLF @ CRLF"] assms(2) parse_length_line [of k n]
    by (simp add: MG_MAX_HTTP_HEADERS_def k)
qed

lemma reply_head_short:
  assumes "n < 10 ^ 10" "100 \<le> code" "code < 1000" "length (header_block hs) < 10 ^ 10"
  shows "length (reply_head_done code (header_block hs) n) + n < 2 ^ 64"
proof -
  have "length (int_str code) \<le> 3" using length_nat_str [of "nat code" 3] assms(2,3) by (simp add: int_str_def)
  moreover have "length (nat_str n) \<le> 10" using assms(1) by (intro length_nat_str) simp_all
  ultimately show ?thesis
    using assms(1,4) status_text(3) [of code] by (simp add: reply_head_done_def length_pad10)
qed

text \<open>C37: A reply written by \<open>mg_http_reply\<close>, with any well-formed header block of up to 28 headers
  that does not itself set Content-Length and any body below ten decimal digits of length, is
  read back by the library's own parser as one complete message: the head's length, the headers in
  order, and a Content-Length that is exactly the length of the body.\<close>

theorem http_reply_roundtrip:
  assumes "list_all good_header hs" "length hs \<le> 28" "length body < 10 ^ 10"
    and "mg_http_get_header hs ''Content-Length'' = None"
    and "100 \<le> code" "code < 1000" "length (header_block hs) < 10 ^ 10"
  shows "\<exists>head. http_reply_bytes code (header_block hs) body = head @ body
     \<and> mg_http_parse (head @ body) = (int (length head),
         Some \<lparr>hm_method = ''HTTP/1.1'', hm_uri = int_str code, hm_query = None,
           hm_proto = mg_http_status_code_str code,
           hm_headers = hs @ [(''Content-Length'', nat_str (length body))],
           hm_body_len = Some (length body)\<rparr>)"
proof -
  let ?n = "length body" and ?c = "int_str code"
  define head where "head = reply_head_done code (header_block hs) ?n"
  define st where "st = mg_http_status_code_str code"
  define tail where "tail = header_block hs @ length_line ?n @ CRLF @ CRLF"
  have head: "head = ''HTTP/1.1'' @ CHR '' '' # ?c @ CHR '' '' # st @ CRLF @ tail"
    by (simp add: head_def reply_head_done_def st_def tail_def length_line_def)
  have rl: "mg_http_get_request_len (head @ body) = int (length head)"
    unfolding head_def by (rule reply_request_len) (rule assms)
  have line: "0 < length head" "take_chars None head = (''HTTP/1.1'', CHR '' '' # ?c @ CHR '' '' # st @ CRLF @ tail)"
      "take_chars None (?c @ CHR '' '' # st @ CRLF @ tail) = (?c, CHR '' '' # st @ CRLF @ tail)"
    unfolding head by (simp, (rule take_chars_name; use code_text(2) in \<open>auto simp: name_char_def clen_def\<close>)+)
  have blanks: "dropWhile (\<lambda>c. c = CHR '' '') (CHR '' '' # ?c @ CHR '' '' # st @ CRLF @ tail) = ?c @ CHR '' '' # st @ CRLF @ tail"
      "dropWhile (\<lambda>c. c = CHR '' '') (CHR '' '' # st @ CRLF @ tail) = st @ CRLF @ tail"
    using code_text(1,3) [of code] status_text(2) [of code] by (cases ?c; cases st; simp add: st_def)+
  have sk: "skiptorn (st @ CRLF @ tail) = Some (st, tail)" unfolding st_def using status_text(1) by (rule skiptorn_line)
  have "list_all (\<lambda>h. fst h \<noteq> []) hs" using assms(1) by (auto simp: good_header_def list_all_iff)
  then have cl: "mg_http_get_header (hs @ [(''Content-Length'', nat_str ?n)]) ''Content-Length'' = Some (nat_str ?n)"
    using get_header_append [OF assms(4)] by (simp add: mg_ncasecmp_refl)
  have sz: "mg_to_size_t (nat_str ?n) = Some ?n" using assms(3) by (intro mg_to_size_t_nat_str) simp
  have ir: "mg_ncasecmp ''HTTP/1.1'' ''HTTP/'' 5 = 0" by code_simp
  have "length head + ?n < 2 ^ 64" unfolding head_def by (rule reply_head_short) (rule assms)+
  then have "mg_http_parse (head @ body) = (int (length head),
         Some \<lparr>hm_method = ''HTTP/1.1'', hm_uri = ?c, hm_query = None, hm_proto = st,
           hm_headers = hs @ [(''Content-Length'', nat_str ?n)], hm_body_len = Some ?n\<rparr>)"
    using rl line blanks sk code_text(1,2,4,5) [of code] reply_headers_parse [OF assms(1,2), of ?n, folded tail_def] cl sz ir
    by (simp add: mg_http_parse_def body_len_def mg_ncasecmp_refl Let_def)
  moreover have "http_reply_bytes code (header_block hs) body = head @ body"
    unfolding head_def by (rule reply_bytes_done) (rule assms)
  ultimately show ?thesis by (auto simp: st_def)
qed

text \<open>The header block of the server's JSON replies.\<close>

definition json_headers :: "header list" where
  "json_headers = [(''Access-Control-Allow-Origin'', ''*''), (''Content-Type'', ''application/json'')]"

lemma json_headers_good:
  "list_all good_header json_headers" "mg_http_get_header json_headers ''Content-Length'' = None"
  by (simp_all add: json_headers_def good_header_def name_char_def value_char_def is_blank_def)

theorem http_reply_roundtrip_witness:
  "\<exists>head. snd (mg_http_parse (head @ ''{}'')) =
     Some \<lparr>hm_method = ''HTTP/1.1'', hm_uri = ''404'', hm_query = None, hm_proto = ''Not Found'',
       hm_headers = json_headers @ [(''Content-Length'', ''2'')], hm_body_len = Some 2\<rparr>"
proof -
  have n: "nat_str 2 = ''2''" "int_str 404 = ''404''" "mg_http_status_code_str 404 = ''Not Found''"
    by code_simp+
  have "length (header_block json_headers) < 10 ^ 10" "length json_headers \<le> 28"
    by (simp_all add: json_headers_def header_block_def header_line_def)
  then obtain head where "mg_http_parse (head @ ''{}'') = (int (length head),
     Some \<lparr>hm_method = ''HTTP/1.1'', hm_uri = ''404'', hm_query = None, hm_proto = ''Not Found'',
       hm_headers = json_headers @ [(''Content-Length'', ''2'')], hm_body_len = Some 2\<rparr>)"
    using http_reply_roundtrip [OF json_headers_good(1) _ _ json_headers_good(2), of "''{}''" 404]
    by (auto simp: n numeral_2_eq_2 [symmetric])
  then show ?thesis by (intro exI [of _ head]) simp
qed

end
