(* ===== verification/MgWs.thy ===== *)
theory MgWs
  imports MgStr
begin

unbundle bit_operations_syntax

text \<open>
  The WebSocket framing of the embedded HTTP library (crates/mongoose/mongoose.c, src/ws.c): the
  header that precedes every message the server sends, the parser of the frames it receives, and
  the loop that joins fragments and hands whole messages to the program's event handler.

  Buffers are lists of bytes. The handler that the loop calls does not touch the receive buffer,
  so the loop is modelled as the list of what it does, in order (\<open>ws_action\<close>), and the rest of the
  buffer.
\<close>

section \<open>Frames\<close>

definition uchar :: "nat \<Rightarrow> char" where
  "uchar n = char_of n"

definition be16_bytes :: "nat \<Rightarrow> string" where
  "be16_bytes n = [uchar (n div 2 ^ 8), uchar n]"

definition be32_bytes :: "nat \<Rightarrow> string" where
  "be32_bytes n = [uchar (n div 2 ^ 24), uchar (n div 2 ^ 16), uchar (n div 2 ^ 8), uchar n]"

definition be32 :: "string \<Rightarrow> nat" where
  "be32 p = byte (p ! 0) * 2 ^ 24 + byte (p ! 1) * 2 ^ 16 + byte (p ! 2) * 2 ^ 8 + byte (p ! 3)"

datatype ws_op = OpContinue | OpText | OpBinary | OpClose | OpPing | OpPong | OpOther nat

definition op_code :: "ws_op \<Rightarrow> nat" where
  "op_code op = (case op of OpContinue \<Rightarrow> 0 | OpText \<Rightarrow> 1 | OpBinary \<Rightarrow> 2 | OpClose \<Rightarrow> 8
     | OpPing \<Rightarrow> 9 | OpPong \<Rightarrow> 10 | OpOther n \<Rightarrow> n)"

definition op_of :: "nat \<Rightarrow> ws_op" where
  "op_of n = (if n = 0 then OpContinue else if n = 1 then OpText else if n = 2 then OpBinary
     else if n = 8 then OpClose else if n = 9 then OpPing else if n = 10 then OpPong else OpOther n)"

text \<open>\<open>mkhdr\<close>; a client adds the mask, four random bytes.\<close>

definition mask_bit :: "string option \<Rightarrow> nat" where
  "mask_bit key = (case key of None \<Rightarrow> 0 | Some _ \<Rightarrow> 128)"

definition key_bytes :: "string option \<Rightarrow> string" where
  "key_bytes key = (case key of None \<Rightarrow> [] | Some k \<Rightarrow> k)"

definition mkhdr :: "nat \<Rightarrow> nat \<Rightarrow> string option \<Rightarrow> string" where
  "mkhdr len op key =
     (let m = mask_bit key;
          b0 = uchar (op OR 128);
          body = (if len < 126 then [b0, uchar (len OR m)]
                  else if len < 65536 then [b0, uchar (126 OR m)] @ be16_bytes len
                  else [b0, uchar (127 OR m)] @ be32_bytes (len div 2 ^ 32) @ be32_bytes (len mod 2 ^ 32))
      in body @ key_bytes key)"

definition xor_char :: "char \<Rightarrow> char \<Rightarrow> char" where
  "xor_char a b = uchar (byte a XOR byte b)"

text \<open>The mask of byte i is the byte i modulo 4 of the key.\<close>

definition apply_mask :: "string \<Rightarrow> string \<Rightarrow> string" where
  "apply_mask k p = map (\<lambda>i. xor_char (p ! i) (k ! (i mod 4))) [0..<length p]"

text \<open>\<open>mg_ws_send\<close>, and a frame as a client sends it.\<close>

definition ws_frame :: "nat \<Rightarrow> string \<Rightarrow> string" where
  "ws_frame op payload = mkhdr (length payload) op None @ payload"

definition client_frame :: "nat \<Rightarrow> string \<Rightarrow> string \<Rightarrow> string" where
  "client_frame op k payload = mkhdr (length payload) op (Some k) @ apply_mask k payload"

record ws_msg =
  wm_flags :: nat
  wm_header_len :: nat
  wm_data_len :: nat

definition ws_header :: "string \<Rightarrow> nat \<times> ws_msg" where
  "ws_header buf =
     (let len = length buf in
      if len < 2 then (0, \<lparr>wm_flags = 0, wm_header_len = 0, wm_data_len = 0\<rparr>)
      else
        (let n = byte (buf ! 1) AND 127; mask_len = (if byte (buf ! 1) AND 128 \<noteq> 0 then 4 else 0);
             flags = byte (buf ! 0)
         in if n < 126 \<and> mask_len \<le> len then
              (mask_len, \<lparr>wm_flags = flags, wm_header_len = 2 + mask_len, wm_data_len = n\<rparr>)
            else if n = 126 \<and> 4 + mask_len \<le> len then
              (mask_len, \<lparr>wm_flags = flags, wm_header_len = 4 + mask_len,
                 wm_data_len = byte (buf ! 2) * 2 ^ 8 + byte (buf ! 3)\<rparr>)
            else if 10 + mask_len \<le> len then
              (mask_len, \<lparr>wm_flags = flags, wm_header_len = 10 + mask_len,
                 wm_data_len = be32 (drop 2 buf) * 2 ^ 32 + be32 (drop 6 buf)\<rparr>)
            else (mask_len, \<lparr>wm_flags = flags, wm_header_len = 0, wm_data_len = 0\<rparr>)))"

text \<open>
  \<open>ws_process\<close>: the header, and for a frame that is complete its payload (unmasked in place) and
  what follows the frame.
\<close>

definition ws_process :: "string \<Rightarrow> (ws_msg \<times> string \<times> string) option" where
  "ws_process buf =
     (case ws_header buf of (mask_len, m) \<Rightarrow>
        (let h = wm_header_len m; d = wm_data_len m in
         if 1024 * 1024 * 1024 < d then None
         else if length buf < h + d then None
         else if h + d = 0 then None
         else
           (let p = take d (drop h buf)
            in Some (m, if 0 < mask_len then apply_mask (take 4 (drop (h - mask_len) buf)) p else p,
                 drop (h + d) buf))))"

section \<open>The receive loop\<close>

datatype ws_action =
    WsMsg nat string
  | WsCtl nat string
  | WsSend nat string
  | WsDrain
  | WsError

lemma ws_process_shorter: "ws_process buf = Some (m, p, r) \<Longrightarrow> length r < length buf"
  by (auto simp: ws_process_def Let_def split: prod.splits if_splits)

text \<open>
  What the \<open>switch\<close> of \<open>mg_ws_cb\<close> does for one frame. A close frame is echoed and the
  connection drained; an unknown code closes it.
\<close>

definition frame_actions :: "nat \<Rightarrow> string \<Rightarrow> ws_action list" where
  "frame_actions flags p =
     (let final = flags AND 128 \<noteq> 0 in
      case op_of (flags AND 15) of
        OpContinue \<Rightarrow> [WsCtl flags p]
      | OpPing \<Rightarrow> [WsSend 10 p, WsCtl flags p]
      | OpPong \<Rightarrow> [WsCtl flags p]
      | OpText \<Rightarrow> if final then [WsMsg flags p] else []
      | OpBinary \<Rightarrow> if final then [WsMsg flags p] else []
      | OpClose \<Rightarrow> [WsCtl flags p, WsSend 8 p, WsDrain]
      | OpOther n \<Rightarrow> [WsError])"

text \<open>
  The loop. \<open>acc\<close> is the part of the receive buffer before \<open>ofs\<close>: the flags byte of the first
  fragment and the payloads kept so far. The result: the actions, \<open>acc\<close> and the unread rest.
\<close>

function mg_ws_cb :: "string \<Rightarrow> string \<Rightarrow> ws_action list \<times> string \<times> string" where
  "mg_ws_cb acc buf =
     (case ws_process buf of
        None \<Rightarrow> ([], acc, buf)
      | Some (m, p, r) \<Rightarrow>
          (let flags = wm_flags m; final = flags AND 128 \<noteq> 0; op = flags AND 15;
               acc1 = (if \<not> final \<or> op = 0
                       then acc @ (if op \<noteq> 0 then [hd buf] else []) @ p else acc);
               whole = final \<and> op = 0 \<and> acc1 \<noteq> [];
               joined = (if whole then [WsMsg (byte (hd acc1)) (tl acc1)] else []);
               acc2 = (if whole then [] else acc1)
           in case mg_ws_cb acc2 r of (as, a, b) \<Rightarrow> (frame_actions flags p @ joined @ as, a, b)))"
  by pat_completeness auto
termination
  by (relation "measure (\<lambda>(acc, buf). length buf)") (auto dest: ws_process_shorter)

declare mg_ws_cb.simps [simp del]

section \<open>Frames decode to what was sent\<close>

lemma byte_uchar [simp]: "byte (uchar n) = n mod 256"
  by (simp add: uchar_def)

lemma byte_xor_lt: "byte a XOR byte b < 256"
proof -
  have "take_bit 8 (byte c) = byte c" for c
    using byte_lt [of c] by (simp add: take_bit_nat_eq_self)
  then have "take_bit 8 (byte a XOR byte b) = byte a XOR byte b" by simp
  then show ?thesis using take_bit_nat_less_exp [of 8 "byte a XOR byte b"] by simp
qed

lemma xor_char_twice [simp]: "xor_char (xor_char a b) b = a"
proof -
  have "byte (xor_char (xor_char a b) b) = byte a"
    using byte_xor_lt [of a b] by (simp add: xor_char_def xor.assoc)
  then show ?thesis by (metis char_of_char uchar_def)
qed

lemma length_apply_mask [simp]: "length (apply_mask k p) = length p"
  by (simp add: apply_mask_def)

lemma apply_mask_twice [simp]: "apply_mask k (apply_mask k p) = p"
  by (rule nth_equalityI) (simp_all add: apply_mask_def)

text \<open>Bytes, numbers and the mask bit.\<close>

lemma be32_of_bytes: "be32 (be32_bytes n @ r) = n mod 2 ^ 32"
proof -
  have "n mod (2 ^ 8 * 2 ^ 24) = 2 ^ 8 * (n div 2 ^ 8 mod (2 ^ 8 * 2 ^ 16)) + n mod 2 ^ 8"
    by (subst mod_mult2_eq) simp
  also have "n div 2 ^ 8 mod (2 ^ 8 * 2 ^ 16)
      = 2 ^ 8 * (n div 2 ^ 16 mod (2 ^ 8 * 2 ^ 8)) + n div 2 ^ 8 mod 2 ^ 8"
    by (subst mod_mult2_eq) (simp add: div_mult2_eq [symmetric])
  also have "n div 2 ^ 16 mod (2 ^ 8 * 2 ^ 8) = 2 ^ 8 * (n div 2 ^ 24 mod 2 ^ 8) + n div 2 ^ 16 mod 2 ^ 8"
    by (subst mod_mult2_eq) (simp add: div_mult2_eq [symmetric])
  finally show ?thesis by (simp add: be32_def be32_bytes_def)
qed

lemma len_bits:
  assumes "n < 128"
  shows "(n OR 128) AND 127 = n" "(n OR 128) AND 128 \<noteq> (0::nat)"
    "n AND 127 = n" "n AND 128 = (0::nat)" "n OR 128 < (256::nat)" "n OR 0 = n"
proof -
  have m7: "mask 7 = (127::nat)" by (simp add: mask_eq_exp_minus_1)
  have e7: "(128::nat) = 2 ^ 7" by simp
  have t: "take_bit 7 n = n" using assms by (simp add: take_bit_nat_eq_self)
  then have b7: "\<not> bit n 7" by (metis bit_take_bit_iff less_irrefl)
  have "take_bit 7 (128::nat) = 0" by (simp add: take_bit_eq_mod)
  then have "take_bit 7 (n OR 128) = n" by (simp add: t)
  then show "(n OR 128) AND 127 = n" by (simp add: take_bit_eq_mask m7)
  have "bit ((n OR 128) AND 128) 7" by (simp only: e7 bit_and_iff bit_or_iff bit_exp_iff) simp
  then show "(n OR 128) AND 128 \<noteq> (0::nat)" by (metis bit_0_eq bot_apply bot_bool_def)
  show "n AND 127 = n" by (simp add: m7 [symmetric] take_bit_eq_mask [symmetric] t)
  show "n AND 128 = (0::nat)"
    by (rule bit_eqI) (use b7 in \<open>auto simp: bit_and_iff e7 bit_exp_iff simp del: power_numeral\<close>)
  have "take_bit 8 n = n" using assms by (simp add: take_bit_nat_eq_self)
  then have "take_bit 8 (n OR 128) = n OR 128" by simp
  then show "n OR 128 < (256::nat)" using take_bit_nat_less_exp [of 8 "n OR 128"] by simp
  show "n OR 0 = n" by simp
qed

definition hdr_len :: "nat \<Rightarrow> nat" where
  "hdr_len n = (if n < 126 then 2 else if n < 65536 then 4 else 10)"

lemma length_mkhdr: "length (mkhdr n op key) = hdr_len n + length (key_bytes key)"
  by (auto simp: mkhdr_def Let_def hdr_len_def be16_bytes_def be32_bytes_def split: option.splits)

lemma flags_byte:
  assumes "op < (16::nat)"
  shows "(op OR 128) mod 256 = op OR 128"
  using len_bits(5) [of op] assms by simp

text \<open>What the parser reads from a header that \<open>mkhdr\<close> wrote.\<close>

lemma ws_header_mkhdr:
  assumes n: "n < 2 ^ 64" and op: "op < 16" and key: "key = None \<or> length (key_bytes key) = 4"
  shows "ws_header (mkhdr n op key @ r) =
    (length (key_bytes key),
     \<lparr>wm_flags = op OR 128, wm_header_len = length (mkhdr n op key), wm_data_len = n\<rparr>)"
proof -
  let ?m = "mask_bit key" and ?k = "key_bytes key"
  have bits: "(l OR ?m) mod 256 AND 127 = l" "((l OR ?m) mod 256 AND 128 \<noteq> 0) = (key \<noteq> None)"
    if "l < 128" for l
    using len_bits [OF that] that by (auto simp: mask_bit_def split: option.splits)
  have mlif: "(if key \<noteq> None then 4 else 0) = length ?k"
    using key by (auto simp: key_bytes_def)
  have f: "(op OR 128) mod 256 = op OR 128" using op by (rule flags_byte)
  consider "n < 126" | "126 \<le> n" "n < 65536" | "65536 \<le> n" by linarith
  then show ?thesis
  proof cases
    case 1
    then have "mkhdr n op key = [uchar (op OR 128), uchar (n OR ?m)] @ ?k"
      by (simp add: mkhdr_def)
    then show ?thesis using 1 bits [of n] f mlif by (simp add: ws_header_def Let_def)
  next
    case 2
    then have h: "mkhdr n op key = [uchar (op OR 128), uchar (126 OR ?m), uchar (n div 2 ^ 8), uchar n] @ ?k"
      by (simp add: mkhdr_def be16_bytes_def)
    have "n div 256 < 256" using 2 by (simp add: less_mult_imp_div_less)
    then have "n div 256 mod 256 * 256 + n mod 256 = n" by simp
    with 2 h bits [of 126] f mlif show ?thesis by (simp add: ws_header_def Let_def)
  next
    case 3
    let ?a = "be32_bytes (n div 2 ^ 32)" and ?b = "be32_bytes (n mod 2 ^ 32)"
    have h: "mkhdr n op key = [uchar (op OR 128), uchar (127 OR ?m)] @ ?a @ ?b @ ?k"
      using 3 by (simp add: mkhdr_def)
    have la: "length ?a = 4" "length ?b = 4" by (simp_all add: be32_bytes_def)
    have d: "drop 2 (mkhdr n op key @ r) = ?a @ (?b @ ?k @ r)"
      "drop 6 (mkhdr n op key @ r) = ?b @ (?k @ r)"
      using la by (simp_all add: h)
    have "n div 2 ^ 32 < 2 ^ 32" using n by (simp add: less_mult_imp_div_less)
    then have "be32 (?a @ (?b @ ?k @ r)) * 2 ^ 32 + be32 (?b @ (?k @ r)) = n"
      by (simp only: be32_of_bytes) simp
    moreover have "byte ((mkhdr n op key @ r) ! 1) = (127 OR ?m) mod 256"
      "byte ((mkhdr n op key @ r) ! 0) = op OR 128" "length (mkhdr n op key) = 10 + length ?k"
      using f la by (simp_all add: h)
    ultimately show ?thesis
      using bits [of 127] mlif by (simp only: ws_header_def d) (simp add: Let_def)
  qed
qed

text \<open>A frame with its first byte (the final bit and the code) replaced.\<close>

definition frame_with :: "nat \<Rightarrow> string option \<Rightarrow> string \<Rightarrow> string" where
  "frame_with flags key p =
     uchar flags # tl (mkhdr (length p) 0 key) @ (case key of None \<Rightarrow> p | Some k \<Rightarrow> apply_mask k p)"

lemma mkhdr_Cons: "mkhdr n op key = uchar (op OR 128) # tl (mkhdr n 0 key)"
  by (simp add: mkhdr_def Let_def)

lemma ws_frame_with: "op < 16 \<Longrightarrow> ws_frame op p = frame_with (op OR 128) None p"
  using mkhdr_Cons [of "length p" op None] by (simp add: ws_frame_def frame_with_def)

lemma client_frame_with: "op < 16 \<Longrightarrow> client_frame op k p = frame_with (op OR 128) (Some k) p"
  using mkhdr_Cons [of "length p" op "Some k"] by (simp add: client_frame_def frame_with_def)

lemma ws_header_flags:
  "s \<noteq> [] \<Longrightarrow> ws_header (c # s) = (case ws_header (d # s) of (ml, m) \<Rightarrow> (ml, m\<lparr>wm_flags := byte c\<rparr>))"
  by (cases s) (simp_all add: ws_header_def Let_def)

lemma apply_mask_key: "take 4 k = k \<Longrightarrow> length k = 4 \<Longrightarrow> apply_mask (take 4 (k @ r)) p = apply_mask k p"
  by simp

lemma ws_process_frame:
  assumes n: "length p \<le> 1024 * 1024 * 1024" and key: "key = None \<or> length (key_bytes key) = 4"
    and f: "flags < 256"
  shows "\<exists>h. ws_process (frame_with flags key p @ r) =
     Some (\<lparr>wm_flags = flags, wm_header_len = h, wm_data_len = length p\<rparr>, p, r)"
proof -
  let ?h = "mkhdr (length p) 0 key" and ?q = "case key of None \<Rightarrow> p | Some k \<Rightarrow> apply_mask k p"
  have q: "length ?q = length p" by (simp split: option.splits)
  have hl: "length ?h = hdr_len (length p) + length (key_bytes key)" by (rule length_mkhdr)
  then have h2: "2 \<le> length ?h" by (simp add: hdr_len_def)
  have dec: "?h = uchar (0 OR 128) # tl ?h" by (rule mkhdr_Cons)
  have "ws_header (?h @ ?q @ r) = (length (key_bytes key),
      \<lparr>wm_flags = 0 OR 128, wm_header_len = length ?h, wm_data_len = length p\<rparr>)"
    using n key by (intro ws_header_mkhdr) simp_all
  moreover have "?h @ ?q @ r = uchar (0 OR 128) # (tl ?h @ ?q @ r)"
    using dec by (metis append_Cons)
  moreover have "tl ?h @ ?q @ r \<noteq> []" using h2 by (cases ?h) auto
  ultimately have hd: "ws_header (frame_with flags key p @ r) = (length (key_bytes key),
      \<lparr>wm_flags = flags, wm_header_len = length ?h, wm_data_len = length p\<rparr>)"
    using ws_header_flags [of "tl ?h @ ?q @ r" "uchar flags" "uchar (0 OR 128)"] f
    by (simp add: frame_with_def)
  have body: "frame_with flags key p @ r = (uchar flags # tl ?h) @ ?q @ r"
    by (simp add: frame_with_def)
  have lh: "length (uchar flags # tl ?h) = length ?h" using h2 by simp
  have dh: "drop (length ?h) (frame_with flags key p @ r) = ?q @ r"
    by (simp only: body) (metis append_eq_conv_conj lh)
  have tq: "take (length p) (?q @ r) = ?q" "drop (length p) (?q @ r) = r" using q by simp_all
  have dr: "drop (length ?h + length p) (frame_with flags key p @ r) = r"
    using dh tq by (metis add.commute drop_drop)
  have lb: "length (frame_with flags key p @ r) = length ?h + length p + length r"
    using lh q by (simp add: frame_with_def)
  have pay: "(if 0 < length (key_bytes key)
       then apply_mask (take 4 (drop (length ?h - length (key_bytes key)) (frame_with flags key p @ r))) ?q
       else ?q) = p"
  proof (cases key)
    case None
    then show ?thesis by (simp add: key_bytes_def)
  next
    case (Some k)
    then have k: "length k = 4" using key by (simp add: key_bytes_def)
    obtain b where b: "?h = b @ k" "length b = hdr_len (length p)"
      using hl Some by (auto simp: mkhdr_def Let_def key_bytes_def hdr_len_def)
    have "b \<noteq> []" using b(2) by (auto simp: hdr_len_def split: if_splits)
    then have "frame_with flags key p @ r = (uchar flags # tl b) @ k @ ?q @ r"
      by (simp add: frame_with_def b(1))
    moreover have "length ?h - length (key_bytes key) = length (uchar flags # tl b)"
      using b \<open>b \<noteq> []\<close> Some by (cases b) (simp_all add: key_bytes_def)
    ultimately have "drop (length ?h - length (key_bytes key)) (frame_with flags key p @ r) = k @ ?q @ r"
      by (metis append_eq_conv_conj)
    then show ?thesis using Some k by (simp add: key_bytes_def)
  qed
  define F where "F = frame_with flags key p @ r"
  have "\<not> length F < length ?h + length p" unfolding F_def lb by simp
  moreover have "length ?h + length p \<noteq> 0" using h2 by linarith
  ultimately have "ws_process F = Some (\<lparr>wm_flags = flags, wm_header_len = length ?h, wm_data_len = length p\<rparr>, p, r)"
    using n hd dh dr tq pay
    unfolding ws_process_def F_def [symmetric] by (simp add: Let_def split: if_split_asm)
  then show ?thesis unfolding F_def by blast
qed

text \<open>One turn of the loop on a frame.\<close>

lemma mg_ws_cb_frame:
  assumes "length p \<le> 1024 * 1024 * 1024" "key = None \<or> length (key_bytes key) = 4" "flags < 256"
  shows "mg_ws_cb acc (frame_with flags key p @ r) =
     (let final = flags AND 128 \<noteq> 0; op = flags AND 15;
          acc1 = (if \<not> final \<or> op = 0
                  then acc @ (if op \<noteq> 0 then [uchar flags] else []) @ p else acc);
          whole = final \<and> op = 0 \<and> acc1 \<noteq> [];
          joined = (if whole then [WsMsg (byte (hd acc1)) (tl acc1)] else []);
          acc2 = (if whole then [] else acc1)
      in case mg_ws_cb acc2 r of (as, a, b) \<Rightarrow> (frame_actions flags p @ joined @ as, a, b))"
proof -
  obtain h where "ws_process (frame_with flags key p @ r) =
     Some (\<lparr>wm_flags = flags, wm_header_len = h, wm_data_len = length p\<rparr>, p, r)"
    using ws_process_frame [OF assms] by blast
  moreover have "hd (frame_with flags key p @ r) = uchar flags" by (simp add: frame_with_def)
  ultimately show ?thesis by (subst mg_ws_cb.simps) (simp add: Let_def)
qed

lemma mg_ws_cb_Nil: "mg_ws_cb acc [] = ([], acc, [])"
  by (subst mg_ws_cb.simps) (simp add: ws_process_def ws_header_def)

text \<open>The frames of one message sent in several parts.\<close>

definition fragments :: "(string \<times> string) list \<Rightarrow> string" where
  "fragments mids = concat (map (\<lambda>(k, p). frame_with 0 (Some k) p) mids)"

definition good_part :: "string \<times> string \<Rightarrow> bool" where
  "good_part kp \<longleftrightarrow> length (fst kp) = 4 \<and> length (snd kp) \<le> 1024 * 1024 * 1024"

definition messages :: "ws_action list \<Rightarrow> (nat \<times> string) list" where
  "messages as = List.map_filter (\<lambda>a. case a of WsMsg f p \<Rightarrow> Some (f, p) | _ \<Rightarrow> None) as"

lemma messages_simps [simp]:
  "messages [] = []"
  "messages (WsMsg f p # as) = (f, p) # messages as"
  "messages (WsCtl f p # as) = messages as"
  "messages (WsSend n p # as) = messages as"
  "messages (WsDrain # as) = messages as"
  "messages (WsError # as) = messages as"
  by (simp_all add: messages_def List.map_filter_simps)

lemma messages_append [simp]: "messages (as @ bs) = messages as @ messages bs"
  by (simp add: messages_def List.map_filter_def)

lemma middle_fragments:
  assumes "list_all good_part mids" "acc \<noteq> []"
  shows "\<exists>as. messages as = [] \<and> mg_ws_cb acc (fragments mids @ r) =
     (case mg_ws_cb (acc @ concat (map snd mids)) r of (bs, a, b) \<Rightarrow> (as @ bs, a, b))"
  using assms
proof (induction mids arbitrary: acc)
  case Nil
  then show ?case by (intro exI [of _ "[]"]) (simp add: fragments_def split: prod.splits)
next
  case (Cons kp mids)
  obtain k p where kp: "kp = (k, p)" by (cases kp)
  have g: "length p \<le> 1024 * 1024 * 1024" "Some k = None \<or> length (key_bytes (Some k)) = 4"
    using Cons.prems kp by (simp_all add: good_part_def key_bytes_def)
  obtain as where as: "messages as = []" "mg_ws_cb (acc @ p) (fragments mids @ r) =
     (case mg_ws_cb ((acc @ p) @ concat (map snd mids)) r of (bs, a, b) \<Rightarrow> (as @ bs, a, b))"
    using Cons.IH [of "acc @ p"] Cons.prems by auto
  have "fragments (kp # mids) @ r = frame_with 0 (Some k) p @ (fragments mids @ r)"
    by (simp add: fragments_def kp)
  then have "mg_ws_cb acc (fragments (kp # mids) @ r) =
      (case mg_ws_cb (acc @ p) (fragments mids @ r) of (bs, a, b) \<Rightarrow> (frame_actions 0 p @ bs, a, b))"
    using mg_ws_cb_frame [OF g, of 0 acc "fragments mids @ r"] by (simp add: Let_def)
  moreover have "messages (frame_actions 0 p) = []" by (simp add: frame_actions_def op_of_def)
  ultimately show ?case
    using as kp by (intro exI [of _ "frame_actions 0 p @ as"]) (simp split: prod.splits)
qed

text \<open>C35: What one side sends the other receives. A message that \<open>mg_ws_send\<close> frames, and one
  that a client frames with any mask, is recovered by \<open>ws_process\<close> with its opcode, its payload
  unmasked and the bytes that follow it untouched, in all three length encodings up to the limit
  of one gigabyte that the parser sets.\<close>

theorem ws_frame_roundtrip:
  assumes "length p \<le> 1024 * 1024 * 1024" "op < 16" "length k = 4"
  shows "(\<exists>h. ws_process (ws_frame op p @ r) =
           Some (\<lparr>wm_flags = op OR 128, wm_header_len = h, wm_data_len = length p\<rparr>, p, r))
       \<and> (\<exists>h. ws_process (client_frame op k p @ r) =
           Some (\<lparr>wm_flags = op OR 128, wm_header_len = h, wm_data_len = length p\<rparr>, p, r))"
proof -
  have f: "op OR 128 < 256" using len_bits(5) [of op] assms by simp
  show ?thesis
    using ws_process_frame [OF assms(1) _ f, of None r] ws_process_frame [OF assms(1) _ f, of "Some k" r]
      assms ws_frame_with [OF assms(2)] client_frame_with [OF assms(2)]
    by (simp add: key_bytes_def)
qed

theorem ws_frame_roundtrip_witness:
  "\<exists>h. ws_process (client_frame 1 ''abcd'' ''ping'' @ ''x'') =
     Some (\<lparr>wm_flags = 129, wm_header_len = h, wm_data_len = 4\<rparr>, ''ping'', ''x'')"
proof -
  have "(1::nat) OR 128 = 129" by simp
  then show ?thesis using ws_frame_roundtrip [of "''ping''" 1 "''abcd''" "''x''"] by auto
qed

text \<open>C36: A text or binary message that a client sends in any number of fragments, each with its
  own mask, reaches the program as exactly one message: the payloads joined in order, with the
  opcode of the first fragment; nothing of it stays behind in the receive buffer.\<close>

theorem ws_fragments_joined:
  assumes "list_all good_part ((k0, p0) # mids @ [(kn, pn)])" "op = 1 \<or> op = 2"
  shows "\<exists>as. mg_ws_cb [] (frame_with op (Some k0) p0 @ fragments mids @ frame_with 128 (Some kn) pn)
       = (as, [], [])
     \<and> messages as = [(op, p0 @ concat (map snd mids) @ pn)]"
proof -
  have g: "length p0 \<le> 1024 * 1024 * 1024" "Some k0 = None \<or> length (key_bytes (Some k0)) = 4"
    "length pn \<le> 1024 * 1024 * 1024" "Some kn = None \<or> length (key_bytes (Some kn)) = 4"
    using assms(1) by (simp_all add: good_part_def key_bytes_def)
  let ?acc = "uchar op # p0" and ?last = "frame_with 128 (Some kn) pn"
  have op: "op AND 128 = 0" "op AND 15 = op" "op < 256" "op \<noteq> 0" using assms(2) by auto
  have first: "mg_ws_cb [] (frame_with op (Some k0) p0 @ fragments mids @ ?last) =
     (case mg_ws_cb ?acc (fragments mids @ ?last) of (bs, a, b) \<Rightarrow> (frame_actions op p0 @ bs, a, b))"
    using mg_ws_cb_frame [OF g(1,2) op(3), of "[]" "fragments mids @ ?last"] op by (simp add: Let_def)
  obtain as where as: "messages as = []" "mg_ws_cb ?acc (fragments mids @ ?last) =
     (case mg_ws_cb (?acc @ concat (map snd mids)) ?last of (bs, a, b) \<Rightarrow> (as @ bs, a, b))"
    using middle_fragments [of mids ?acc ?last] assms(1) by auto
  have "mg_ws_cb (?acc @ concat (map snd mids)) (?last @ []) =
     (frame_actions 128 pn @ [WsMsg op (p0 @ concat (map snd mids) @ pn)], [], [])"
    using mg_ws_cb_frame [OF g(3,4), of 128 "?acc @ concat (map snd mids)" "[]"] op
    by (simp add: Let_def mg_ws_cb_Nil)
  with first as have "mg_ws_cb [] (frame_with op (Some k0) p0 @ fragments mids @ ?last) =
     (frame_actions op p0 @ as @ frame_actions 128 pn @ [WsMsg op (p0 @ concat (map snd mids) @ pn)], [], [])"
    by simp
  moreover have "messages (frame_actions op p0) = []" "messages (frame_actions 128 pn) = []"
    using op assms(2) by (auto simp: frame_actions_def op_of_def)
  ultimately show ?thesis using as(1) by auto
qed

theorem ws_fragments_joined_witness:
  "\<exists>as. mg_ws_cb [] (frame_with 1 (Some ''abcd'') ''{\"cmd\":'' @ fragments [(''wxyz'', [])]
       @ frame_with 128 (Some ''1234'') ''\"status\"}'') = (as, [], [])
     \<and> messages as = [(1, ''{\"cmd\":\"status\"}'')]"
  using ws_fragments_joined [of "''abcd''" "''{\"cmd\":''" "[(''wxyz'', [])]" "''1234''" "''\"status\"}''" 1]
  by (simp add: good_part_def)

end
