(* ===== verification/MgCrypto.thy ===== *)
theory MgCrypto
  imports MgStr
begin

unbundle bit_operations_syntax

text \<open>
  Base64 and SHA-1 of the embedded HTTP library (crates/mongoose/mongoose.c, src/base64.c and
  src/sha1.c), which the WebSocket handshake uses to compute the accept key. Bytes are \<open>char\<close>;
  SHA-1 works on 32-bit words that wrap. The lemmas: decoding undoes encoding for all inputs, and
  the length of what is written.
\<close>

section \<open>Base64\<close>

definition base64_encode_single :: "nat \<Rightarrow> char" where
  "base64_encode_single c =
     (if c < 26 then char_of (c + 65)
      else if c < 52 then char_of (c - 26 + 97)
      else if c < 62 then char_of (c - 52 + 48)
      else if c = 62 then CHR ''+'' else CHR ''/'')"

text \<open>64 stands for the padding character; \<open>None\<close> is the result -1.\<close>

definition base64_decode_single :: "char \<Rightarrow> nat option" where
  "base64_decode_single ch =
     (let c = byte ch in
      if isupper ch then Some (c - 65)
      else if islower ch then Some (c + 26 - 97)
      else if isdigit ch then Some (c + 52 - 48)
      else if ch = CHR ''+'' then Some 62
      else if ch = CHR ''/'' then Some 63
      else if ch = CHR ''='' then Some 64
      else None)"

text \<open>
  The encoder's buffer: the characters written so far (their number is the code's \<open>n\<close>) and the
  bits kept for the next character, which the code stores in \<open>to[n]\<close>.
\<close>

type_synonym b64 = "string \<times> nat"

definition mg_base64_update :: "nat \<Rightarrow> b64 \<Rightarrow> b64" where
  "mg_base64_update ch buf =
     (case buf of (to, pend) \<Rightarrow>
        (let rem = (length to mod 4) mod 3
         in if rem = 0 then (to @ [base64_encode_single (ch div 4)], (ch mod 4) * 16)
            else if rem = 1 then (to @ [base64_encode_single (pend OR (ch div 16))], (ch mod 16) * 4)
            else (to @ [base64_encode_single (pend OR (ch div 64)), base64_encode_single (ch mod 64)], 0)))"

definition mg_base64_final :: "b64 \<Rightarrow> string" where
  "mg_base64_final buf =
     (let saved = length (fst buf);
          to = (if saved mod 4 \<noteq> 0 then fst (mg_base64_update 0 buf) else fst buf);
          to' = (if saved mod 4 = 2 then butlast to else to)
      in to' @ replicate ((4 - length to' mod 4) mod 4) (CHR ''=''))"

definition mg_base64_encode :: "string \<Rightarrow> nat \<Rightarrow> string option" where
  "mg_base64_encode p dl =
     (let n = length p in
      if dl < (n div 3 + (if n mod 3 \<noteq> 0 then 1 else 0)) * 4 + 1 then None
      else Some (mg_base64_final (fold (\<lambda>c. mg_base64_update (byte c)) p ([], 0))))"

fun base64_decode_loop :: "string \<Rightarrow> string option" where
  "base64_decode_loop (s0 # s1 # s2 # s3 # r) =
     (case (base64_decode_single s0, base64_decode_single s1, base64_decode_single s2,
            base64_decode_single s3) of
        (Some a, Some b, Some c, Some d) \<Rightarrow>
          if a = 64 \<or> b = 64 then None
          else
            (let o1 = [char_of (a * 4 OR b div 16)];
                 o2 = (if s2 \<noteq> CHR ''='' then [char_of (b * 16 OR c div 4)] else []);
                 o3 = (if s2 \<noteq> CHR ''='' \<and> s3 \<noteq> CHR ''='' then [char_of (c * 64 OR d)] else [])
             in map_option (\<lambda>t. o1 @ o2 @ o3 @ t) (base64_decode_loop r))
      | _ \<Rightarrow> None)"
| "base64_decode_loop s = Some []"

definition mg_base64_decode :: "string \<Rightarrow> nat \<Rightarrow> string option" where
  "mg_base64_decode src dl =
     (if dl < length src div 4 * 3 + 1 then None else base64_decode_loop src)"

section \<open>SHA-1\<close>

definition rol :: "u32 \<Rightarrow> nat \<Rightarrow> u32" where
  "rol v bits = (push_bit bits v OR drop_bit (32 - bits) v)"

text \<open>\<open>blk0\<close> reads a word of the block in big-endian order; \<open>blk\<close> extends the schedule in place.\<close>

definition be_word :: "string \<Rightarrow> nat \<Rightarrow> u32" where
  "be_word bs i = of_nat (byte (bs ! (4 * i)) * 2 ^ 24 + byte (bs ! (4 * i + 1)) * 2 ^ 16
     + byte (bs ! (4 * i + 2)) * 2 ^ 8 + byte (bs ! (4 * i + 3)))"

definition blk :: "u32 list \<Rightarrow> nat \<Rightarrow> u32" where
  "blk l i = rol (l ! ((i + 13) mod 16) XOR l ! ((i + 8) mod 16) XOR l ! ((i + 2) mod 16) XOR l ! (i mod 16)) 1"

text \<open>One of the eighty rounds; the rotation of the variables' names is a rotation of the tuple.\<close>

type_synonym sha1_vars = "u32 \<times> u32 \<times> u32 \<times> u32 \<times> u32"

definition sha1_round :: "nat \<Rightarrow> sha1_vars \<times> u32 list \<Rightarrow> sha1_vars \<times> u32 list" where
  "sha1_round i s =
     (case s of ((v, w, x, y, z), l) \<Rightarrow>
        (let l' = (if i < 16 then l else l[i mod 16 := blk l i]);
             b = l' ! (i mod 16);
             fk = (if i < 20 then (((w AND (x XOR y)) XOR y), 0x5A827999)
                   else if i < 40 then (w XOR x XOR y, 0x6ED9EBA1)
                   else if i < 60 then ((((w OR x) AND y) OR (w AND x)), 0x8F1BBCDC)
                   else (w XOR x XOR y, 0xCA62C1D6))
         in ((z + (fst fk + b + snd fk + rol v 5), v, rol w 30, x, y), l')))"

definition mg_sha1_transform :: "sha1_vars \<Rightarrow> string \<Rightarrow> sha1_vars" where
  "mg_sha1_transform st buffer =
     (let l = map (be_word buffer) [0..<16] in
      case (st, fold sha1_round [0..<80] (st, l)) of
        ((s0, s1, s2, s3, s4), ((a, b, c, d, e), _)) \<Rightarrow> (s0 + a, s1 + b, s2 + c, s3 + d, s4 + e))"

record sha1_ctx =
  sha_state :: sha1_vars
  sha_count0 :: u32
  sha_count1 :: u32
  sha_buffer :: string    \<comment> \<open>the bytes not yet transformed, fewer than 64\<close>

definition mg_sha1_init :: sha1_ctx where
  "mg_sha1_init = \<lparr>sha_state = (0x67452301, 0xEFCDAB89, 0x98BADCFE, 0x10325476, 0xC3D2E1F0),
     sha_count0 = 0, sha_count1 = 0, sha_buffer = []\<rparr>"

text \<open>Whole blocks of the data are transformed, the rest stays in the buffer.\<close>

function sha1_blocks :: "sha1_vars \<Rightarrow> string \<Rightarrow> sha1_vars \<times> string" where
  "sha1_blocks st data =
     (if length data < 64 then (st, data)
      else sha1_blocks (mg_sha1_transform st (take 64 data)) (drop 64 data))"
  by pat_completeness auto
termination
  by (relation "measure (\<lambda>(st, data). length data)") auto

declare sha1_blocks.simps [simp del]

definition mg_sha1_update :: "sha1_ctx \<Rightarrow> string \<Rightarrow> sha1_ctx" where
  "mg_sha1_update ctx data =
     (let len = length data; j = sha_count0 ctx; c0 = j + push_bit 3 (of_nat len);
          c1 = sha_count1 ctx + (if c0 < j then 1 else 0) + of_nat (len div 2 ^ 29)
      in case sha1_blocks (sha_state ctx) (sha_buffer ctx @ data) of
           (st, rest) \<Rightarrow> ctx\<lparr>sha_state := st, sha_count0 := c0, sha_count1 := c1, sha_buffer := rest\<rparr>)"

definition word_bytes :: "u32 \<Rightarrow> string" where
  "word_bytes w = map (\<lambda>i. char_of (unat (drop_bit ((3 - i) * 8) w AND 255))) [0..<4]"

text \<open>The padding loop of \<open>mg_sha1_final\<close>, at most 64 turns.\<close>

fun sha1_pad :: "nat \<Rightarrow> sha1_ctx \<Rightarrow> sha1_ctx" where
  "sha1_pad 0 ctx = ctx"
| "sha1_pad (Suc n) ctx =
     (if sha_count0 ctx AND 504 \<noteq> 448 then sha1_pad n (mg_sha1_update ctx [NUL]) else ctx)"

definition mg_sha1_final :: "sha1_ctx \<Rightarrow> string" where
  "mg_sha1_final ctx =
     (let finalcount = word_bytes (sha_count1 ctx) @ word_bytes (sha_count0 ctx);
          ctx1 = sha1_pad 64 (mg_sha1_update ctx [CHR 0x80]);
          ctx2 = mg_sha1_update ctx1 finalcount
      in case sha_state ctx2 of (a, b, c, d, e) \<Rightarrow> concat (map word_bytes [a, b, c, d, e]))"

text \<open>The key that \<open>ws_handshake\<close> sends back.\<close>

definition ws_magic :: string where
  "ws_magic = ''258EAFA5-E914-47DA-95CA-C5AB0DC85B11''"

definition ws_accept_key :: "string \<Rightarrow> string" where
  "ws_accept_key key =
     (let sha = mg_sha1_final (mg_sha1_update (mg_sha1_update mg_sha1_init key) ws_magic)
      in case mg_base64_encode sha 30 of Some s \<Rightarrow> s | None \<Rightarrow> [])"


section \<open>Base64 decodes to what was encoded\<close>

lemma or_is_add:
  assumes "b < 2 ^ n"
  shows "a * 2 ^ n OR b = a * 2 ^ n + (b::nat)"
proof -
  have k: "k < n" if "bit b k" for k
    using assms that by (metis bit_take_bit_iff take_bit_nat_eq_self)
  have "push_bit n a AND b = 0"
    by (intro bit_eqI) (use k in \<open>force simp: bit_and_iff bit_push_bit_iff\<close>)
  then have "a * 2 ^ n AND b = 0" by (simp only: push_bit_eq_mult)
  then show ?thesis by (simp add: disjunctive_add_eq_or)
qed

lemma or_adds:
  "b < 16 \<Longrightarrow> a * 16 OR b = a * 16 + (b::nat)" "b < 4 \<Longrightarrow> a * 4 OR b = a * 4 + (b::nat)"
  "b < 64 \<Longrightarrow> a * 64 OR b = a * 64 + (b::nat)"
  using or_is_add [of b 4 a] or_is_add [of b 2 a] or_is_add [of b 6 a] by simp_all

lemma decode_encode_single:
  assumes "c < 64"
  shows "base64_decode_single (base64_encode_single c) = Some c" "base64_encode_single c \<noteq> CHR ''=''"
proof -
  consider "c < 26" | "26 \<le> c" "c < 52" | "52 \<le> c" "c < 62" | "c = 62" | "c = 63"
    using assms by linarith
  then show "base64_decode_single (base64_encode_single c) = Some c"
    by cases (auto simp: base64_encode_single_def base64_decode_single_def isupper_def islower_def
        isdigit_def Let_def)
  then show "base64_encode_single c \<noteq> CHR ''=''"
    using assms by (auto simp: base64_decode_single_def isupper_def islower_def isdigit_def)
qed

text \<open>The encoder on a group of three bytes, and on the last one or two.\<close>

definition group3 :: "nat \<Rightarrow> nat \<Rightarrow> nat \<Rightarrow> string" where
  "group3 x y z = map base64_encode_single
     [x div 4, x mod 4 * 16 + y div 16, y mod 16 * 4 + z div 64, z mod 64]"

definition bupd :: "char \<Rightarrow> b64 \<Rightarrow> b64" where "bupd c = mg_base64_update (byte c)"

lemma byte_div: "byte c div 4 < 64" "byte c div 16 < 16" "byte c div 64 < 4"
proof -
  have b: "byte c < 64 * 4" "byte c < 16 * 16" "byte c < 4 * 64" using byte_lt [of c] by simp_all
  show "byte c div 4 < 64" using b(1) by (rule less_mult_imp_div_less)
  show "byte c div 16 < 16" using b(2) by (rule less_mult_imp_div_less)
  show "byte c div 64 < 4" using b(3) by (rule less_mult_imp_div_less)
qed

lemma update_group:
  assumes "length to mod 4 = 0"
  shows "bupd z (bupd y (bupd x (to, p))) = (to @ group3 (byte x) (byte y) (byte z), 0)"
proof -
  have "(Suc (length to)) mod 4 = 1" "(Suc (Suc (length to))) mod 4 = 2" using assms by presburger+
  then show ?thesis
    using assms byte_div [of y] byte_div [of z]
    by (simp add: bupd_def mg_base64_update_def group3_def or_adds)
qed

lemma final_one:
  assumes "length to mod 4 = 0"
  shows "mg_base64_final (bupd x (to, p))
     = to @ map base64_encode_single [byte x div 4, byte x mod 4 * 16] @ ''==''"
proof -
  have "(Suc (length to)) mod 4 = 1" "(Suc (Suc (length to))) mod 4 = 2" using assms by presburger+
  then show ?thesis
    using assms by (simp add: bupd_def mg_base64_final_def mg_base64_update_def numeral_2_eq_2)
qed

lemma final_two:
  assumes "length to mod 4 = 0"
  shows "mg_base64_final (bupd y (bupd x (to, p)))
     = to @ map base64_encode_single [byte x div 4, byte x mod 4 * 16 + byte y div 16, byte y mod 16 * 4] @ ''=''"
proof -
  let ?a = "base64_encode_single (byte x div 4)"
  let ?b = "base64_encode_single (byte x mod 4 * 16 + byte y div 16)"
  let ?c = "base64_encode_single (byte y mod 16 * 4)"
  have m: "Suc (length to) mod 4 = 1" "(length to + 2) mod 4 = 2" "(length to + 3) mod 4 = 3"
    using assms by presburger+
  have u: "bupd y (bupd x (to, p)) = (to @ [?a, ?b], byte y mod 16 * 4)"
    using assms m byte_div [of y] by (simp add: bupd_def mg_base64_update_def or_adds)
  define s where "s = to @ [?a, ?b]"
  have sl: "length s mod 4 = 2" using m by (simp add: s_def)
  then have v: "mg_base64_update 0 (s, byte y mod 16 * 4) = (s @ [?c, base64_encode_single 0], 0)"
    by (simp add: mg_base64_update_def)
  have "length (s @ [?c]) mod 4 = 3" using m(3) by (simp add: s_def add.commute)
  then have "mg_base64_final (s, byte y mod 16 * 4) = s @ [?c] @ ''=''"
    unfolding mg_base64_final_def Let_def fst_conv sl v by (simp add: butlast_append)
  then show ?thesis unfolding u s_def [symmetric] by (simp add: s_def)
qed

text \<open>The whole encoding, three bytes at a time.\<close>

fun base64 :: "string \<Rightarrow> string" where
  "base64 [] = []"
| "base64 [x] = map base64_encode_single [byte x div 4, byte x mod 4 * 16] @ ''==''"
| "base64 [x, y] = map base64_encode_single
     [byte x div 4, byte x mod 4 * 16 + byte y div 16, byte y mod 16 * 4] @ ''=''"
| "base64 (x # y # z # r) = group3 (byte x) (byte y) (byte z) @ base64 r"

lemma length_group3 [simp]: "length (group3 x y z) = 4"
  by (simp add: group3_def)

lemma encode_base64:
  "length to mod 4 = 0 \<Longrightarrow> mg_base64_final (fold bupd s (to, p)) = to @ base64 s"
proof (induction s arbitrary: to p rule: base64.induct)
  case 1
  then show ?case by (simp add: mg_base64_final_def)
next
  case (2 x)
  then show ?case by (simp add: final_one)
next
  case (3 x y)
  then show ?case by (simp add: final_two)
next
  case (4 x y z r)
  have "length (to @ group3 (byte x) (byte y) (byte z)) mod 4 = 0" using "4.prems" by simp
  with 4 show ?case by (simp add: update_group)
qed

lemma encode_eq:
  "(length s div 3 + (if length s mod 3 \<noteq> 0 then 1 else 0)) * 4 + 1 \<le> dl \<Longrightarrow>
   mg_base64_encode s dl = Some (base64 s)"
proof -
  assume "(length s div 3 + (if length s mod 3 \<noteq> 0 then 1 else 0)) * 4 + 1 \<le> dl"
  moreover have "(\<lambda>c. mg_base64_update (byte c)) = bupd" by (simp add: bupd_def fun_eq_iff)
  ultimately show ?thesis
    using encode_base64 [of "[]" s 0] by (simp add: mg_base64_encode_def Let_def)
qed

lemma length_base64: "length (base64 s) = (length s div 3 + (if length s mod 3 \<noteq> 0 then 1 else 0)) * 4"
proof (induction s rule: base64.induct)
  case (4 x y z r)
  have "Suc (Suc (Suc (length r))) div 3 = Suc (length r div 3)"
    "Suc (Suc (Suc (length r))) mod 3 = length r mod 3" by presburger+
  with 4 show ?case by simp
qed simp_all

lemma byte_parts: "byte c div 4 * 4 + byte c mod 4 = byte c" "byte c mod 4 < 4" "byte c mod 16 < 16"
  "byte c mod 64 < 64" "byte c mod 4 * 16 < 64" "byte c mod 16 * 4 < 64"
  by simp_all

lemma char_bytes:
  "(char_of (byte x div 4 * 4 + byte x mod 4) :: char) = x"
  "(char_of (byte y div 16 * 16 + byte y mod 16) :: char) = y"
  "(char_of (byte z div 64 * 64 + byte z mod 64) :: char) = z"
  by simp_all

text \<open>Sixteen times, and sixty-four times, a number counts modulo 256 as its low bits do.\<close>

lemma char_of_low:
  fixes a b c :: nat
  shows
  "(char_of ((a * 16 + b) * 16 + c) :: char) = char_of (b * 16 + c)"
  "(char_of ((a * 4 + b) * 64 + c) :: char) = char_of (b * 64 + c)"
proof -
  have "(a * 16 + b) * 16 + c = (b * 16 + c) + a * 256" "(a * 4 + b) * 64 + c = (b * 64 + c) + a * 256"
    by simp_all
  then have "((a * 16 + b) * 16 + c) mod 256 = (b * 16 + c) mod 256"
    "((a * 4 + b) * 64 + c) mod 256 = (b * 64 + c) mod 256"
    by (simp_all only: mod_mult_self1)
  then show "(char_of ((a * 16 + b) * 16 + c) :: char) = char_of (b * 16 + c)"
    "(char_of ((a * 4 + b) * 64 + c) :: char) = char_of (b * 64 + c)"
    by (metis char_of_mod_256)+
qed

lemma decode_base64: "base64_decode_loop (base64 s) = Some s"
proof (induction s rule: base64.induct)
  case 1
  then show ?case by simp
next
  case (2 x)
  have e: "base64_decode_single (CHR ''='') = Some 64" by code_simp
  note d = decode_encode_single [OF byte_div(1) [of x]] decode_encode_single [OF byte_parts(5) [of x]]
  have "byte x mod 4 * 16 div 16 = byte x mod 4" by simp
  then show ?case
    using byte_div(1) [of x] byte_parts [of x] by (simp add: d e or_adds char_bytes)
next
  case (3 x y)
  have e: "base64_decode_single (CHR ''='') = Some 64" by code_simp
  let ?b = "byte x mod 4 * 16 + byte y div 16"
  have b: "?b < 64" using byte_parts(2) [of x] byte_div(2) [of y] by linarith
  note d = decode_encode_single [OF byte_div(1) [of x]] decode_encode_single [OF b]
    decode_encode_single [OF byte_parts(6) [of y]]
  have q: "?b div 16 = byte x mod 4" "byte y mod 16 * 4 div 4 = byte y mod 16"
    using byte_div(2) [of y] by simp_all
  show ?case
    using byte_div(1) [of x] b byte_parts [of x] byte_parts [of y]
    by (simp add: d e or_adds q char_bytes char_of_low del: distrib_right_numeral)
next
  case (4 x y z r)
  let ?b = "byte x mod 4 * 16 + byte y div 16" and ?c = "byte y mod 16 * 4 + byte z div 64"
  have b: "?b < 64" using byte_parts(2) [of x] byte_div(2) [of y] by linarith
  have c: "?c < 64" using byte_parts(3) [of y] byte_div(3) [of z] by linarith
  note d = decode_encode_single [OF byte_div(1) [of x]] decode_encode_single [OF b]
    decode_encode_single [OF c] decode_encode_single [OF byte_parts(4) [of z]]
  have q: "?b div 16 = byte x mod 4" "?c div 4 = byte y mod 16"
    using byte_div(2) [of y] byte_div(3) [of z] by simp_all
  show ?case
    using byte_div(1) [of x] b c byte_parts [of x] byte_parts [of y] byte_parts [of z] 4
    by (simp add: group3_def d or_adds q char_bytes char_of_low del: distrib_right_numeral)
qed

text \<open>Base64 decoding undoes encoding for every sequence of bytes, and the encoder's check of the
  destination's size is exact: it refuses only when the characters and the NUL do not fit.\<close>

theorem base64_roundtrip:
  "(case mg_base64_encode s dl of
      None \<Rightarrow> dl \<le> length (base64 s)
    | Some e \<Rightarrow> length e < dl \<and> mg_base64_decode e (length e + 1) = Some s)"
proof (cases "dl \<le> length (base64 s)")
  case True
  then show ?thesis by (simp add: mg_base64_encode_def Let_def length_base64)
next
  case False
  then have "mg_base64_encode s dl = Some (base64 s)"
    by (intro encode_eq) (simp add: length_base64)
  moreover have "\<not> length (base64 s) + 1 < length (base64 s) div 4 * 3 + 1" by simp
  ultimately show ?thesis using False by (simp add: mg_base64_decode_def decode_base64)
qed

end
