(* ===== verification/Paths.thy ===== *)
theory Paths
  imports CLib
begin

text \<open>
  src/core/uri.c, src/handler_utils.c and include/global.h: the tests that handlers make on a
  request's URI and the path they build from it, and a lexical model of path resolution that
  says what these tests are good for.

  The build chooses separators, directories and the extension of a shared library by
  platform; here the platform is an argument. Symbolic links are not modelled: a path is
  resolved component by component as written.
\<close>

section \<open>Platform constants of include/global.h and handler_utils.c\<close>

datatype platform = Windows | Apple | Posix

definition PATH_SEP :: "platform \<Rightarrow> string" where
  "PATH_SEP p = (if p = Windows then [BSL] else ''/'')"

definition WEB_ROOT :: "platform \<Rightarrow> string" where
  "WEB_ROOT p = (if p = Windows then CHR ''.'' # BSL # ''web'' else ''./web'')"

definition LIBARY_DIR :: "platform \<Rightarrow> string" where
  "LIBARY_DIR p = (if p = Windows then CHR ''.'' # BSL # ''libary'' else ''./libary'')"

definition PLUGINS_DIR :: "platform \<Rightarrow> string" where
  "PLUGINS_DIR p = (if p = Windows then CHR ''.'' # BSL # ''plugins'' else ''./plugins'')"

definition FFI_EXT :: "platform \<Rightarrow> string" where
  "FFI_EXT p = (case p of Windows \<Rightarrow> ''.dll'' | Apple \<Rightarrow> ''.dylib'' | Posix \<Rightarrow> ''.so'')"

lemmas platform_defs = PATH_SEP_def WEB_ROOT_def LIBARY_DIR_def PLUGINS_DIR_def FFI_EXT_def

section \<open>src/core/uri.c and src/handler_utils.c\<close>

definition has_file_extension :: "string \<Rightarrow> bool" where
  "has_file_extension path =
     (let slash = strrchr_idx path (CHR ''/''); dot = strrchr_idx path (CHR ''.'')
      in case dot of
           None \<Rightarrow> False
         | Some d \<Rightarrow>
             if (case slash of Some s \<Rightarrow> d < s | None \<Rightarrow> False) then False
             else if Suc d = length path then False
             else True)"

definition build_ffi_path :: "platform \<Rightarrow> string \<Rightarrow> string \<Rightarrow> nat \<Rightarrow> string" where
  "build_ffi_path p uri dir out_size =
     (let clean_uri = (case uri of c # cs \<Rightarrow> if c = CHR ''/'' then cs else uri | [] \<Rightarrow> uri)
      in snprintf_buf out_size (dir @ clean_uri @ FFI_EXT p))"

definition uri_has_traversal :: "string option \<Rightarrow> bool" where
  "uri_has_traversal uri = (case uri of None \<Rightarrow> False | Some u \<Rightarrow> strstr u ''..'')"

lemma strrchr_idx_None: "strrchr_idx s c = None \<longleftrightarrow> c \<notin> set s"
  by (induction s) (auto split: option.splits)

lemma strrchr_idx_Some:
  "strrchr_idx s c = Some i \<longleftrightarrow> i < length s \<and> s ! i = c \<and> c \<notin> set (drop (Suc i) s)"
proof (induction s arbitrary: i)
  case Nil
  then show ?case by simp
next
  case (Cons x xs)
  show ?case
  proof (cases "strrchr_idx xs c")
    case None
    then have "c \<notin> set xs" by (simp add: strrchr_idx_None)
    then have "xs ! k \<noteq> c" if "k < length xs" for k using that nth_mem by metis
    then show ?thesis using None \<open>c \<notin> set xs\<close> by (cases i) auto
  next
    case (Some j)
    with Cons.IH [of j] have j: "j < length xs" "xs ! j = c" "c \<notin> set (drop (Suc j) xs)" by auto
    then have "c \<in> set xs" by auto
    show ?thesis
    proof (cases i)
      case 0
      with Some \<open>c \<in> set xs\<close> show ?thesis by simp
    next
      case (Suc k)
      with Some Cons.IH [of k] show ?thesis by simp
    qed
  qed
qed

text \<open>The first part of the file name rule: what the two indices mean for the text.\<close>

lemma has_file_extension_split:
  assumes "has_file_extension path"
  obtains stem ext where "path = stem @ CHR ''.'' # ext" "ext \<noteq> []"
    "CHR ''/'' \<notin> set ext" "CHR ''.'' \<notin> set ext"
proof -
  from assms obtain d where d: "strrchr_idx path (CHR ''.'') = Some d"
    and sl: "\<And>s. strrchr_idx path (CHR ''/'') = Some s \<Longrightarrow> s < d" and nl: "Suc d \<noteq> length path"
  proof -
    assume goal: "\<And>d. strrchr_idx path (CHR ''.'') = Some d \<Longrightarrow>
       (\<And>s. strrchr_idx path (CHR ''/'') = Some s \<Longrightarrow> s < d) \<Longrightarrow> Suc d \<noteq> length path \<Longrightarrow> thesis"
    from assms obtain d where d: "strrchr_idx path (CHR ''.'') = Some d"
      and le: "\<And>s. strrchr_idx path (CHR ''/'') = Some s \<Longrightarrow> \<not> d < s" and nl: "Suc d \<noteq> length path"
      by (auto simp: has_file_extension_def Let_def split: option.splits if_splits)
    have "s < d" if s: "strrchr_idx path (CHR ''/'') = Some s" for s
    proof -
      have "s \<noteq> d" using d s by (auto simp: strrchr_idx_Some)
      with le [OF s] show ?thesis by simp
    qed
    with goal d nl show thesis by blast
  qed
  from d have dot: "d < length path" "path ! d = CHR ''.''" "CHR ''.'' \<notin> set (drop (Suc d) path)"
    by (auto simp: strrchr_idx_Some)
  have "CHR ''/'' \<notin> set (drop (Suc d) path)"
  proof (cases "strrchr_idx path (CHR ''/'')")
    case None
    then show ?thesis by (auto simp: strrchr_idx_None dest: in_set_dropD)
  next
    case (Some s)
    with sl have "s < d" by blast
    then have "set (drop (Suc d) path) \<subseteq> set (drop (Suc s) path)" by (simp add: set_drop_subset_set_drop)
    with Some show ?thesis by (auto simp: strrchr_idx_Some)
  qed
  moreover have "path = take d path @ CHR ''.'' # drop (Suc d) path"
    using dot id_take_nth_drop by metis
  moreover have "drop (Suc d) path \<noteq> []" using dot nl by simp
  ultimately show thesis using that dot by blast
qed

lemma has_file_extension_intro:
  assumes "ext \<noteq> []" "CHR ''/'' \<notin> set ext" "CHR ''.'' \<notin> set ext"
  shows "has_file_extension (stem @ CHR ''.'' # ext)"
proof -
  let ?p = "stem @ CHR ''.'' # ext"
  have d: "strrchr_idx ?p (CHR ''.'') = Some (length stem)"
    using assms by (simp add: strrchr_idx_Some)
  have "\<not> length stem < s" if "strrchr_idx ?p (CHR ''/'') = Some s" for s
  proof
    assume lt: "length stem < s"
    from that have s: "s < length ?p" "?p ! s = CHR ''/''" by (auto simp: strrchr_idx_Some)
    from lt obtain k where "s = length stem + Suc k" by (metis add_Suc_right less_iff_Suc_add)
    with s have "k < length ext" "ext ! k = CHR ''/''" by (auto simp: nth_append)
    with assms(2) show False by (metis nth_mem)
  qed
  with d assms(1) show ?thesis by (auto simp: has_file_extension_def Let_def split: option.splits)
qed

section \<open>Paths, resolved component by component\<close>

definition is_sep :: "platform \<Rightarrow> char \<Rightarrow> bool" where
  "is_sep p c \<longleftrightarrow> c = CHR ''/'' \<or> p = Windows \<and> c = BSL"

fun comps :: "platform \<Rightarrow> string \<Rightarrow> string list" where
  "comps p [] = [[]]"
| "comps p (c # cs) =
     (if is_sep p c then [] # comps p cs
      else (case comps p cs of d # ds \<Rightarrow> (c # d) # ds | [] \<Rightarrow> [[c]]))"

text \<open>The directories below the working directory that lead to the file; \<open>..\<close> leaves one.\<close>

fun enter :: "string list \<Rightarrow> string list \<Rightarrow> string list" where
  "enter st [] = st"
| "enter st (c # cs) =
     (if c = [] \<or> c = ''.'' then enter st cs
      else if c = ''..'' then enter (butlast st) cs
      else enter (st @ [c]) cs)"

definition locate :: "platform \<Rightarrow> string \<Rightarrow> string list" where
  "locate p path = enter [] (comps p path)"

lemma comps_not_Nil [simp]: "comps p s \<noteq> []"
  by (cases s) (auto split: list.splits)

lemma comps_append_sep:
  "is_sep p c \<Longrightarrow> comps p (s @ c # t) = comps p s @ comps p t"
proof (induction s)
  case Nil
  then show ?case by simp
next
  case (Cons x xs)
  obtain d ds where "comps p xs = d # ds" using comps_not_Nil [of p xs] by (cases "comps p xs") auto
  with Cons show ?case by auto
qed

lemma enter_append: "enter st (cs @ ds) = enter (enter st cs) ds"
  by (induction st cs rule: enter.induct) auto

lemma comps_sublist: "c \<in> set (comps p s) \<Longrightarrow> sublist c s"
proof (induction s arbitrary: c)
  case Nil
  then show ?case by simp
next
  case (Cons x xs)
  obtain d ds where ds: "comps p xs = d # ds" using comps_not_Nil [of p xs] by (cases "comps p xs") auto
  have pre: "prefix (hd (comps p ys)) ys" for ys
  proof (induction ys)
    case Nil
    then show ?case by simp
  next
    case (Cons y ys)
    then show ?case by (cases "comps p ys") auto
  qed
  show ?case
  proof (cases "is_sep p x")
    case True
    with Cons show ?thesis by (auto simp: sublist_Cons_right)
  next
    case False
    with ds Cons.prems have "c = x # d \<or> c \<in> set ds" by simp
    then show ?thesis
    proof
      assume "c = x # d"
      moreover have "prefix d xs" using pre [of xs] ds by simp
      ultimately show ?thesis by (simp add: sublist_Cons_right)
    next
      assume "c \<in> set ds"
      with ds Cons.IH [of c] show ?thesis by (simp add: sublist_Cons_right)
    qed
  qed
qed

text \<open>Without a \<open>..\<close> component the walk never leaves the directory it starts in.\<close>

lemma enter_below: "''..'' \<notin> set cs \<Longrightarrow> prefix st (enter st cs)"
proof (induction st cs rule: enter.induct)
  case (1 st)
  then show ?case by simp
next
  case (2 st c cs)
  have "prefix (st @ [c]) ys \<Longrightarrow> prefix st ys" for ys by (metis append_prefixD)
  with 2 show ?case by auto
qed

lemma no_dotdot_comps: "\<not> strstr s ''..'' \<Longrightarrow> ''..'' \<notin> set (comps p s)"
  using comps_sublist by (auto simp: strstr_infix)

lemma locate_below:
  assumes "is_sep p c" and "''..'' \<notin> set (comps p t)"
  shows "prefix (locate p dir) (locate p (dir @ c # t))"
  using assms by (simp add: locate_def comps_append_sep enter_append enter_below)

lemma locate_dirs:
  "locate p (WEB_ROOT p) = [''web'']"
  "locate p (LIBARY_DIR p) = [''libary'']"
  "locate p (PLUGINS_DIR p) = [''plugins'']"
  by (cases p; simp add: locate_def platform_defs is_sep_def)+

lemma PATH_SEP_char: "\<exists>c. PATH_SEP p = [c] \<and> is_sep p c"
  by (simp add: PATH_SEP_def is_sep_def)

text \<open>\<open>has_file_extension\<close> is true exactly for the paths whose last segment ends in a dot
  followed by a non-empty extension without dots or slashes.\<close>

theorem has_file_extension_iff:
  "has_file_extension path \<longleftrightarrow>
     (\<exists>stem ext. path = stem @ CHR ''.'' # ext \<and> ext \<noteq> []
        \<and> CHR ''/'' \<notin> set ext \<and> CHR ''.'' \<notin> set ext)"
  by (metis has_file_extension_split has_file_extension_intro)



end
