(* ===== verification/PluginPath.thy ===== *)
theory PluginPath
  imports Paths
begin

text \<open>
  src/plugin_path.c: how a plugin's name becomes the path of the shared library to load. The
  file system is what \<open>stat\<close>, \<open>readdir\<close> and \<open>_findfirst\<close> answer during one call (a record of
  functions). The lemmas: where a resolved path can lie, which candidate wins, and what the
  buffer holds when nothing is found.
\<close>

record fs =
  fs_stat :: "string \<Rightarrow> bool"
  fs_readdir :: "string \<Rightarrow> string list option"
  fs_findfirst :: "string \<Rightarrow> (string \<times> bool) list"

definition PLUGIN_PATH_MAX :: nat where "PLUGIN_PATH_MAX = 512"

definition file_exists :: "fs \<Rightarrow> string \<Rightarrow> bool" where
  "file_exists f path = fs_stat f path"

definition plugin_name_is_safe :: "string option \<Rightarrow> bool" where
  "plugin_name_is_safe name =
     (case name of
        None \<Rightarrow> False
      | Some n \<Rightarrow> n \<noteq> [] \<and> list_all (\<lambda>c. isalnum c \<or> c = CHR ''_'' \<or> c = CHR ''-'') n)"

text \<open>
  One named candidate: \<open>snprintf\<close> into \<open>candidate\<close>, and only when it was not cut off and the
  file exists the copy into \<open>out\<close>.
\<close>

definition try_candidate :: "fs \<Rightarrow> nat \<Rightarrow> string \<Rightarrow> string option" where
  "try_candidate f out_size cand =
     (if 0 < length cand \<and> length cand < PLUGIN_PATH_MAX \<and> file_exists f cand
      then Some (snprintf_buf out_size cand) else None)"

text \<open>The directory scan: the first entry longer than the extension that ends with it.\<close>

definition ends_with_ext :: "platform \<Rightarrow> string \<Rightarrow> bool" where
  "ends_with_ext p e \<longleftrightarrow> length (FFI_EXT p) < length e \<and> drop (length e - length (FFI_EXT p)) e = FFI_EXT p"

definition scan_dir :: "platform \<Rightarrow> fs \<Rightarrow> string \<Rightarrow> nat \<Rightarrow> string option" where
  "scan_dir p f dir out_size =
     (if p = Windows then
        (let pattern = dir @ [BSL] @ ''*'' @ FFI_EXT p
         in if length pattern < PLUGIN_PATH_MAX then
              (case List.find (\<lambda>(n, subdir). \<not> subdir) (fs_findfirst f pattern) of
                 None \<Rightarrow> None
               | Some (n, _) \<Rightarrow> Some (snprintf_buf out_size (dir @ PATH_SEP p @ n)))
            else None)
      else
        (case fs_readdir f dir of
           None \<Rightarrow> None
         | Some es \<Rightarrow>
             (case List.find (ends_with_ext p) es of
                None \<Rightarrow> None
              | Some e \<Rightarrow> Some (snprintf_buf out_size (dir @ PATH_SEP p @ e)))))"

definition find_library_in_dir :: "platform \<Rightarrow> fs \<Rightarrow> string \<Rightarrow> string \<Rightarrow> nat \<Rightarrow> string option" where
  "find_library_in_dir p f dir name out_size =
     (case try_candidate f out_size (dir @ PATH_SEP p @ name @ FFI_EXT p) of
        Some out \<Rightarrow> Some out
      | None \<Rightarrow>
          (case try_candidate f out_size (dir @ PATH_SEP p @ ''lib'' @ name @ FFI_EXT p) of
             Some out \<Rightarrow> Some out
           | None \<Rightarrow> scan_dir p f dir out_size))"

text \<open>The fallback to the library directory, which always leaves a path in the buffer.\<close>

definition libary_fallback :: "platform \<Rightarrow> fs \<Rightarrow> string \<Rightarrow> nat \<Rightarrow> int \<times> string option" where
  "libary_fallback p f name out_size =
     (let out = snprintf_buf out_size (LIBARY_DIR p @ PATH_SEP p @ name @ FFI_EXT p)
      in if file_exists f out then (0, Some out)
         else let out = snprintf_buf out_size (LIBARY_DIR p @ PATH_SEP p @ ''lib'' @ name @ FFI_EXT p)
              in (if file_exists f out then 0 else -1, Some out))"

text \<open>
  The return code and the contents of \<open>out\<close>; \<open>None\<close> when the buffer was not written (also when
  it is NULL: \<open>out_size = None\<close>).
\<close>

definition plugin_resolve_path ::
  "platform \<Rightarrow> fs \<Rightarrow> string option \<Rightarrow> nat option \<Rightarrow> int \<times> string option" where
  "plugin_resolve_path p f name out =
     (case (name, out) of
        (Some n, Some out_size) \<Rightarrow>
          if n = [] \<or> out_size = 0 then (-1, None)
          else
            (let dir = PLUGINS_DIR p @ PATH_SEP p @ n
             in if plugin_name_is_safe (Some n) \<and> 0 < length dir \<and> length dir < PLUGIN_PATH_MAX
                then (case find_library_in_dir p f dir n out_size of
                        Some path \<Rightarrow> (0, Some path)
                      | None \<Rightarrow> libary_fallback p f n out_size)
                else libary_fallback p f n out_size)
      | _ \<Rightarrow> (-1, None))"

section \<open>Where a resolved path lies\<close>

text \<open>The entries that a directory listing gives are names, not paths.\<close>

definition entry_name :: "platform \<Rightarrow> string \<Rightarrow> bool" where
  "entry_name p e \<longleftrightarrow> \<not> list_ex (is_sep p) e"

definition listing :: "platform \<Rightarrow> fs \<Rightarrow> string \<Rightarrow> string list" where
  "listing p f name =
     (let dir = PLUGINS_DIR p @ PATH_SEP p @ name
      in if p = Windows then map fst (fs_findfirst f (dir @ [BSL] @ ''*'' @ FFI_EXT p))
         else (case fs_readdir f dir of None \<Rightarrow> [] | Some es \<Rightarrow> es))"

lemma safe_char_not_sep:
  "isalnum c \<or> c = CHR ''_'' \<or> c = CHR ''-'' \<Longrightarrow> \<not> is_sep p c \<and> c \<noteq> CHR ''.''"
  by (auto simp: isalnum_def isdigit_def isupper_def islower_def is_sep_def)

lemma comps_no_sep: "\<not> list_ex (is_sep p) s \<Longrightarrow> comps p s = [s]"
  by (induction s) auto

lemma safe_name_not_sep:
  "plugin_name_is_safe (Some n) \<Longrightarrow> \<not> list_ex (is_sep p) n \<and> CHR ''.'' \<notin> set n \<and> n \<noteq> []"
  using safe_char_not_sep [of _ p]
  by (fastforce simp: plugin_name_is_safe_def list_ex_iff list_all_iff)

lemma ext_not_sep: "\<not> list_ex (is_sep p) (FFI_EXT p)"
  by (cases p) (simp_all add: FFI_EXT_def is_sep_def)

text \<open>A directory and one more segment.\<close>

lemma locate_segment:
  assumes "\<not> list_ex (is_sep p) e" "e \<noteq> []" "e \<noteq> ''.''" "e \<noteq> ''..''"
  shows "locate p (dir @ PATH_SEP p @ e) = locate p dir @ [e]"
proof -
  obtain c where c: "PATH_SEP p = [c]" "is_sep p c" using PATH_SEP_char by blast
  then show ?thesis
    using assms by (simp add: locate_def comps_append_sep enter_append comps_no_sep)
qed

lemma locate_plugin_dir:
  assumes "plugin_name_is_safe (Some n)"
  shows "locate p (PLUGINS_DIR p @ PATH_SEP p @ n) = [''plugins'', n]"
proof -
  have n: "\<not> list_ex (is_sep p) n" "CHR ''.'' \<notin> set n" "n \<noteq> []"
    using safe_name_not_sep [OF assms, of p] by auto
  then have "n \<noteq> ''.''" "n \<noteq> ''..''" by auto
  with n show ?thesis by (simp add: locate_segment locate_dirs)
qed

lemma ext_length: "3 \<le> length (FFI_EXT p)"
  by (cases p) (simp_all add: FFI_EXT_def)

lemma entry_not_dots: "3 \<le> length e \<Longrightarrow> e \<noteq> [] \<and> e \<noteq> ''.'' \<and> e \<noteq> ''..''"
  by auto

lemma try_candidate_Some:
  "try_candidate f m c = Some out \<Longrightarrow> out = snprintf_buf m c \<and> fs_stat f c \<and> length c < 512"
  by (auto simp: try_candidate_def file_exists_def PLUGIN_PATH_MAX_def split: if_splits)

lemma find_in_list: "List.find P xs = Some x \<Longrightarrow> x \<in> set xs \<and> P x"
  by (auto simp: find_Some_iff)

lemma scan_dir_Some:
  assumes "scan_dir p f (PLUGINS_DIR p @ PATH_SEP p @ n) m = Some out"
  obtains e where "e \<in> set (listing p f n)" "p \<noteq> Windows \<longrightarrow> ends_with_ext p e"
    "out = snprintf_buf m ((PLUGINS_DIR p @ PATH_SEP p @ n) @ PATH_SEP p @ e)"
proof (cases "p = Windows")
  case True
  with assms obtain e b where
    "List.find (\<lambda>(n, subdir). \<not> subdir)
       (fs_findfirst f ((PLUGINS_DIR p @ PATH_SEP p @ n) @ [BSL] @ ''*'' @ FFI_EXT p)) = Some (e, b)"
    "out = snprintf_buf m ((PLUGINS_DIR p @ PATH_SEP p @ n) @ PATH_SEP p @ e)"
    by (auto simp: scan_dir_def Let_def split: if_splits option.splits)
  moreover from this(1) have "(e, b) \<in> set (fs_findfirst f ((PLUGINS_DIR p @ PATH_SEP p @ n) @ [BSL] @ ''*'' @ FFI_EXT p))"
    using find_in_list by fastforce
  then have "e \<in> set (listing p f n)"
    unfolding listing_def Let_def using True by (force simp: image_iff)
  ultimately show thesis using True that by blast
next
  case False
  with assms obtain es e where
    "fs_readdir f (PLUGINS_DIR p @ PATH_SEP p @ n) = Some es" "List.find (ends_with_ext p) es = Some e"
    "out = snprintf_buf m ((PLUGINS_DIR p @ PATH_SEP p @ n) @ PATH_SEP p @ e)"
    by (auto simp: scan_dir_def split: option.splits)
  then show thesis
    using False that [of e] find_in_list [of "ends_with_ext p" es e] by (simp add: listing_def)
qed

text \<open>The three ways a library is found in the plugin's directory.\<close>

lemma find_library_cases:
  assumes "find_library_in_dir p f (PLUGINS_DIR p @ PATH_SEP p @ n) n m = Some out"
  obtains e where "out = snprintf_buf m ((PLUGINS_DIR p @ PATH_SEP p @ n) @ PATH_SEP p @ e)"
    "(e = n @ FFI_EXT p \<or> e = ''lib'' @ n @ FFI_EXT p) \<and> length n + length e + 11 < 512
       \<and> fs_stat f ((PLUGINS_DIR p @ PATH_SEP p @ n) @ PATH_SEP p @ e)
     \<or> e \<in> set (listing p f n) \<and> (p \<noteq> Windows \<longrightarrow> ends_with_ext p e)"
proof -
  have len: "length (PLUGINS_DIR p) = 9" "length (PATH_SEP p) = 1" by (simp_all add: platform_defs)
  let ?d = "PLUGINS_DIR p @ PATH_SEP p @ n"
  consider (own) "try_candidate f m (?d @ PATH_SEP p @ n @ FFI_EXT p) = Some out"
    | (lib) "try_candidate f m (?d @ PATH_SEP p @ ''lib'' @ n @ FFI_EXT p) = Some out"
    | (scan) "scan_dir p f ?d m = Some out"
    using assms unfolding find_library_in_dir_def by (auto split: option.splits)
  then show thesis
  proof cases
    case own
    from try_candidate_Some [OF this] show thesis by (intro that [of "n @ FFI_EXT p"]) (simp_all add: len)
  next
    case lib
    from try_candidate_Some [OF this] show thesis by (intro that [of "''lib'' @ n @ FFI_EXT p"]) (simp_all add: len)
  next
    case scan
    then show thesis using that scan_dir_Some by metis
  qed
qed

text \<open>Appending a piece without separators extends the last component.\<close>

lemma comps_append_no_sep:
  assumes "\<not> list_ex (is_sep p) e"
  shows "comps p (t @ e) = butlast (comps p t) @ [last (comps p t) @ e]"
proof (induction t)
  case Nil
  show ?case using assms by (simp add: comps_no_sep)
next
  case (Cons y ys)
  obtain d ds where "comps p ys = d # ds" using comps_not_Nil [of p ys] by (cases "comps p ys") auto
  with Cons show ?case by auto
qed

lemma no_dotdot_append_ext:
  assumes "''..'' \<notin> set (comps p t)"
  shows "''..'' \<notin> set (comps p (t @ FFI_EXT p))"
proof -
  have "last (comps p t) @ FFI_EXT p \<noteq> ''..''"
  proof
    assume "last (comps p t) @ FFI_EXT p = ''..''"
    then have "length (last (comps p t) @ FFI_EXT p) = length ''..''" by (rule arg_cong)
    with ext_length [of p] show False by simp
  qed
  with assms show ?thesis
    by (auto simp: comps_append_no_sep [OF ext_not_sep] dest: in_set_butlastD)
qed

lemma locate_libary:
  assumes "\<not> strstr n ''..''"
  shows "prefix [''libary''] (locate p (LIBARY_DIR p @ PATH_SEP p @ n @ FFI_EXT p))"
    and "prefix [''libary''] (locate p (LIBARY_DIR p @ PATH_SEP p @ ''lib'' @ n @ FFI_EXT p))"
proof -
  obtain c where c: "PATH_SEP p = [c]" "is_sep p c" using PATH_SEP_char by blast
  have "''..'' \<notin> set (comps p n)" using assms by (rule no_dotdot_comps)
  then have "''..'' \<notin> set (comps p (n @ FFI_EXT p))" by (rule no_dotdot_append_ext)
  then show "prefix [''libary''] (locate p (LIBARY_DIR p @ PATH_SEP p @ n @ FFI_EXT p))"
    using locate_below [OF c(2)] c(1) by (metis append_Cons append_Nil locate_dirs(2))
  have "\<not> strstr (''lib'' @ n) ''..''" using assms by simp
  then have "''..'' \<notin> set (comps p ((''lib'' @ n) @ FFI_EXT p))" by (intro no_dotdot_append_ext no_dotdot_comps)
  then show "prefix [''libary''] (locate p (LIBARY_DIR p @ PATH_SEP p @ ''lib'' @ n @ FFI_EXT p))"
    using locate_below [OF c(2)] c(1) by (metis append_assoc append_Cons append_Nil locate_dirs(2))
qed

lemma unsafe_uses_fallback:
  "n \<noteq> [] \<Longrightarrow> 0 < m \<Longrightarrow> \<not> plugin_name_is_safe (Some n) \<Longrightarrow>
   plugin_resolve_path p f (Some n) (Some m) = libary_fallback p f n m"
  by (simp add: plugin_resolve_path_def Let_def)

lemma resolve_cases:
  assumes "plugin_resolve_path p f (Some n) (Some m) = (rc, Some out)"
  obtains (plugin) "rc = 0" "plugin_name_is_safe (Some n)"
      "find_library_in_dir p f (PLUGINS_DIR p @ PATH_SEP p @ n) n m = Some out"
    | (libary) "libary_fallback p f n m = (rc, Some out)"
  using assms by (auto simp: plugin_resolve_path_def Let_def split: if_splits option.splits)

lemma fallback_out:
  "libary_fallback p f n m = (rc, Some out) \<Longrightarrow>
     out = snprintf_buf m (LIBARY_DIR p @ PATH_SEP p @ n @ FFI_EXT p)
   \<or> out = snprintf_buf m (LIBARY_DIR p @ PATH_SEP p @ ''lib'' @ n @ FFI_EXT p)"
  by (auto simp: libary_fallback_def Let_def split: if_splits)

lemma dir_lengths:
  "length (LIBARY_DIR p) = 8" "length (PLUGINS_DIR p) = 9" "length (PATH_SEP p) = 1"
  "length (FFI_EXT p) \<le> 6"
  by (cases p; simp add: platform_defs)+

text \<open>C18: Where the library that is loaded can be. For a name without \<open>..\<close> whose candidates fit
  the buffer, a resolved path is either a file directly inside \<open>plugins/<name>\<close>, and then the
  name is a safe one, or a path below \<open>libary\<close>; nothing outside these directories is loaded.\<close>

theorem plugin_resolve_confined:
  assumes "plugin_resolve_path p f (Some n) (Some m) = (0, Some out)"
    and "\<not> strstr n ''..''" and "512 \<le> m" and "length n + 20 < m"
    and "\<And>e. e \<in> set (listing p f n) \<Longrightarrow> length n + length e + 20 < m \<and> \<not> list_ex (is_sep p) e
           \<and> e \<notin> {[], ''.'', ''..''}"
  shows "plugin_name_is_safe (Some n) \<and> (\<exists>e. locate p out = [''plugins'', n, e])
       \<or> prefix [''libary''] (locate p out)"
  using assms(1)
proof (cases rule: resolve_cases)
  case plugin
  let ?d = "PLUGINS_DIR p @ PATH_SEP p @ n"
  obtain e where out: "out = snprintf_buf m (?d @ PATH_SEP p @ e)"
    and e: "(e = n @ FFI_EXT p \<or> e = ''lib'' @ n @ FFI_EXT p) \<and> length n + length e + 11 < 512
       \<and> fs_stat f (?d @ PATH_SEP p @ e)
     \<or> e \<in> set (listing p f n) \<and> (p \<noteq> Windows \<longrightarrow> ends_with_ext p e)"
    using plugin(3) by (rule find_library_cases)
  have ok: "\<not> list_ex (is_sep p) e \<and> e \<noteq> [] \<and> e \<noteq> ''.'' \<and> e \<noteq> ''..'' \<and> length n + length e + 11 < m"
    using e
  proof
    assume a: "(e = n @ FFI_EXT p \<or> e = ''lib'' @ n @ FFI_EXT p) \<and> length n + length e + 11 < 512
       \<and> fs_stat f (?d @ PATH_SEP p @ e)"
    then have "\<not> list_ex (is_sep p) e"
      using safe_name_not_sep [OF plugin(2), of p] ext_not_sep [of p] by (auto simp: is_sep_def)
    moreover have "3 \<le> length e" using a ext_length [of p] by auto
    then have "e \<noteq> []" "e \<noteq> ''.''" "e \<noteq> ''..''" by auto
    ultimately show ?thesis using a assms(3) by simp
  next
    assume "e \<in> set (listing p f n) \<and> (p \<noteq> Windows \<longrightarrow> ends_with_ext p e)"
    then have "length n + length e + 20 < m" "\<not> list_ex (is_sep p) e" "e \<notin> {[], ''.'', ''..''}"
      using assms(5) by blast+
    then show ?thesis by simp
  qed
  then have "locate p out = [''plugins'', n, e]"
    using locate_segment [of p e ?d] locate_plugin_dir [OF plugin(2), of p] out dir_lengths [of p]
    by (simp add: snprintf_buf_fits)
  with plugin show ?thesis by blast
next
  case libary
  then show ?thesis using fallback_out [OF libary] locate_libary [OF assms(2), of p] assms(4) dir_lengths [of p]
    by (auto simp: snprintf_buf_fits)
qed

definition demo_fs :: fs where
  "demo_fs = \<lparr>fs_stat = (\<lambda>x. x = ''./plugins/cdrimex/cdrimex.so''),
     fs_readdir = (\<lambda>_. None), fs_findfirst = (\<lambda>_. [])\<rparr>"

theorem plugin_resolve_confined_witness:
  "plugin_resolve_path Posix demo_fs (Some ''cdrimex'') (Some 600) = (0, Some ''./plugins/cdrimex/cdrimex.so'')
   \<and> (plugin_name_is_safe (Some ''cdrimex'')
      \<and> (\<exists>e. locate Posix ''./plugins/cdrimex/cdrimex.so'' = [''plugins'', ''cdrimex'', e])
      \<or> prefix [''libary''] (locate Posix ''./plugins/cdrimex/cdrimex.so''))"
proof -
  have r: "plugin_resolve_path Posix demo_fs (Some ''cdrimex'') (Some 600)
     = (0, Some ''./plugins/cdrimex/cdrimex.so'')"
    by code_simp
  have l: "listing Posix demo_fs ''cdrimex'' = []" by code_simp
  show ?thesis
    using plugin_resolve_confined [OF r] r l by simp
qed

text \<open>The order of the search, for a safe name and a buffer that holds the candidates: first
  \<open>plugins/<name>/<name><ext>\<close>, then \<open>plugins/<name>/lib<name><ext>\<close>, then the first library the
  directory lists, then \<open>libary/<name><ext>\<close> and \<open>libary/lib<name><ext>\<close>; the call fails exactly
  when none of these exists.\<close>

theorem plugin_resolve_order:
  assumes "plugin_name_is_safe (Some n)" and "length n < 200" and "512 \<le> m" and "p \<noteq> Windows"
  shows "plugin_resolve_path p f (Some n) (Some m) =
    (let d = PLUGINS_DIR p @ PATH_SEP p @ n @ PATH_SEP p; l = LIBARY_DIR p @ PATH_SEP p;
         listed = (case fs_readdir f (PLUGINS_DIR p @ PATH_SEP p @ n) of None \<Rightarrow> []
                   | Some es \<Rightarrow> filter (ends_with_ext p) es)
     in if fs_stat f (d @ n @ FFI_EXT p) then (0, Some (d @ n @ FFI_EXT p))
        else if fs_stat f (d @ ''lib'' @ n @ FFI_EXT p) then (0, Some (d @ ''lib'' @ n @ FFI_EXT p))
        else if listed \<noteq> [] then (0, Some (snprintf_buf m (d @ hd listed)))
        else if fs_stat f (l @ n @ FFI_EXT p) then (0, Some (l @ n @ FFI_EXT p))
        else if fs_stat f (l @ ''lib'' @ n @ FFI_EXT p) then (0, Some (l @ ''lib'' @ n @ FFI_EXT p))
        else (-1, Some (l @ ''lib'' @ n @ FFI_EXT p)))"
proof -
  have n: "n \<noteq> []" using assms(1) by (simp add: plugin_name_is_safe_def)
  have find_filter: "List.find P xs = (case filter P xs of [] \<Rightarrow> None | x # _ \<Rightarrow> Some x)"
    for P and xs :: "string list"
    by (induction xs) auto
  have len: "length (LIBARY_DIR p) = 8" "length (PLUGINS_DIR p) = 9" "length (PATH_SEP p) = 1"
    using dir_lengths by auto
  have cand: "try_candidate f m c = (if fs_stat f c then Some c else None)"
    if "c \<noteq> []" "length c < 512" for c
    using that assms(3) by (simp add: try_candidate_def file_exists_def PLUGIN_PATH_MAX_def snprintf_buf_def)
  have lib: "libary_fallback p f n m =
     (let l = LIBARY_DIR p @ PATH_SEP p in
      if fs_stat f (l @ n @ FFI_EXT p) then (0, Some (l @ n @ FFI_EXT p))
      else if fs_stat f (l @ ''lib'' @ n @ FFI_EXT p) then (0, Some (l @ ''lib'' @ n @ FFI_EXT p))
      else (-1, Some (l @ ''lib'' @ n @ FFI_EXT p)))"
    using assms(2,3) dir_lengths [of p]
    by (simp add: libary_fallback_def file_exists_def snprintf_buf_def Let_def)
  show ?thesis
    using assms n dir_lengths [of p]
    by (auto simp: plugin_resolve_path_def find_library_in_dir_def scan_dir_def cand lib len
        PLUGIN_PATH_MAX_def Let_def find_filter split: option.splits list.splits)
qed

theorem plugin_resolve_order_witness:
  "plugin_resolve_path Posix (demo_fs\<lparr>fs_stat := \<lambda>_. False,
       fs_readdir := \<lambda>_. Some [''..'', ''readme'', ''x.so'', ''y.so'']\<rparr>) (Some ''cdb'') (Some 600)
     = (0, Some ''./plugins/cdb/x.so'')
   \<and> plugin_resolve_path Posix (demo_fs\<lparr>fs_stat := \<lambda>_. False\<rparr>) (Some ''cdb'') (Some 600)
     = (-1, Some ''./libary/libcdb.so'')"
proof -
  have s: "plugin_name_is_safe (Some ''cdb'')" by code_simp
  show ?thesis
    by (subst (1 2) plugin_resolve_order [OF s])
       (simp_all add: demo_fs_def platform_defs ends_with_ext_def snprintf_buf_def)
qed

end
