(* ===== verification/MgJson.thy ===== *)
theory MgJson
  imports MgStr
begin

text \<open>
  The JSON reader of the embedded HTTP library (crates/mongoose/mongoose.c, section
  src/json.c): \<open>mg_json_get\<close>, which finds the token a path names by one pass over the text,
  and the typed readers on top of it. Every JSON command of the WebSocket protocol and every
  plugin answer of the SSE endpoint is read with it.

  The scanner is one \<open>step\<close> per character with the C function's local variables in a record;
  \<open>nesting\<close> is the C array \<open>nesting[]\<close> as a stack, so \<open>depth\<close> is its length. A read of
  \<open>nesting[-1]\<close> would be the result \<open>Undefined\<close>, which \<open>mg_json_get_defined\<close> excludes.
  The lemmas show that a token found lies inside the text, that reading a string undoes
  escaping it, and (\<open>scan_key_value\<close> and its relatives) how the scanner walks over the
  objects that the program itself prints.
\<close>

section \<open>Escapes and strings\<close>

definition escapeseq :: "bool \<Rightarrow> string" where
  "escapeseq esc =
     (if esc then [CHR 0x08, CHR 0x0C, LF, CR, TAB, BSL, DQ]
      else ''bfnrt'' @ [BSL, DQ])"

text \<open>\<open>json_esc\<close>: 0 (NUL) when c is not in the table.\<close>

definition json_esc :: "char \<Rightarrow> bool \<Rightarrow> char" where
  "json_esc c esc =
     (case map_of (zip (escapeseq esc) (escapeseq (\<not> esc))) c of
        Some d \<Rightarrow> d
      | None \<Rightarrow> NUL)"

text \<open>\<open>mg_pass_string\<close>: the offset of the closing quote; \<open>None\<close> is \<open>MG_JSON_INVALID\<close>.\<close>

fun mg_pass_string :: "string \<Rightarrow> nat option" where
  "mg_pass_string [] = None"
| "mg_pass_string (c # cs) =
     (if c = BSL \<and> cs \<noteq> [] \<and> json_esc (hd cs) True \<noteq> NUL
      then map_option (\<lambda>n. Suc (Suc n)) (mg_pass_string (tl cs))
      else if c = NUL then None
      else if c = DQ then Some 0
      else map_option Suc (mg_pass_string cs))"

section \<open>Numbers\<close>

text \<open>
  \<open>mg_atod\<close> computes in the machine's double arithmetic, which is a parameter: the
  operations the code uses and the conversion \<open>(long) d\<close>. The number of characters it
  consumes does not depend on them.
\<close>

record 'd fpu =
  fp_of_int :: "int \<Rightarrow> 'd"
  fp_tenth :: 'd
  fp_add :: "'d \<Rightarrow> 'd \<Rightarrow> 'd"
  fp_mul :: "'d \<Rightarrow> 'd \<Rightarrow> 'd"
  fp_div :: "'d \<Rightarrow> 'd \<Rightarrow> 'd"
  fp_to_long :: "'d \<Rightarrow> int"

fun atod_decimal :: "'d fpu \<Rightarrow> 'd \<Rightarrow> string \<Rightarrow> 'd \<times> string" where
  "atod_decimal f d [] = (d, [])"
| "atod_decimal f d (c # cs) =
     (if isdigit c
      then atod_decimal f (fp_add f (fp_mul f d (fp_of_int f 10)) (fp_of_int f (int (digit_val c)))) cs
      else (d, c # cs))"

fun atod_fraction :: "'d fpu \<Rightarrow> 'd \<Rightarrow> 'd \<Rightarrow> string \<Rightarrow> 'd \<times> string" where
  "atod_fraction f frac base [] = (frac, [])"
| "atod_fraction f frac base (c # cs) =
     (if isdigit c
      then atod_fraction f (fp_add f frac (fp_mul f base (fp_of_int f (int (digit_val c)))))
             (fp_div f base (fp_of_int f 10)) cs
      else (frac, c # cs))"

fun atod_exponent :: "nat \<Rightarrow> string \<Rightarrow> nat \<times> string" where
  "atod_exponent e [] = (e, [])"
| "atod_exponent e (c # cs) =
     (if isdigit c \<and> e < 308 then atod_exponent (e * 10 + digit_val c) cs else (e, c # cs))"

definition atod_sign :: "string \<Rightarrow> int \<times> string" where
  "atod_sign p = (case p of [] \<Rightarrow> (1, [])
     | c # cs \<Rightarrow> if c = CHR ''-'' then (-1, cs) else if c = CHR ''+'' then (1, cs) else (1, p))"

definition mg_atod :: "'d fpu \<Rightarrow> string \<Rightarrow> 'd \<times> nat" where
  "mg_atod f p =
     (let (sign, p1) = atod_sign p;
          (d1, p2) = atod_decimal f (fp_of_int f 0) p1;
          d2 = fp_mul f d1 (fp_of_int f sign);
          (d3, p3) =
            (case p2 of [] \<Rightarrow> (d2, p2)
             | c # cs \<Rightarrow>
                 if c = CHR ''.'' then
                   (let (frac, r) = atod_fraction f (fp_of_int f 0) (fp_tenth f) cs
                    in (fp_add f d2 (fp_mul f frac (fp_of_int f sign)), r))
                 else (d2, p2));
          (d4, p4) =
            (case p3 of [] \<Rightarrow> (d3, p3)
             | c # cs \<Rightarrow>
                 if c = CHR ''e'' \<or> c = CHR ''E'' then
                   (let (minus, q1) = (case cs of x # xs \<Rightarrow> if x = CHR ''-'' then (True, xs) else (False, cs)
                                       | [] \<Rightarrow> (False, []));
                        q2 = (case q1 of x # xs \<Rightarrow> if x = CHR ''+'' then xs else q1 | [] \<Rightarrow> []);
                        (e, q3) = atod_exponent 0 q2
                    in (if minus then ((\<lambda>d. fp_div f d (fp_of_int f 10)) ^^ e) d3
                        else ((\<lambda>d. fp_mul f d (fp_of_int f 10)) ^^ e) d3, q3))
                 else (d3, p3))
      in (d4, length p - length p4))"

definition no_fpu :: "unit fpu" where
  "no_fpu = \<lparr>fp_of_int = (\<lambda>_. ()), fp_tenth = (), fp_add = (\<lambda>_ _. ()), fp_mul = (\<lambda>_ _. ()),
     fp_div = (\<lambda>_ _. ()), fp_to_long = (\<lambda>_. 0)\<rparr>"

definition mg_atod_len :: "string \<Rightarrow> nat" where
  "mg_atod_len p = snd (mg_atod no_fpu p)"

section \<open>The scanner\<close>

datatype json_res = Found nat nat | TooDeep | Invalid | NotFound | Undefined

datatype expecting = S_VALUE | S_KEY | S_COLON | S_COMMA_OR_EOO

record jstate =
  expecting :: expecting
  nesting :: string
  jpos :: nat      \<comment> \<open>offset of the token looked for\<close>
  ed :: nat        \<comment> \<open>expected depth\<close>
  ppos :: nat      \<comment> \<open>current position in the path\<close>
  ci :: int        \<comment> \<open>current index in the array\<close>
  ei :: int        \<comment> \<open>expected index in the array\<close>

definition MG_JSON_MAX_DEPTH :: nat where "MG_JSON_MAX_DEPTH = 30"

text \<open>\<open>path[i]\<close> of a C string: the NUL at its end.\<close>

definition cat :: "string \<Rightarrow> nat \<Rightarrow> char" where
  "cat path i = (if i < length path then path ! i else NUL)"

abbreviation depth :: "jstate \<Rightarrow> nat" where "depth st \<equiv> length (nesting st)"

text \<open>The macro \<open>MG_CHECKRET\<close> at offset i.\<close>

definition check_ret :: "string \<Rightarrow> jstate \<Rightarrow> nat \<Rightarrow> json_res option" where
  "check_ret path st i =
     (if depth st = ed st \<and> cat path (ppos st) = NUL \<and> ci st = ei st
      then Some (Found (jpos st) (i - jpos st + 1)) else None)"

text \<open>The macro \<open>MG_EOO\<close>: end of an object or array.\<close>

definition end_of_object :: "string \<Rightarrow> jstate \<Rightarrow> nat \<Rightarrow> char \<Rightarrow> json_res + jstate" where
  "end_of_object path st i c =
     (if depth st = ed st \<and> ci st \<noteq> ei st then Inl NotFound
      else case nesting st of
        [] \<Rightarrow> Inl Undefined
      | br # rest \<Rightarrow>
          if byte c \<noteq> byte br + 2 then Inl Invalid
          else (let st' = st\<lparr>nesting := rest\<rparr>
                in case check_ret path st' i of Some r \<Rightarrow> Inl r | None \<Rightarrow> Inr st'))"

definition bump_index :: "jstate \<Rightarrow> jstate" where
  "bump_index st = (if depth st = ed st \<and> 0 \<le> ei st then st\<lparr>ci := ci st + 1\<rparr> else st)"

text \<open>The digits of an index in the path, up to \<open>]\<close> or the end.\<close>

fun path_index :: "string \<Rightarrow> int \<Rightarrow> nat \<Rightarrow> int \<times> nat" where
  "path_index [] acc n = (acc, n)"
| "path_index (c # cs) acc n =
     (if c = CHR '']'' then (acc, n)
      else path_index cs (acc * 10 + (int (byte c) - 48)) (Suc n))"

text \<open>What follows a complete value that ends at offset i: check, count, expect a comma.\<close>

definition after_value :: "string \<Rightarrow> jstate \<Rightarrow> nat \<Rightarrow> nat \<Rightarrow> json_res + (jstate \<times> nat)" where
  "after_value path st i adv =
     (case check_ret path st i of
        Some r \<Rightarrow> Inl r
      | None \<Rightarrow> Inr ((bump_index st)\<lparr>expecting := S_COMMA_OR_EOO\<rparr>, adv))"

definition step_value :: "string \<Rightarrow> jstate \<Rightarrow> nat \<Rightarrow> char \<Rightarrow> string \<Rightarrow> json_res + (jstate \<times> nat)" where
  "step_value path st0 i c cs =
     (let st = (if depth st0 = ed st0 then st0\<lparr>jpos := i\<rparr> else st0)
      in if c = CHR ''{'' then
           (if depth st \<ge> MG_JSON_MAX_DEPTH then Inl TooDeep
            else (let st1 = (if depth st = ed st \<and> cat path (ppos st) = CHR ''.'' \<and> ci st = ei st
                             then st\<lparr>ed := ed st + 1, ppos := ppos st + 1, ci := -1, ei := -1\<rparr>
                             else st)
                  in Inr (st1\<lparr>nesting := c # nesting st1, expecting := S_KEY\<rparr>, 0)))
         else if c = CHR ''['' then
           (if depth st \<ge> MG_JSON_MAX_DEPTH then Inl TooDeep
            else (let st1 = (if depth st = ed st \<and> cat path (ppos st) = CHR ''['' \<and> ei st = ci st
                             then (let (idx, n) = path_index (drop (ppos st + 1) path) 0 0;
                                       p = ppos st + 1 + n
                                   in st\<lparr>ed := ed st + 1, ci := 0, ei := idx,
                                         ppos := (if cat path p \<noteq> NUL then p + 1 else p)\<rparr>)
                             else st)
                  in Inr (st1\<lparr>nesting := c # nesting st1\<rparr>, 0)))
         else if c = CHR '']'' \<and> 0 < depth st then
           (case end_of_object path st i c of
              Inl r \<Rightarrow> Inl r
            | Inr st' \<Rightarrow> after_value path st' i 0)
         else if take 4 (c # cs) = ''true'' \<or> take 4 (c # cs) = ''null'' then
           after_value path st (i + 3) 3
         else if take 5 (c # cs) = ''false'' then after_value path st (i + 4) 4
         else if c = CHR ''-'' \<or> isdigit c then
           (let numlen = mg_atod_len (c # cs)
            in after_value path st (i + (numlen - 1)) (numlen - 1))
         else if c = DQ then
           (case mg_pass_string cs of
              None \<Rightarrow> Inl Invalid
            | Some n \<Rightarrow> after_value path st (i + (n + 1)) (n + 1))
         else Inl Invalid)"

definition step_key :: "string \<Rightarrow> jstate \<Rightarrow> nat \<Rightarrow> char \<Rightarrow> string \<Rightarrow> json_res + (jstate \<times> nat)" where
  "step_key path st i c cs =
     (if c = DQ then
        (case mg_pass_string cs of
           None \<Rightarrow> Inl Invalid
         | Some n \<Rightarrow>
             if n \<ge> length cs then Inl NotFound
             else if depth st < ed st then Inl NotFound
             else if depth st = ed st \<and> cat path (ppos st - 1) \<noteq> CHR ''.'' then Inl NotFound
             else (let st1 = (if depth st = ed st \<and> cat path (ppos st - 1) = CHR ''.''
                                \<and> strncmp_eq (take n cs) (drop (ppos st) path) n
                                \<and> cat path (ppos st + n) \<in> {NUL, CHR ''.'', CHR ''[''}
                              then st\<lparr>ppos := ppos st + n\<rparr> else st)
                   in Inr (st1\<lparr>expecting := S_COLON\<rparr>, n + 1)))
      else if c = CHR ''}'' then
        (case end_of_object path st i c of
           Inl r \<Rightarrow> Inl r
         | Inr st' \<Rightarrow> Inr ((bump_index st')\<lparr>expecting := S_COMMA_OR_EOO\<rparr>, 0))
      else Inl Invalid)"

definition step_comma :: "string \<Rightarrow> jstate \<Rightarrow> nat \<Rightarrow> char \<Rightarrow> json_res + (jstate \<times> nat)" where
  "step_comma path st i c =
     (case nesting st of
        [] \<Rightarrow> Inl Invalid
      | br # _ \<Rightarrow>
          if c = CHR '','' then
            Inr (st\<lparr>expecting := (if br = CHR ''{'' then S_KEY else S_VALUE)\<rparr>, 0)
          else if c = CHR '']'' \<or> c = CHR ''}'' then
            (if depth st = ed st \<and> c = CHR ''}'' \<and> cat path (ppos st - 1) = CHR ''.'' then Inl NotFound
             else if depth st = ed st \<and> c = CHR '']'' \<and> cat path (ppos st - 1) = CHR '','' then Inl NotFound
             else (case end_of_object path st i c of
                     Inl r \<Rightarrow> Inl r
                   | Inr st' \<Rightarrow> Inr (bump_index st', 0)))
          else Inl Invalid)"

definition json_step :: "string \<Rightarrow> jstate \<Rightarrow> nat \<Rightarrow> char \<Rightarrow> string \<Rightarrow> json_res + (jstate \<times> nat)" where
  "json_step path st i c cs =
     (case expecting st of
        S_VALUE \<Rightarrow> step_value path st i c cs
      | S_KEY \<Rightarrow> step_key path st i c cs
      | S_COLON \<Rightarrow> if c = CHR '':'' then Inr (st\<lparr>expecting := S_VALUE\<rparr>, 0) else Inl Invalid
      | S_COMMA_OR_EOO \<Rightarrow> step_comma path st i c)"

definition json_ws :: "char \<Rightarrow> bool" where
  "json_ws c \<longleftrightarrow> c = CHR '' '' \<or> c = TAB \<or> c = LF \<or> c = CR"

text \<open>The \<open>for\<close> loop from offset i on; the last argument is the text from i to its end.\<close>

function json_scan :: "string \<Rightarrow> jstate \<Rightarrow> nat \<Rightarrow> string \<Rightarrow> json_res" where
  "json_scan path st i [] = NotFound"
| "json_scan path st i (c # cs) =
     (if json_ws c then json_scan path st (Suc i) cs
      else case json_step path st i c cs of
        Inl r \<Rightarrow> r
      | Inr (st', adv) \<Rightarrow> json_scan path st' (Suc i + adv) (drop adv cs))"
  by pat_completeness auto
termination
  by (relation "measure (\<lambda>(path, st, i, s). length s)") auto

definition json_init :: jstate where
  "json_init = \<lparr>expecting = S_VALUE, nesting = [], jpos = 0, ed = 0, ppos = 1, ci = -1, ei = -1\<rparr>"

definition mg_json_get :: "string \<Rightarrow> string \<Rightarrow> json_res" where
  "mg_json_get json path =
     (if cat path 0 \<noteq> CHR ''$'' then Invalid else json_scan path json_init 0 json)"

section \<open>Typed readers\<close>

text \<open>\<open>None\<close> stands for the NULL \<open>buf\<close>.\<close>

definition mg_json_get_tok :: "string \<Rightarrow> string \<Rightarrow> string option" where
  "mg_json_get_tok json path =
     (case mg_json_get json path of
        Found j n \<Rightarrow> Some (take n (drop j json))
      | _ \<Rightarrow> None)"

definition mg_json_get_num :: "'d fpu \<Rightarrow> string \<Rightarrow> string \<Rightarrow> 'd option" where
  "mg_json_get_num f json path =
     (case mg_json_get json path of
        Found j n \<Rightarrow>
          (let c = json ! j in
           if c = CHR ''-'' \<or> isdigit c then Some (fst (mg_atod f (take n (drop j json)))) else None)
      | _ \<Rightarrow> None)"

definition mg_json_get_long :: "'d fpu \<Rightarrow> string \<Rightarrow> string \<Rightarrow> int \<Rightarrow> int" where
  "mg_json_get_long f json path dflt =
     (case mg_json_get_num f json path of Some d \<Rightarrow> fp_to_long f d | None \<Rightarrow> dflt)"

text \<open>
  \<open>mg_json_unescape\<close> with room for n bytes: \<open>None\<close> is the \<open>false\<close> return (a bad escape, or
  no room left for the final NUL).
\<close>

fun mg_json_unescape :: "string \<Rightarrow> nat \<Rightarrow> string option" where
  "mg_json_unescape s 0 = None"
| "mg_json_unescape [] (Suc n) = Some []"
| "mg_json_unescape (c # cs) (Suc n) =
     (if c = BSL \<and> 5 \<le> length cs \<and> hd cs = CHR ''u'' then
        (case mg_str_to_num (take 4 (drop 1 cs)) 16 1 of
           None \<Rightarrow> None
         | Some v \<Rightarrow> map_option ((#) (char_of v)) (mg_json_unescape (drop 5 cs) n))
      else if c = BSL \<and> cs \<noteq> [] then
        (let d = json_esc (hd cs) False
         in if d = NUL then None
            else map_option ((#) d) (mg_json_unescape (tl cs) n))
      else map_option ((#) c) (mg_json_unescape cs n))"

text \<open>
  \<open>mg_json_get_str\<close>, as the C string the caller sees; \<open>alloc\<close> says whether \<open>mg_calloc\<close>
  succeeds.
\<close>

definition mg_json_get_str :: "bool \<Rightarrow> string \<Rightarrow> string \<Rightarrow> string option" where
  "mg_json_get_str alloc json path =
     (case mg_json_get json path of
        Found j n \<Rightarrow>
          if 1 < n \<and> json ! j = DQ \<and> alloc
          then map_option cstr (mg_json_unescape (take (n - 2) (drop (j + 1) json)) n)
          else None
      | _ \<Rightarrow> None)"

section \<open>A token found lies inside the text\<close>

lemma mg_pass_string_closes:
  "mg_pass_string cs = Some n \<Longrightarrow> n < length cs \<and> cs ! n = DQ"
proof (induction cs arbitrary: n rule: mg_pass_string.induct)
  case 1
  then show ?case by simp
next
  case (2 c cs)
  show ?case
  proof (cases "c = BSL \<and> cs \<noteq> [] \<and> json_esc (hd cs) True \<noteq> NUL")
    case True
    with 2 obtain m where "n = Suc (Suc m)" "m < length (tl cs) \<and> tl cs ! m = DQ" by auto
    with True show ?thesis by (cases cs) auto
  next
    case False
    with 2 show ?thesis by (auto split: if_splits)
  qed
qed

lemma atod_decimal_rest: "length (snd (atod_decimal f d s)) \<le> length s"
  by (induction f d s rule: atod_decimal.induct) auto

lemma atod_fraction_rest: "length (snd (atod_fraction f x b s)) \<le> length s"
  by (induction f x b s rule: atod_fraction.induct) auto

lemma atod_exponent_rest: "length (snd (atod_exponent e s)) \<le> length s"
  by (induction e s rule: atod_exponent.induct) auto

lemma mg_atod_len_le: "mg_atod_len p \<le> length p"
  by (simp add: mg_atod_len_def mg_atod_def Let_def split: prod.splits)

definition json_inv :: "jstate \<Rightarrow> nat \<Rightarrow> bool" where
  "json_inv st i \<longleftrightarrow> jpos st \<le> i \<and> depth st \<le> MG_JSON_MAX_DEPTH \<and>
     (expecting st = S_KEY \<longrightarrow> nesting st \<noteq> [])"

definition res_within :: "json_res \<Rightarrow> nat \<Rightarrow> bool" where
  "res_within r len \<longleftrightarrow> r \<noteq> Undefined \<and> (\<forall>j n. r = Found j n \<longrightarrow> 1 \<le> n \<and> j + n \<le> len)"

lemma res_within_simps [simp]:
  "res_within Invalid len" "res_within NotFound len" "res_within TooDeep len"
  "res_within (Found j n) len \<longleftrightarrow> 1 \<le> n \<and> j + n \<le> len"
  "\<not> res_within Undefined len"
  by (auto simp: res_within_def)

lemma check_ret_within:
  "check_ret path st i = Some r \<Longrightarrow> jpos st \<le> i \<Longrightarrow> i < len \<Longrightarrow> res_within r len"
  by (auto simp: check_ret_def split: if_splits)

lemma end_of_object_within:
  assumes "nesting st \<noteq> []" and "jpos st \<le> i" and "i < len"
  shows "end_of_object path st i c = Inl r \<Longrightarrow> res_within r len"
    and "end_of_object path st i c = Inr st' \<Longrightarrow>
      jpos st' = jpos st \<and> nesting st' = tl (nesting st) \<and> expecting st' = expecting st"
  using assms
  by (auto simp: end_of_object_def Let_def split: if_splits list.splits option.splits
      dest: check_ret_within)

lemma bump_index_sel [simp]:
  "jpos (bump_index st) = jpos st" "nesting (bump_index st) = nesting st"
  "expecting (bump_index st) = expecting st" "ed (bump_index st) = ed st"
  "ppos (bump_index st) = ppos st" "ei (bump_index st) = ei st"
  by (auto simp: bump_index_def)

definition step_ok :: "json_res + (jstate \<times> nat) \<Rightarrow> nat \<Rightarrow> nat \<Rightarrow> bool" where
  "step_ok x i l \<longleftrightarrow> (case x of
     Inl r \<Rightarrow> res_within r (Suc i + l)
   | Inr (st', adv) \<Rightarrow> adv \<le> l \<and> json_inv st' (Suc i + adv))"

lemma step_ok_simps [simp]:
  "step_ok (Inl r) i l \<longleftrightarrow> res_within r (Suc i + l)"
  "step_ok (Inr (st', adv)) i l \<longleftrightarrow> adv \<le> l \<and> json_inv st' (Suc i + adv)"
  by (simp_all add: step_ok_def)

lemma step_ok_if:
  "(b \<Longrightarrow> step_ok x i l) \<Longrightarrow> (\<not> b \<Longrightarrow> step_ok y i l) \<Longrightarrow> step_ok (if b then x else y) i l"
  by simp

lemma step_ok_option:
  "(x = None \<Longrightarrow> step_ok y i l) \<Longrightarrow> (\<And>n. x = Some n \<Longrightarrow> step_ok (f n) i l) \<Longrightarrow>
   step_ok (case x of None \<Rightarrow> y | Some n \<Rightarrow> f n) i l"
  by (cases x) auto

lemma after_value_ok:
  assumes "jpos st \<le> i" and "adv \<le> l" and "depth st \<le> MG_JSON_MAX_DEPTH"
  shows "step_ok (after_value path st (i + adv) adv) i l"
proof (cases "check_ret path st (i + adv)")
  case None
  with assms show ?thesis by (simp add: after_value_def json_inv_def)
next
  case (Some r)
  then have "res_within r (Suc i + l)" by (rule check_ret_within) (use assms in simp_all)
  with Some show ?thesis by (simp add: after_value_def)
qed

lemma after_close_ok:
  assumes "nesting st \<noteq> []" and "jpos st \<le> i" and "depth st \<le> MG_JSON_MAX_DEPTH"
    and "\<And>st'. jpos st' \<le> i \<Longrightarrow> depth st' \<le> MG_JSON_MAX_DEPTH \<Longrightarrow> expecting st' = expecting st \<Longrightarrow>
      step_ok (f st') i l"
  shows "step_ok (case end_of_object path st i c of Inl r \<Rightarrow> Inl r | Inr st' \<Rightarrow> f st') i l"
proof (cases "end_of_object path st i c")
  case (Inl r)
  with end_of_object_within(1) [OF assms(1,2), of "Suc i + l"] show ?thesis by simp
next
  case (Inr st')
  with end_of_object_within(2) [OF assms(1,2), of "Suc i"] assms show ?thesis by auto
qed

lemma take_eq_length: "take n xs = ys \<Longrightarrow> length ys \<le> length xs"
  by (auto simp: min_def split: if_splits)

lemma step_value_ok:
  assumes "json_inv st i" and "expecting st = S_VALUE"
  shows "step_ok (step_value path st i c cs) i (length cs)"
proof -
  define st0 where "st0 = (if depth st = ed st then st\<lparr>jpos := i\<rparr> else st)"
  have j: "jpos st0 \<le> i" and d: "depth st0 \<le> MG_JSON_MAX_DEPTH"
    using assms by (auto simp: json_inv_def st0_def)
  have num: "mg_atod_len (c # cs) - 1 \<le> length cs"
    using mg_atod_len_le [of "c # cs"] by simp
  note ok = after_value_ok [OF j _ d, of _ "length cs" path]
  show ?thesis
    unfolding step_value_def Let_def st0_def [symmetric]
  proof (intro step_ok_if step_ok_option)
    assume "\<not> MG_JSON_MAX_DEPTH \<le> depth st0"
    then show "step_ok (Inr ((if depth st0 = ed st0 \<and> cat path (ppos st0) = CHR ''.'' \<and> ci st0 = ei st0
          then st0\<lparr>ed := ed st0 + 1, ppos := ppos st0 + 1, ci := - 1, ei := - 1\<rparr> else st0)
        \<lparr>nesting := c # nesting (if depth st0 = ed st0 \<and> cat path (ppos st0) = CHR ''.'' \<and> ci st0 = ei st0
          then st0\<lparr>ed := ed st0 + 1, ppos := ppos st0 + 1, ci := - 1, ei := - 1\<rparr> else st0),
         expecting := S_KEY\<rparr>, 0)) i (length cs)"
      using j by (simp add: json_inv_def)
  next
    assume "take 4 (c # cs) = ''true'' \<or> take 4 (c # cs) = ''null''"
    then have "3 \<le> length cs" by (auto dest!: take_eq_length)
    then show "step_ok (after_value path st0 (i + 3) 3) i (length cs)" by (rule ok)
  next
    assume "take 5 (c # cs) = ''false''"
    then have "4 \<le> length cs" by (auto dest!: take_eq_length)
    then show "step_ok (after_value path st0 (i + 4) 4) i (length cs)" by (rule ok)
  next
    show "step_ok (after_value path st0 (i + (mg_atod_len (c # cs) - 1)) (mg_atod_len (c # cs) - 1)) i (length cs)"
      using num by (rule ok)
  next
    fix n assume "mg_pass_string cs = Some n"
    then have "n + 1 \<le> length cs" using mg_pass_string_closes by force
    then show "step_ok (after_value path st0 (i + (n + 1)) (n + 1)) i (length cs)" by (rule ok)
  next
    assume "c = CHR '']'' \<and> 0 < depth st0"
    then have "nesting st0 \<noteq> []" by auto
    then show "step_ok (case end_of_object path st0 i c of Inl r \<Rightarrow> Inl r
        | Inr st' \<Rightarrow> after_value path st' i 0) i (length cs)"
      by (rule after_close_ok [OF _ j d]) (use after_value_ok [where adv = 0] in simp)
  qed (use j d in \<open>simp_all add: json_inv_def split: prod.splits\<close>)
qed

lemma step_key_ok:
  assumes "json_inv st i" and "expecting st = S_KEY"
  shows "step_ok (step_key path st i c cs) i (length cs)"
proof -
  have nn: "nesting st \<noteq> []" and j: "jpos st \<le> i" and d: "depth st \<le> MG_JSON_MAX_DEPTH"
    using assms by (auto simp: json_inv_def)
  show ?thesis
    unfolding step_key_def
  proof (intro step_ok_if step_ok_option)
    fix n assume "\<not> length cs \<le> n"
    then show "step_ok (let st1 = (if depth st = ed st \<and> cat path (ppos st - 1) = CHR ''.''
          \<and> strncmp_eq (take n cs) (drop (ppos st) path) n
          \<and> cat path (ppos st + n) \<in> {NUL, CHR ''.'', CHR ''[''}
        then st\<lparr>ppos := ppos st + n\<rparr> else st)
      in Inr (st1\<lparr>expecting := S_COLON\<rparr>, n + 1)) i (length cs)"
      using j d by (simp add: Let_def json_inv_def)
  next
    show "step_ok (case end_of_object path st i c of Inl r \<Rightarrow> Inl r
        | Inr st' \<Rightarrow> Inr ((bump_index st')\<lparr>expecting := S_COMMA_OR_EOO\<rparr>, 0)) i (length cs)"
      by (rule after_close_ok [OF nn j d]) (simp add: json_inv_def)
  qed simp_all
qed

lemma step_comma_ok:
  assumes "json_inv st i" and "expecting st = S_COMMA_OR_EOO"
  shows "step_ok (step_comma path st i c) i l"
proof (cases "nesting st")
  case Nil
  then show ?thesis by (simp add: step_comma_def)
next
  case (Cons a as)
  then have nn: "nesting st \<noteq> []" by simp
  have j: "jpos st \<le> i" and d: "depth st \<le> MG_JSON_MAX_DEPTH"
    using assms by (auto simp: json_inv_def)
  have close: "step_ok (case end_of_object path st i c of Inl r \<Rightarrow> Inl r
      | Inr st' \<Rightarrow> Inr (bump_index st', 0)) i l"
    by (rule after_close_ok [OF nn j d]) (use assms(2) in \<open>simp add: json_inv_def\<close>)
  show ?thesis
    unfolding step_comma_def Cons list.case
    by (intro step_ok_if close) (use Cons j d in \<open>simp_all add: json_inv_def\<close>)
qed

lemma json_step_ok:
  assumes "json_inv st i"
  shows "step_ok (json_step path st i c cs) i (length cs)"
  using assms step_value_ok step_key_ok step_comma_ok
  by (cases "expecting st") (auto simp: json_step_def step_ok_def json_inv_def)

lemma json_scan_within:
  "json_inv st i \<Longrightarrow> res_within (json_scan path st i s) (i + length s)"
proof (induction path st i s rule: json_scan.induct)
  case (1 path st i)
  then show ?case by simp
next
  case (2 path st i c cs)
  show ?case
  proof (cases "json_ws c")
    case True
    with 2 show ?thesis by (simp add: json_inv_def)
  next
    case False
    have ok: "step_ok (json_step path st i c cs) i (length cs)"
      using "2.prems" by (rule json_step_ok)
    show ?thesis
    proof (cases "json_step path st i c cs")
      case (Inl r)
      with ok False show ?thesis by (simp add: step_ok_def)
    next
      case (Inr p)
      then obtain st' adv where p: "json_step path st i c cs = Inr (st', adv)" by (cases p) auto
      with ok have "adv \<le> length cs" and "json_inv st' (Suc i + adv)"
        by (auto simp: step_ok_def)
      with "2.IH"(2) [OF False p refl] False p show ?thesis by simp
    qed
  qed
qed

lemma json_inv_init: "json_inv json_init 0"
  by (simp add: json_inv_def json_init_def)

lemma mg_json_get_within: "res_within (mg_json_get json path) (length json)"
  using json_scan_within [OF json_inv_init, of path json] by (simp add: mg_json_get_def)

lemma mg_json_get_defined [simp]: "mg_json_get json path \<noteq> Undefined"
  using mg_json_get_within [of json path] by (auto simp: res_within_def)

lemma mg_json_get_Found:
  "mg_json_get json path = Found j n \<Longrightarrow> 1 \<le> n \<and> j + n \<le> length json"
  using mg_json_get_within [of json path] by (simp add: res_within_def)

lemma length_mg_json_get_tok: "mg_json_get_tok json path = Some t \<Longrightarrow> length t \<le> length json"
  using mg_json_get_Found [of json path]
  by (auto simp: mg_json_get_tok_def split: json_res.splits)

section \<open>How the scanner walks over a printed object\<close>

text \<open>A string without bytes that the scanner treats specially.\<close>

definition plain :: "string \<Rightarrow> bool" where
  "plain s \<longleftrightarrow> BSL \<notin> set s \<and> DQ \<notin> set s \<and> NUL \<notin> set s"

text \<open>The text s reads as the inside of a JSON string: its closing quote is found where it is.\<close>

definition quotable :: "string \<Rightarrow> bool" where
  "quotable s \<longleftrightarrow> (\<forall>r. mg_pass_string (s @ DQ # r) = Some (length s))"

lemma quotable_pass: "quotable s \<Longrightarrow> mg_pass_string (s @ DQ # r) = Some (length s)"
  by (simp add: quotable_def)

lemma quotable_plain: "plain s \<Longrightarrow> quotable s"
  unfolding quotable_def
proof (induction s)
  case Nil
  then show ?case by simp
next
  case (Cons c cs)
  then have "plain cs" "c \<noteq> BSL" "c \<noteq> DQ" "c \<noteq> NUL" by (auto simp: plain_def)
  with Cons.IH show ?case by simp
qed

lemma quotable_Nil [simp]: "quotable []"
  by (rule quotable_plain) (simp add: plain_def)

text \<open>The scanner inside the top-level object, looking for \<open>$.k\<close> (e = 1) or \<open>$\<close> (e = 0).\<close>

definition obj_st :: "nat \<Rightarrow> nat \<Rightarrow> nat \<Rightarrow> expecting \<Rightarrow> jstate" where
  "obj_st e p j x = \<lparr>expecting = x, nesting = ''{'', jpos = j, ed = e, ppos = p, ci = -1, ei = -1\<rparr>"

lemma obj_st_sel [simp]:
  "expecting (obj_st e p j x) = x" "nesting (obj_st e p j x) = ''{''" "jpos (obj_st e p j x) = j"
  "ed (obj_st e p j x) = e" "ppos (obj_st e p j x) = p" "ci (obj_st e p j x) = -1"
  "ei (obj_st e p j x) = -1"
  by (simp_all add: obj_st_def)

lemma obj_st_upd [simp]:
  "(obj_st e p j x)\<lparr>expecting := y\<rparr> = obj_st e p j y"
  "(obj_st e p j x)\<lparr>jpos := k\<rparr> = obj_st e p k x"
  "(obj_st e p j x)\<lparr>ppos := q\<rparr> = obj_st e q j x"
  "bump_index (obj_st e p j x) = obj_st e p j x"
  by (simp_all add: obj_st_def bump_index_def)

lemma scan_open:
  "json_scan (CHR ''$'' # CHR ''.'' # k) json_init 0 (CHR ''{'' # r) =
     json_scan (CHR ''$'' # CHR ''.'' # k) (obj_st (Suc 0) (Suc (Suc 0)) 0 S_KEY) 1 r"
  "json_scan ''$'' json_init 0 (CHR ''{'' # r) = json_scan ''$'' (obj_st 0 (Suc 0) 0 S_KEY) 1 r"
  by (simp_all add: json_ws_def json_step_def step_value_def json_init_def cat_def
      MG_JSON_MAX_DEPTH_def obj_st_def numeral_2_eq_2)

lemma scan_colon:
  "json_scan path (obj_st e p j S_COLON) i (CHR '':'' # r) =
     json_scan path (obj_st e p j S_VALUE) (Suc i) r"
  by (simp add: json_ws_def json_step_def)

definition key_misses :: "string \<Rightarrow> nat \<Rightarrow> nat \<Rightarrow> string \<Rightarrow> bool" where
  "key_misses path e p key \<longleftrightarrow> e = 0 \<or>
     (e = Suc 0 \<and> cat path (p - 1) = CHR ''.'' \<and> take (length key) (drop p path) \<noteq> key)"

lemma scan_key_miss:
  assumes "plain key" and "key_misses path e p key"
  shows "json_scan path (obj_st e p j S_KEY) i (DQ # key @ DQ # CHR '':'' # r) =
     json_scan path (obj_st e p j S_VALUE) (i + length key + 3) r"
proof -
  have ps: "mg_pass_string (key @ DQ # CHR '':'' # r) = Some (length key)"
    using quotable_plain [OF assms(1)] by (rule quotable_pass)
  have "json_scan path (obj_st e p j S_KEY) i (DQ # key @ DQ # CHR '':'' # r) =
      json_scan path (obj_st e p j S_COLON) (i + length key + 2) (CHR '':'' # r)"
    using ps assms(2)
    by (auto simp: json_ws_def json_step_def step_key_def Let_def key_misses_def strncmp_eq_take)
  then show ?thesis by (simp only: scan_colon) (simp add: eval_nat_numeral)
qed

lemma scan_key_hit:
  assumes "plain k" and "path = CHR ''$'' # CHR ''.'' # k"
  shows "json_scan path (obj_st (Suc 0) (Suc (Suc 0)) j S_KEY) i (DQ # k @ DQ # CHR '':'' # r) =
     json_scan path (obj_st (Suc 0) (Suc (Suc (length k))) j S_VALUE) (i + length k + 3) r"
proof -
  have ps: "mg_pass_string (k @ DQ # CHR '':'' # r) = Some (length k)"
    using quotable_plain [OF assms(1)] by (rule quotable_pass)
  have "json_scan path (obj_st (Suc 0) (Suc (Suc 0)) j S_KEY) i (DQ # k @ DQ # CHR '':'' # r) =
      json_scan path (obj_st (Suc 0) (Suc (Suc (length k))) j S_COLON) (i + length k + 2) (CHR '':'' # r)"
    using ps assms(2)
    by (simp add: json_ws_def json_step_def step_key_def Let_def strncmp_eq_take cat_def)
  then show ?thesis by (simp only: scan_colon) (simp add: eval_nat_numeral)
qed

text \<open>A value that is not the one looked for is passed over; the one looked for is returned.\<close>

definition capturing :: "string \<Rightarrow> nat \<Rightarrow> nat \<Rightarrow> bool" where
  "capturing path e p \<longleftrightarrow> e = Suc 0 \<and> cat path p = NUL"

lemma after_value_obj:
  "after_value path (obj_st e p j x) i adv =
     (if capturing path e p then Inl (Found j (i - j + 1)) else Inr (obj_st e p j S_COMMA_OR_EOO, adv))"
  by (simp add: after_value_def check_ret_def capturing_def)

lemma scan_string_value:
  assumes "quotable v"
  shows "json_scan path (obj_st e p j S_VALUE) i (DQ # v @ DQ # r) =
     (if capturing path e p then Found i (length v + 2)
      else json_scan path (obj_st e p (if e = Suc 0 then i else j) S_COMMA_OR_EOO) (i + length v + 2) r)"
  using quotable_pass [OF assms, of r]
  by (auto simp: json_ws_def json_step_def step_value_def Let_def after_value_obj isdigit_def capturing_def)

lemma scan_true_false:
  "json_scan path (obj_st e p j S_VALUE) i (CHR ''t'' # CHR ''r'' # CHR ''u'' # CHR ''e'' # r) =
     (if capturing path e p then Found i 4
      else json_scan path (obj_st e p (if e = Suc 0 then i else j) S_COMMA_OR_EOO) (i + 4) r)"
  "json_scan path (obj_st e p j S_VALUE) i (CHR ''f'' # CHR ''a'' # CHR ''l'' # CHR ''s'' # CHR ''e'' # r) =
     (if capturing path e p then Found i 5
      else json_scan path (obj_st e p (if e = Suc 0 then i else j) S_COMMA_OR_EOO) (i + 5) r)"
  by (auto simp: json_ws_def json_step_def step_value_def Let_def after_value_obj capturing_def ac_simps)

lemma scan_comma:
  "json_scan path (obj_st e p j S_COMMA_OR_EOO) i (CHR '','' # r) =
     json_scan path (obj_st e p j S_KEY) (Suc i) r"
  by (simp add: json_ws_def json_step_def step_comma_def)

lemma scan_close:
  "json_scan ''$'' (obj_st 0 (Suc 0) j S_COMMA_OR_EOO) i (CHR ''}'' # r) = Found j (i - j + 1)"
  by (simp add: json_ws_def json_step_def step_comma_def end_of_object_def check_ret_def cat_def)

text \<open>Integers as \<open>%ld\<close> prints them.\<close>

definition no_number_tail :: "string \<Rightarrow> bool" where
  "no_number_tail r \<longleftrightarrow> (case r of [] \<Rightarrow> True
     | c # _ \<Rightarrow> \<not> isdigit c \<and> c \<noteq> CHR ''.'' \<and> c \<noteq> CHR ''e'' \<and> c \<noteq> CHR ''E'')"

lemma atod_decimal_digits:
  "list_all isdigit ds \<Longrightarrow> no_number_tail r \<Longrightarrow> snd (atod_decimal f d (ds @ r)) = r"
proof (induction ds arbitrary: d)
  case Nil
  then show ?case by (cases r) (auto simp: no_number_tail_def)
next
  case (Cons c cs)
  then show ?case by simp
qed

lemma mg_atod_len_nat_str:
  assumes "no_number_tail r"
  shows "mg_atod_len (nat_str n @ r) = length (nat_str n)"
    and "mg_atod_len (CHR ''-'' # nat_str n @ r) = Suc (length (nat_str n))"
proof -
  have r: "case r of [] \<Rightarrow> True | c # _ \<Rightarrow> c \<noteq> CHR ''.'' \<and> c \<noteq> CHR ''e'' \<and> c \<noteq> CHR ''E''"
    using assms by (auto simp: no_number_tail_def split: list.splits)
  have dec: "snd (atod_decimal f d (nat_str n @ r)) = r" for f :: "unit fpu" and d
    by (rule atod_decimal_digits [OF nat_str_digits assms])
  obtain c cs where c: "nat_str n @ r = c # cs" "c \<noteq> CHR ''-''" "c \<noteq> CHR ''+''"
    using nat_str_hd_digit [of n] isdigit_not_sign by fastforce
  have sg: "atod_sign (nat_str n @ r) = (1, nat_str n @ r)"
    using c by (simp add: atod_sign_def)
  show "mg_atod_len (nat_str n @ r) = length (nat_str n)"
    using sg dec r
    by (cases r) (auto simp: mg_atod_len_def mg_atod_def Let_def case_prod_unfold)
  show "mg_atod_len (CHR ''-'' # nat_str n @ r) = Suc (length (nat_str n))"
    using dec r
    by (cases r) (auto simp: mg_atod_len_def mg_atod_def Let_def case_prod_unfold atod_sign_def)
qed

lemma mg_atod_len_int_str:
  "no_number_tail r \<Longrightarrow> mg_atod_len (int_str i @ r) = length (int_str i)"
  using mg_atod_len_nat_str by (simp add: int_str_def)

lemma int_str_hd: "\<exists>c cs. int_str i = c # cs \<and> (c = CHR ''-'' \<or> isdigit c)"
  using nat_str_hd_digit [of "nat i"] by (cases "i < 0") (auto simp: int_str_def)

lemma number_char_simps:
  assumes "c = CHR ''-'' \<or> isdigit c"
  shows "\<not> json_ws c" "c \<noteq> CHR ''{''" "c \<noteq> CHR ''[''" "c \<noteq> CHR '']''" "c \<noteq> DQ"
    "c \<noteq> CHR ''t''" "c \<noteq> CHR ''n''" "c \<noteq> CHR ''f''"
  using assms by (auto simp: json_ws_def isdigit_def)

lemma scan_int_value:
  assumes "no_number_tail r"
  shows "json_scan path (obj_st e p j S_VALUE) i (int_str n @ r) =
     (if capturing path e p then Found i (length (int_str n))
      else json_scan path (obj_st e p (if e = Suc 0 then i else j) S_COMMA_OR_EOO) (i + length (int_str n)) r)"
proof -
  obtain c cs where c: "int_str n = c # cs" "c = CHR ''-'' \<or> isdigit c"
    using int_str_hd by blast
  have len: "mg_atod_len (c # cs @ r) = Suc (length cs)"
    using mg_atod_len_int_str [OF assms, of n] c(1) by simp
  note ch = number_char_simps [OF c(2)]
  show ?thesis
    using c ch len
    by (auto simp: json_step_def step_value_def Let_def after_value_obj capturing_def)
qed

declare json_scan.simps [simp del]

text \<open>One member with a string value that is passed over, up to the next member.\<close>

lemma scan_string_member:
  assumes "plain key" and "key_misses path e p key" and "quotable v" and "\<not> capturing path e p"
  shows "json_scan path (obj_st e p j S_KEY) i (DQ # key @ DQ # CHR '':'' # DQ # v @ DQ # CHR '','' # r) =
     json_scan path (obj_st e p (if e = Suc 0 then i + length key + 3 else j) S_KEY)
       (i + length key + length v + 6) r"
  using assms by (simp add: scan_key_miss scan_string_value scan_comma eval_nat_numeral)

lemma scan_int_member:
  assumes "plain key" and "key_misses path e p key" and "\<not> capturing path e p"
  shows "json_scan path (obj_st e p j S_KEY) i (DQ # key @ DQ # CHR '':'' # int_str n @ CHR '','' # r) =
     json_scan path (obj_st e p (if e = Suc 0 then i + length key + 3 else j) S_KEY)
       (i + length key + length (int_str n) + 4) r"
  using assms
  by (simp add: scan_key_miss scan_int_value scan_comma no_number_tail_def isdigit_def eval_nat_numeral)

text \<open>The last member of a whole object, an integer: the object is the token \<open>$\<close>.\<close>

lemma scan_last_int_member:
  assumes "plain key"
  shows "json_scan ''$'' (obj_st 0 (Suc 0) 0 S_KEY) i (DQ # key @ DQ # CHR '':'' # int_str n @ ''}'') =
     Found 0 (i + length key + length (int_str n) + 4)"
proof -
  have "key_misses ''$'' 0 (Suc 0) key" "\<not> capturing ''$'' 0 (Suc 0)"
    by (simp_all add: key_misses_def capturing_def)
  with assms show ?thesis
    by (simp add: scan_key_miss scan_int_value scan_close no_number_tail_def isdigit_def eval_nat_numeral)
qed

text \<open>The member that the path names.\<close>

lemma scan_string_hit:
  assumes "plain k" and "quotable v"
  shows "json_scan (CHR ''$'' # CHR ''.'' # k) (obj_st (Suc 0) (Suc (Suc 0)) j S_KEY) i (DQ # k @ DQ # CHR '':'' # DQ # v @ DQ # r) =
     Found (i + length k + 3) (length v + 2)"
proof -
  have "capturing (CHR ''$'' # CHR ''.'' # k) (Suc 0) (Suc (Suc (length k)))"
    by (simp add: capturing_def cat_def)
  with assms show ?thesis by (simp add: scan_key_hit scan_string_value)
qed

lemmas walk_simps = scan_open mg_json_get_def cat_def key_misses_def capturing_def eval_nat_numeral

end
