(* ===== verification/World.thy ===== *)
theory World
  imports MgHttp MgWs MgCrypto PluginPath MgJson
begin

text \<open>
  What the handlers act on: the outside world as an environment, the connections of the embedded
  HTTP library, and the functions of that library that the handlers call on a connection
  (crates/mongoose/mongoose.c).

  The environment (\<open>env\<close>) holds the answers of everything that is not C code of the program: the
  clocks, \<open>malloc\<close>, the file system, \<open>dlopen\<close>/\<open>dlsym\<close>, the plugins and the nng sockets. Each
  answer is a function of a counter that grows by one with every question (\<open>ask\<close>), so two
  questions may be answered differently and nothing is assumed about the answers.

  A connection is an object with an address; its send buffer is the list of what was appended to
  it, bytes or a file to be streamed. Growing a send buffer is taken to succeed. The state is an
  extensible record: every later component adds its own static variables to it.
\<close>

section \<open>The environment\<close>

record 'd env =
  env_platform :: platform
  env_fpu :: "'d fpu"
  env_time :: "nat \<Rightarrow> int"
  env_millis :: "nat \<Rightarrow> u64"
  env_monotonic :: "nat \<Rightarrow> u64"          \<comment> \<open>milliseconds of \<open>CLOCK_MONOTONIC\<close>\<close>
  env_pthread :: "nat \<Rightarrow> bool"           \<comment> \<open>does \<open>pthread_create\<close> succeed\<close>
  env_malloc :: "nat \<Rightarrow> bool"
  env_fs :: "nat \<Rightarrow> fs"
  env_fopen :: "nat \<Rightarrow> string \<Rightarrow> bool"
  env_stat :: "nat \<Rightarrow> string \<Rightarrow> (nat \<times> int) option"   \<comment> \<open>size and time of a file\<close>
  env_dlopen :: "nat \<Rightarrow> string \<Rightarrow> nat option"
  env_dlsym :: "nat \<Rightarrow> nat \<Rightarrow> string \<Rightarrow> nat option"
  env_ffi_prep :: "nat \<Rightarrow> bool"
  env_plugin :: "nat \<Rightarrow> nat \<Rightarrow> string option \<Rightarrow> int \<times> string"
  env_nng_open :: "nat \<Rightarrow> int \<times> nat"
  env_nng_listen :: "nat \<Rightarrow> string \<Rightarrow> int"
  env_nng_msg :: "nat \<Rightarrow> bool"

section \<open>Connections\<close>

text \<open>Bytes, or a number of bytes of a file from an offset on, which \<open>static_cb\<close> streams.\<close>

datatype out = Bytes string | StreamFile string nat nat

text \<open>The event handler of a connection (\<open>c->fn\<close>) and its protocol (\<open>c->pfn\<close>).\<close>

datatype handler = Http_handler | Ws_handler
datatype protocol = Http_protocol | Ws_protocol | File_protocol

record conn =
  c_id :: u64
  c_is_websocket :: bool
  c_is_closing :: bool
  c_is_draining :: bool
  c_is_resp :: bool
  c_fn :: handler
  c_pfn :: protocol
  c_send :: "out list"

type_synonym addr = nat

record world0 =
  w_tick :: nat
  w_conns :: "addr \<rightharpoonup> conn"
  w_nng_socks :: "nat list"                \<comment> \<open>nng sockets that are open\<close>
  w_published :: "(nat \<times> string) list"     \<comment> \<open>messages sent on them, newest first\<close>
  w_ws_conn :: "addr option"               \<comment> \<open>\<open>g_ws_conn\<close> of src/handler_ws.c\<close>

definition ask :: "(nat \<Rightarrow> 'b) \<Rightarrow> 'a world0_scheme \<Rightarrow> 'b \<times> 'a world0_scheme" where
  "ask f w = (f (w_tick w), w\<lparr>w_tick := Suc (w_tick w)\<rparr>)"

text \<open>Two and three questions in a row.\<close>

definition ask2 :: "(nat \<Rightarrow> 'b) \<Rightarrow> 'a world0_scheme \<Rightarrow> 'b \<times> 'b \<times> 'a world0_scheme" where
  "ask2 f w = (f (w_tick w), f (w_tick w + 1), w\<lparr>w_tick := w_tick w + 2\<rparr>)"

definition ask3 :: "(nat \<Rightarrow> 'b) \<Rightarrow> 'a world0_scheme \<Rightarrow> 'b \<times> 'b \<times> 'b \<times> 'a world0_scheme" where
  "ask3 f w = (f (w_tick w), f (w_tick w + 1), f (w_tick w + 2), w\<lparr>w_tick := w_tick w + 3\<rparr>)"

definition null_conn :: conn where
  "null_conn = \<lparr>c_id = 0, c_is_websocket = False, c_is_closing = False, c_is_draining = False,
     c_is_resp = False, c_fn = Http_handler, c_pfn = Http_protocol, c_send = []\<rparr>"

text \<open>Reading through a pointer; a pointer to no object reads as zeros, which no theorem uses.\<close>

definition conn_at :: "'a world0_scheme \<Rightarrow> addr \<Rightarrow> conn" where
  "conn_at w c = (case w_conns w c of Some x \<Rightarrow> x | None \<Rightarrow> null_conn)"

definition upd_conn :: "addr \<Rightarrow> (conn \<Rightarrow> conn) \<Rightarrow> 'a world0_scheme \<Rightarrow> 'a world0_scheme" where
  "upd_conn c f w = w\<lparr>w_conns := (\<lambda>a. if a = c then map_option f (w_conns w a) else w_conns w a)\<rparr>"

section \<open>Sending\<close>

definition mg_send :: "addr \<Rightarrow> string \<Rightarrow> 'a world0_scheme \<Rightarrow> 'a world0_scheme" where
  "mg_send c bs w = upd_conn c (\<lambda>x. x\<lparr>c_send := c_send x @ [Bytes bs]\<rparr>) w"

text \<open>A server never masks: the header, then the payload.\<close>

definition mg_ws_send :: "addr \<Rightarrow> string \<Rightarrow> nat \<Rightarrow> 'a world0_scheme \<Rightarrow> 'a world0_scheme" where
  "mg_ws_send c payload op w = mg_send c payload (mg_send c (mkhdr (length payload) op None) w)"

definition WEBSOCKET_OP_TEXT :: nat where "WEBSOCKET_OP_TEXT = 1"

definition mg_http_reply :: "addr \<Rightarrow> int \<Rightarrow> string \<Rightarrow> string \<Rightarrow> 'a world0_scheme \<Rightarrow> 'a world0_scheme" where
  "mg_http_reply c code headers body w =
     upd_conn c (\<lambda>x. x\<lparr>c_send := c_send x @ [Bytes (http_reply_bytes code headers body)],
                     c_is_resp := False\<rparr>) w"

text \<open>\<open>mg_ws_upgrade\<close> with no extra headers. Without a key the reply is 426 and the connection is
  drained; it is then not a WebSocket connection. The event it raises reaches the handler that was
  set before, which ignores it.\<close>

definition ws_handshake :: "string \<Rightarrow> string option \<Rightarrow> string" where
  "ws_handshake key proto =
     ''HTTP/1.1 101 Switching Protocols'' @ CRLF @ ''Upgrade: websocket'' @ CRLF
     @ ''Connection: Upgrade'' @ CRLF @ ''Sec-WebSocket-Accept: '' @ ws_accept_key key @ CRLF
     @ (case proto of None \<Rightarrow> [] | Some p \<Rightarrow> ''Sec-WebSocket-Protocol: '' @ p @ CRLF) @ CRLF"

definition mg_ws_upgrade :: "addr \<Rightarrow> http_message \<Rightarrow> 'a world0_scheme \<Rightarrow> 'a world0_scheme" where
  "mg_ws_upgrade c hm w =
     (let w1 = upd_conn c (\<lambda>x. x\<lparr>c_pfn := Ws_protocol\<rparr>) w
      in case mg_http_get_header (hm_headers hm) ''Sec-WebSocket-Key'' of
           None \<Rightarrow> upd_conn c (\<lambda>x. x\<lparr>c_is_draining := True\<rparr>)
             (mg_http_reply c 426 [] (''WS upgrade expected'' @ [LF]) w1)
         | Some key \<Rightarrow>
             upd_conn c (\<lambda>x. x\<lparr>c_is_websocket := True, c_is_resp := False\<rparr>)
               (mg_send c (ws_handshake key
                  (mg_http_get_header (hm_headers hm) ''Sec-WebSocket-Protocol'')) w1))"

section \<open>nng\<close>

text \<open>
  Opening a publisher socket, listening and closing. The result of the first is nng's code and
  the socket; \<open>nng_close\<close> removes it. \<open>nng_publish\<close> is the allocation, the copy and \<open>nng_sendmsg\<close>
  of one message: nothing is sent when the message cannot be built.
\<close>

definition nng_pub0_open :: "'d env \<Rightarrow> 'a world0_scheme \<Rightarrow> (int \<times> nat) \<times> 'a world0_scheme" where
  "nng_pub0_open E w =
     (case ask (env_nng_open E) w of ((rv, s), w1) \<Rightarrow>
        if rv = 0 then ((rv, s), w1\<lparr>w_nng_socks := s # w_nng_socks w1\<rparr>) else ((rv, s), w1))"

definition nng_listen :: "'d env \<Rightarrow> string \<Rightarrow> 'a world0_scheme \<Rightarrow> int \<times> 'a world0_scheme" where
  "nng_listen E url w = (case ask (env_nng_listen E) w of (f, w1) \<Rightarrow> (f url, w1))"

definition nng_close :: "nat \<Rightarrow> 'a world0_scheme \<Rightarrow> 'a world0_scheme" where
  "nng_close s w = w\<lparr>w_nng_socks := remove1 s (w_nng_socks w)\<rparr>"

definition nng_publish :: "'d env \<Rightarrow> nat \<Rightarrow> string \<Rightarrow> 'a world0_scheme \<Rightarrow> 'a world0_scheme" where
  "nng_publish E s data w =
     (case ask (env_nng_msg E) w of (ok, w1) \<Rightarrow>
        if ok then w1\<lparr>w_published := (s, data) # w_published w1\<rparr> else w1)"

section \<open>Lemmas\<close>

named_theorems world \<open>what an operation leaves unchanged\<close>

lemma ask_simps [simp]:
  "fst (ask f w) = f (w_tick w)" "w_conns (snd (ask f w)) = w_conns w"
  "w_nng_socks (snd (ask f w)) = w_nng_socks w" "w_published (snd (ask f w)) = w_published w"
  "w_ws_conn (snd (ask f w)) = w_ws_conn w" "world0.more (snd (ask f w)) = world0.more w"
  by (simp_all add: ask_def)

lemma upd_conn_simps [simp]:
  "w_tick (upd_conn c f w) = w_tick w" "w_nng_socks (upd_conn c f w) = w_nng_socks w"
  "w_published (upd_conn c f w) = w_published w" "w_ws_conn (upd_conn c f w) = w_ws_conn w"
  "world0.more (upd_conn c f w) = world0.more w" "dom (w_conns (upd_conn c f w)) = dom (w_conns w)"
  by (auto simp: upd_conn_def dom_def split: if_splits)

lemma conn_at_upd [simp]:
  "c \<in> dom (w_conns w) \<Longrightarrow> conn_at (upd_conn c f w) c = f (conn_at w c)"
  "a \<noteq> c \<Longrightarrow> conn_at (upd_conn c f w) a = conn_at w a"
  by (auto simp: conn_at_def upd_conn_def dom_def)

text \<open>The whole send buffer as bytes; a streamed file has none here.\<close>

definition sent_bytes :: "out list \<Rightarrow> string" where
  "sent_bytes os = concat (map (\<lambda>x. case x of Bytes b \<Rightarrow> b | StreamFile _ _ _ \<Rightarrow> []) os)"

definition sent :: "'a world0_scheme \<Rightarrow> addr \<Rightarrow> string" where
  "sent w c = sent_bytes (c_send (conn_at w c))"

lemma sent_send [simp]:
  "c \<in> dom (w_conns w) \<Longrightarrow> sent (mg_send c bs w) c = sent w c @ bs"
  "a \<noteq> c \<Longrightarrow> sent (mg_send c bs w) a = sent w a"
  by (simp_all add: sent_def mg_send_def sent_bytes_def)

lemma mg_send_simps [simp]:
  "w_tick (mg_send c bs w) = w_tick w" "w_nng_socks (mg_send c bs w) = w_nng_socks w"
  "w_published (mg_send c bs w) = w_published w" "w_ws_conn (mg_send c bs w) = w_ws_conn w"
  "world0.more (mg_send c bs w) = world0.more w" "dom (w_conns (mg_send c bs w)) = dom (w_conns w)"
  by (simp_all add: mg_send_def)

lemma mg_ws_send_simps [simp]:
  "w_tick (mg_ws_send c p op w) = w_tick w" "w_nng_socks (mg_ws_send c p op w) = w_nng_socks w"
  "w_published (mg_ws_send c p op w) = w_published w" "w_ws_conn (mg_ws_send c p op w) = w_ws_conn w"
  "world0.more (mg_ws_send c p op w) = world0.more w"
  "dom (w_conns (mg_ws_send c p op w)) = dom (w_conns w)"
  by (simp_all add: mg_ws_send_def)

text \<open>A message sent to a connection is one frame at the end of its send buffer.\<close>

lemma sent_ws_send [simp]:
  "c \<in> dom (w_conns w) \<Longrightarrow> sent (mg_ws_send c p op w) c = sent w c @ ws_frame op p"
  "a \<noteq> c \<Longrightarrow> sent (mg_ws_send c p op w) a = sent w a"
  by (simp_all add: mg_ws_send_def ws_frame_def)

text \<open>The flags of a connection, which sending does not change.\<close>

definition flags :: "conn \<Rightarrow> u64 \<times> bool \<times> bool \<times> bool \<times> handler \<times> protocol \<times> bool" where
  "flags x = (c_id x, c_is_websocket x, c_is_closing x, c_is_draining x, c_fn x, c_pfn x, c_is_resp x)"

lemma flags_send [simp]:
  "flags (conn_at (mg_send c bs w) a) = flags (conn_at w a)"
  "flags (conn_at (mg_ws_send c p op w) a) = flags (conn_at w a)"
  by (auto simp: mg_ws_send_def mg_send_def conn_at_def upd_conn_def flags_def split: option.splits)

lemma flags_eqD:
  assumes "flags x = flags y"
  shows "c_id x = c_id y" "c_is_websocket x = c_is_websocket y" "c_is_closing x = c_is_closing y"
    "c_is_draining x = c_is_draining y" "c_fn x = c_fn y" "c_pfn x = c_pfn y" "c_is_resp x = c_is_resp y"
  using assms by (simp_all add: flags_def)

end
