(* ===== verification/MgServe.thy ===== *)
theory MgServe
  imports World
begin

text \<open>
  crates/mongoose/mongoose.c: \<open>mg_match\<close>, the content type of a path, the \<open>Range\<close> header and
  \<open>mg_http_serve_file\<close>. Opening a file and asking for its size and time are answered by the
  environment; the content is put into the send buffer as a file to be streamed.
\<close>

section \<open>Matching\<close>

text \<open>
  \<open>mg_match\<close> without captures. The text is s with the byte that lies behind it in memory, which the
  code reads at the end of s; ni and nj are where the last wildcard was and where to take it up
  again. Going back lands on the wildcard itself, whose step follows at once: the two are one here.
\<close>

function match_loop :: "string \<Rightarrow> char \<Rightarrow> string \<Rightarrow> nat \<Rightarrow> nat \<Rightarrow> nat \<Rightarrow> nat \<Rightarrow> bool" where
  "match_loop s behind p i j ni nj =
     (if \<not> (i < length p \<or> j < length s) then True
      else if i < length p \<and> j < length s
        \<and> (p ! i = CHR ''?'' \<or> (p ! i \<noteq> CHR ''*'' \<and> p ! i \<noteq> CHR ''#'' \<and> s ! j = p ! i))
      then match_loop s behind p (i + 1) (j + 1) ni nj
      else if i < length p \<and> (p ! i = CHR ''*'' \<or> p ! i = CHR ''#'')
      then match_loop s behind p (i + 1) j i (j + 1)
      else if 0 < nj \<and> nj \<le> length s
        \<and> ((ni < length p \<and> p ! ni = CHR ''#'') \<or> (s @ [behind]) ! j \<noteq> CHR ''/'')
      then match_loop s behind p (ni + 1) nj ni (nj + 1)
      else False)"
  by pat_completeness auto
termination
  by (relation "measures [\<lambda>(s, b, p, i, j, ni, nj). if j + 1 < nj then 1 else 0,
        \<lambda>(s, b, p, i, j, ni, nj). length s + 2 - nj,
        \<lambda>(s, b, p, i, j, ni, nj). (length p - i) + (length s - j)]") auto

declare match_loop.simps [simp del]

definition mg_match :: "string \<Rightarrow> char \<Rightarrow> string \<Rightarrow> bool" where
  "mg_match s behind p = match_loop s behind p 0 0 0 0"

section \<open>Content types\<close>

definition known_types :: "(string \<times> string) list" where
  "known_types = [
     (''html'', ''text/html; charset=utf-8''), (''htm'', ''text/html; charset=utf-8''), 
     (''css'', ''text/css; charset=utf-8''), (''js'', ''text/javascript; charset=utf-8''), 
     (''mjs'', ''text/javascript; charset=utf-8''), (''gif'', ''image/gif''), 
     (''png'', ''image/png''), (''jpg'', ''image/jpeg''), (''jpeg'', ''image/jpeg''), 
     (''woff'', ''font/woff''), (''ttf'', ''font/ttf''), (''svg'', ''image/svg+xml''), 
     (''txt'', ''text/plain; charset=utf-8''), (''avi'', ''video/x-msvideo''), 
     (''csv'', ''text/csv''), (''doc'', ''application/msword''), 
     (''exe'', ''application/octet-stream''), (''gz'', ''application/gzip''), 
     (''ico'', ''image/x-icon''), (''json'', ''application/json''), (''mov'', ''video/quicktime''), 
     (''mp3'', ''audio/mpeg''), (''mp4'', ''video/mp4''), (''mpeg'', ''video/mpeg''), 
     (''pdf'', ''application/pdf''), (''shtml'', ''text/html; charset=utf-8''), 
     (''tgz'', ''application/tar-gz''), (''wav'', ''audio/wav''), (''webp'', ''image/webp''), 
     (''zip'', ''application/zip''), (''3gp'', ''video/3gpp'')]"

text \<open>The overrides a caller gives: \<open>ext=type,ext=type\<close>.\<close>

function mime_override :: "string \<Rightarrow> string \<Rightarrow> string option" where
  "mime_override ext s =
     (case mg_span s (CHR '','') of
        None \<Rightarrow> None
      | Some (entry, rest) \<Rightarrow>
          (case mg_span entry (CHR ''='') of
             None \<Rightarrow> mime_override ext rest
           | Some (k, v) \<Rightarrow> if k = ''*'' \<or> k = ext then Some v else mime_override ext rest))"
  by pat_completeness auto
termination
  by (relation "measure (\<lambda>(ext, s). length s)") (auto dest: mg_span_shorter)

declare mime_override.simps [simp del]

definition file_ext :: "string \<Rightarrow> string" where
  "file_ext path = rev (takeWhile (\<lambda>c. c \<noteq> CHR ''.'') (rev path))"

definition guess_content_type :: "string \<Rightarrow> string \<Rightarrow> string" where
  "guess_content_type path extra =
     (let ext = file_ext path
      in case mime_override ext extra of
           Some v \<Rightarrow> v
         | None \<Rightarrow> (case map_of known_types ext of
                      Some v \<Rightarrow> v
                    | None \<Rightarrow> ''text/plain; charset=utf-8''))"

section \<open>Ranges\<close>

text \<open>How many numbers were read, and the two numbers, which stay 0 when they are not.\<close>

fun getrange :: "string \<Rightarrow> nat \<times> nat \<times> nat" where
  "getrange [] = (0, 0, 0)"
| "getrange (x # xs) =
     (if length (x # xs) \<le> 6 then (0, 0, 0)
      else if take 6 (x # xs) \<noteq> ''bytes='' then getrange xs
      else (case mg_span (drop 6 (x # xs)) (CHR ''-'') of
              Some (k, v) \<Rightarrow>
                (let a = mg_to_size_t k; b = (if v \<noteq> [] then mg_to_size_t v else None)
                 in ((if a \<noteq> None then 1 else 0) + (if b \<noteq> None then 1 else 0),
                     (case a of Some n \<Rightarrow> n | None \<Rightarrow> 0), (case b of Some n \<Rightarrow> n | None \<Rightarrow> 0)))
            | None \<Rightarrow>
                (case mg_to_size_t (drop 6 (x # xs)) of Some n \<Rightarrow> (1, n, 0) | None \<Rightarrow> (0, 0, 0))))"

section \<open>Files\<close>

definition mg_fs_open :: "'d env \<Rightarrow> string \<Rightarrow> 'a world0_scheme \<Rightarrow> bool \<times> 'a world0_scheme" where
  "mg_fs_open E path w =
     (case ask (env_malloc E) w of (got, w1) \<Rightarrow>
        if \<not> got then (False, w1) else (case ask (env_fopen E) w1 of (f, w2) \<Rightarrow> (f path, w2)))"

definition mg_http_etag :: "nat \<Rightarrow> int \<Rightarrow> string" where
  "mg_http_etag sz mtime = DQ # int_str mtime @ ''.'' @ nat_str sz @ [DQ]"

record mg_http_serve_opts =
  so_mime_types :: string
  so_extra_headers :: string
  so_page404 :: "string option"

text \<open>The platform's \<open>FILENAME_MAX\<close>.\<close>

definition MG_PATH_MAX :: "platform \<Rightarrow> nat" where
  "MG_PATH_MAX p = (case p of Windows \<Rightarrow> 260 | Apple \<Rightarrow> 1024 | Posix \<Rightarrow> 4096)"

text \<open>Which file is opened: its name, its content type, whether it is the compressed variant.\<close>

definition open_served ::
  "'d env \<Rightarrow> http_message \<Rightarrow> string \<Rightarrow> mg_http_serve_opts \<Rightarrow> 'a world0_scheme
     \<Rightarrow> (bool \<times> string \<times> string \<times> bool) \<times> 'a world0_scheme" where
  "open_served E hm path opts w =
     (let mime = guess_content_type path (so_mime_types opts);
          gz = snprintf_buf (MG_PATH_MAX (env_platform E)) (path @ ''.gz'');
          ae = mg_http_get_header (hm_headers hm) ''Accept-Encoding'';
          (ok1, w1) = (case ae of
              Some a \<Rightarrow> if mg_match a CR ''*gzip*'' then mg_fs_open E gz w else (False, w)
            | None \<Rightarrow> (False, w))
      in if ok1 then ((True, gz, mime, True), w1)
         else (case mg_fs_open E path w1 of
                 (True, w2) \<Rightarrow> ((True, path, mime, False), w2)
               | (False, w2) \<Rightarrow>
                   (case so_page404 opts of
                      None \<Rightarrow> ((False, path, mime, False), w2)
                    | Some page \<Rightarrow>
                        (case mg_fs_open E page w2 of (ok3, w3) \<Rightarrow>
                           ((ok3, page, guess_content_type page (so_mime_types opts), False), w3)))))"

text \<open>Status, \<open>Content-Range\<close> line, offset and number of bytes.\<close>

definition served_range :: "string option \<Rightarrow> nat \<Rightarrow> int \<times> string \<times> nat \<times> nat" where
  "served_range rh sz =
     (case rh of
        None \<Rightarrow> (200, [], 0, sz)
      | Some r \<Rightarrow>
          (case getrange r of (n, r1, r2') \<Rightarrow>
             if n = 0 then (200, [], 0, sz)
             else
               (let r2 = (if n = 1 then (if sz = 0 then 2 ^ 64 - 1 else sz - 1) else r2')
                in if r2 < r1 \<or> sz \<le> r2
                   then (416, ''Content-Range: bytes */'' @ nat_str sz @ CRLF, 0, 0)
                   else (206, ''Content-Range: bytes '' @ nat_str r1 @ ''-'' @ nat_str r2 @ ''/''
                           @ nat_str sz @ CRLF, r1, r2 - r1 + 1))))"

definition serve_head :: "int \<Rightarrow> string \<Rightarrow> string \<Rightarrow> nat \<Rightarrow> bool \<Rightarrow> string \<Rightarrow> string \<Rightarrow> string" where
  "serve_head status mime etag cl gzip rng extra =
     ''HTTP/1.1 '' @ int_str status @ '' '' @ mg_http_status_code_str status @ CRLF
     @ ''Content-Type: '' @ mime @ CRLF @ ''Etag: '' @ etag @ CRLF
     @ ''Content-Length: '' @ nat_str cl @ CRLF
     @ (if gzip then ''Content-Encoding: gzip'' @ CRLF else []) @ rng @ extra @ CRLF"

definition mg_http_serve_file ::
  "'d env \<Rightarrow> addr \<Rightarrow> http_message \<Rightarrow> string \<Rightarrow> mg_http_serve_opts \<Rightarrow> 'a world0_scheme \<Rightarrow> 'a world0_scheme" where
  "mg_http_serve_file E c hm path opts w =
     (case open_served E hm path opts w of ((ok, file, mime, gzip), w1) \<Rightarrow>
        if \<not> ok then mg_http_reply c 404 (so_extra_headers opts) (''Not found'' @ [LF]) w1
        else (case ask (env_stat E) w1 of (st, w2) \<Rightarrow>
          (case st file of
             None \<Rightarrow> mg_http_reply c 404 (so_extra_headers opts) (''Not found'' @ [LF]) w2
           | Some (sz, mtime) \<Rightarrow>
               (let etag = mg_http_etag sz mtime
                in if (case mg_http_get_header (hm_headers hm) ''If-None-Match'' of
                         Some inm \<Rightarrow> mg_strcasecmp inm etag = 0 | None \<Rightarrow> False)
                   then mg_http_reply c 304 (so_extra_headers opts) [] w2
                   else (case served_range (mg_http_get_header (hm_headers hm) ''Range'') sz of
                           (status, rng, off, cl) \<Rightarrow>
                     (let w3 = mg_send c (serve_head status mime etag cl gzip rng (so_extra_headers opts)) w2
                      in if mg_strcasecmp (hm_method hm) ''HEAD'' = 0 \<or> c_is_closing (conn_at w3 c)
                         then upd_conn c (\<lambda>x. x\<lparr>c_is_resp := False\<rparr>) w3
                         else upd_conn c (\<lambda>x. x\<lparr>c_pfn := File_protocol,
                                c_send := c_send x @ [StreamFile file off cl]\<rparr>) w3))))))"

end
