(* ===== verification/EventFormat.thy ===== *)
theory EventFormat
  imports MgJson
begin

text \<open>
  src/event_format.c: the texts of the events that the server pushes. \<open>event_escape_json\<close>
  escapes into a bounded buffer; the three \<open>event_format_*\<close> functions allocate a buffer and
  print a JSON object with the type, the payload and the time.

  Each \<open>bool\<close> argument \<open>a1, a2, \<dots>\<close> says whether that \<open>malloc\<close> of the function succeeds, in
  the code's order; \<open>t\<close> is the value of \<open>time(NULL)\<close>. The result is the return code and the
  text stored in \<open>*out\<close>. The lemmas: escaping never splits an escape sequence, the buffer
  sizes chosen in the code are enough, and the scanner of \<open>MgJson\<close> reads back what was put in.
\<close>

section \<open>Escaping\<close>

text \<open>The \<open>switch\<close> of \<open>event_escape_json\<close>: the replacement, if the byte has one.\<close>

definition esc_rep :: "char \<Rightarrow> string option" where
  "esc_rep c =
     (if c = DQ then Some [BSL, DQ]
      else if c = BSL then Some [BSL, BSL]
      else if c = LF then Some [BSL, CHR ''n'']
      else if c = CR then Some [BSL, CHR ''r'']
      else if c = TAB then Some [BSL, CHR ''t'']
      else None)"

text \<open>The loop, with \<open>o\<close> bytes written so far into a buffer of \<open>out_size\<close> bytes.\<close>

fun escape_loop :: "string \<Rightarrow> nat \<Rightarrow> nat \<Rightarrow> string" where
  "escape_loop [] w out_size = []"
| "escape_loop (c # cs) w out_size =
     (case esc_rep c of
        Some rep \<Rightarrow>
          if w + length rep \<ge> out_size then []
          else rep @ escape_loop cs (w + length rep) out_size
      | None \<Rightarrow>
          if byte c < 0x20 then escape_loop cs w out_size
          else if w + 1 \<ge> out_size then []
          else c # escape_loop cs (w + 1) out_size)"

text \<open>
  What the buffer \<open>out\<close> of \<open>out_size\<close> bytes holds afterwards, as a C string. A NULL input
  gives the empty string; with no room at all nothing is written.
\<close>

definition event_escape_json :: "string option \<Rightarrow> nat \<Rightarrow> string" where
  "event_escape_json inp out_size =
     (if out_size = 0 then []
      else case inp of None \<Rightarrow> [] | Some s \<Rightarrow> escape_loop s 0 out_size)"

definition event_escape_alloc :: "bool \<Rightarrow> string option \<Rightarrow> string option" where
  "event_escape_alloc a inp =
     (let s = (case inp of None \<Rightarrow> [] | Some s \<Rightarrow> s);
          cap = length s * 2 + 1
      in if a then Some (event_escape_json (Some s) cap) else None)"

section \<open>The three formats\<close>

definition with_type_text :: "string \<Rightarrow> string \<Rightarrow> int \<Rightarrow> string" where
  "with_type_text etype data t =
     ''{\"type\":\"'' @ etype @ ''\",\"data\":'' @ data @ '',\"timestamp\":'' @ int_str t @ ''}''"

definition event_format_with_type ::
  "bool \<Rightarrow> bool \<Rightarrow> string option \<Rightarrow> string option \<Rightarrow> int \<Rightarrow> int \<times> string option" where
  "event_format_with_type a1 a2 type data t =
     (case (type, data) of
        (Some ty, Some d) \<Rightarrow>
          (case event_escape_alloc a1 (Some ty) of
             None \<Rightarrow> (-1, None)
           | Some etype \<Rightarrow>
               (let need = length etype + length d + 64
                in if \<not> a2 then (-1, None)
                   else (0, Some (snprintf_buf need (with_type_text etype d t)))))
      | _ \<Rightarrow> (-1, None))"

definition message_text :: "string \<Rightarrow> int \<Rightarrow> string" where
  "message_text emsg t =
     ''{\"type\":\"message\",\"message\":\"'' @ emsg @ ''\",\"timestamp\":'' @ int_str t @ ''}''"

definition event_format_message ::
  "bool \<Rightarrow> bool \<Rightarrow> string option \<Rightarrow> int \<Rightarrow> int \<times> string option" where
  "event_format_message a1 a2 msg t =
     (case msg of
        None \<Rightarrow> (-1, None)
      | Some m \<Rightarrow>
          (case event_escape_alloc a1 (Some m) of
             None \<Rightarrow> (-1, None)
           | Some emsg \<Rightarrow>
               (let need = length emsg + 64
                in if \<not> a2 then (-1, None)
                   else (0, Some (snprintf_buf need (message_text emsg t))))))"

definition json_string_text :: "string \<Rightarrow> string \<Rightarrow> int \<Rightarrow> string" where
  "json_string_text etype estr t =
     ''{\"type\":\"'' @ etype @ ''\",\"data\":\"'' @ estr @ ''\",\"timestamp\":'' @ int_str t @ ''}''"

definition event_format_json_string ::
  "bool \<Rightarrow> bool \<Rightarrow> bool \<Rightarrow> string option \<Rightarrow> string option \<Rightarrow> int \<Rightarrow> int \<times> string option" where
  "event_format_json_string a1 a2 a3 type str t =
     (case (type, str) of
        (Some ty, Some s) \<Rightarrow>
          (case (event_escape_alloc a1 (Some ty), event_escape_alloc a2 (Some s)) of
             (Some etype, Some estr) \<Rightarrow>
               (let need = length etype + length estr + 64
                in if \<not> a3 then (-1, None)
                   else (0, Some (snprintf_buf need (json_string_text etype estr t))))
           | _ \<Rightarrow> (-1, None))
      | _ \<Rightarrow> (-1, None))"

section \<open>Properties of escaping\<close>

text \<open>Escaping without a bound, byte by byte; other control bytes are dropped.\<close>

definition esc_char :: "char \<Rightarrow> string" where
  "esc_char c = (case esc_rep c of Some r \<Rightarrow> r | None \<Rightarrow> if byte c < 0x20 then [] else [c])"

definition escape_full :: "string \<Rightarrow> string" where
  "escape_full s = concat (map esc_char s)"

text \<open>What survives: the bytes that are not dropped.\<close>

definition kept :: "char \<Rightarrow> bool" where
  "kept c \<longleftrightarrow> 0x20 \<le> byte c \<or> c = LF \<or> c = CR \<or> c = TAB"

definition visible :: "string \<Rightarrow> string" where
  "visible s = filter kept s"

lemma escape_full_simps [simp]:
  "escape_full [] = []"
  "escape_full (c # cs) = esc_char c @ escape_full cs"
  "escape_full (s @ t) = escape_full s @ escape_full t"
  by (simp_all add: escape_full_def)

lemma esc_char_length: "length (esc_char c) \<le> 2"
  by (auto simp: esc_char_def esc_rep_def)

lemma length_escape_full: "length (escape_full s) \<le> 2 * length s"
proof (induction s)
  case Nil
  then show ?case by simp
next
  case (Cons c cs)
  then show ?case using esc_char_length [of c] by simp
qed

lemma escape_loop_full:
  "w + 2 * length s < out_size \<Longrightarrow> escape_loop s w out_size = escape_full s"
proof (induction s arbitrary: w)
  case Nil
  then show ?case by simp
next
  case (Cons c cs)
  then show ?case by (auto simp: esc_char_def esc_rep_def)
qed

text \<open>A bound that is too small cuts between characters of the input, never inside an escape.\<close>

lemma escape_loop_prefix: "\<exists>k. escape_loop s w out_size = escape_full (take k s)"
proof (induction s arbitrary: w)
  case Nil
  then show ?case by simp
next
  case (Cons c cs)
  obtain k where k: "escape_loop cs (w + length (esc_char c)) out_size = escape_full (take k cs)"
    using Cons.IH by blast
  have "escape_loop (c # cs) w out_size = [] \<or>
      escape_loop (c # cs) w out_size =
         esc_char c @ escape_loop cs (w + length (esc_char c)) out_size"
    by (cases "esc_rep c") (simp_all add: esc_char_def)
  then show ?case
  proof
    assume "escape_loop (c # cs) w out_size = []"
    then show ?thesis by (intro exI [of _ 0]) simp
  next
    assume "escape_loop (c # cs) w out_size =
      esc_char c @ escape_loop cs (w + length (esc_char c)) out_size"
    with k show ?thesis by (intro exI [of _ "Suc k"]) simp
  qed
qed

lemma escape_loop_length: "w < out_size \<Longrightarrow> w + length (escape_loop s w out_size) < out_size"
proof (induction s arbitrary: w)
  case Nil
  then show ?case by simp
next
  case (Cons c cs)
  show ?case
  proof (cases "esc_rep c")
    case None
    then show ?thesis using Cons.IH [of w] Cons.IH [of "w + 1"] Cons.prems by auto
  next
    case (Some r)
    then show ?thesis using Cons.IH [of "w + length r"] Cons.prems by auto
  qed
qed

lemma pass_esc_char:
  assumes "c \<noteq> NUL"
  shows "mg_pass_string (esc_char c @ r) = map_option ((+) (length (esc_char c))) (mg_pass_string r)"
proof -
  have e: "json_esc DQ True \<noteq> NUL" "json_esc BSL True \<noteq> NUL" "json_esc (CHR ''n'') True = NUL"
    "json_esc (CHR ''r'') True = NUL" "json_esc (CHR ''t'') True = NUL"
    by (simp_all add: json_esc_def escapeseq_def)
  show ?thesis
    using assms e
    by (cases "mg_pass_string r") (auto simp: esc_char_def esc_rep_def)
qed

lemma quotable_escape_full:
  assumes "nulfree s"
  shows "quotable (escape_full s)"
proof -
  have "mg_pass_string (escape_full s @ DQ # r) = Some (length (escape_full s))" for r
    using assms
  proof (induction s)
    case Nil
    then show ?case by simp
  next
    case (Cons c cs)
    then show ?case by (simp add: pass_esc_char)
  qed
  then show ?thesis by (simp add: quotable_def)
qed

lemma quotable_escape_loop: "nulfree s \<Longrightarrow> quotable (escape_loop s w n)"
  using escape_loop_prefix [of s w n] quotable_escape_full by fastforce

lemma nulfree_esc_char: "c \<noteq> NUL \<Longrightarrow> nulfree (esc_char c)"
  by (auto simp: esc_char_def esc_rep_def)

lemma nulfree_escape_full: "nulfree s \<Longrightarrow> nulfree (escape_full s)"
  by (induction s) (auto simp: nulfree_esc_char)

lemma nulfree_escape_loop: "nulfree s \<Longrightarrow> nulfree (escape_loop s w n)"
  using escape_loop_prefix [of s w n] nulfree_escape_full by fastforce

lemma event_escape_alloc_Some:
  "event_escape_alloc True (Some s) = Some (escape_full s)"
  by (simp add: event_escape_alloc_def event_escape_json_def escape_loop_full)

lemma event_escape_alloc_None: "event_escape_alloc False x = None"
  by (simp add: event_escape_alloc_def Let_def)

text \<open>Reading an escaped string back gives its bytes, less the dropped ones.\<close>

lemma unescape_esc_char:
  "mg_json_unescape (esc_char c @ r) (Suc n) =
     (if kept c then map_option ((#) c) (mg_json_unescape r n) else mg_json_unescape r (Suc n))"
proof -
  have e: "json_esc DQ False = DQ" "json_esc BSL False = BSL" "json_esc (CHR ''n'') False = LF"
    "json_esc (CHR ''r'') False = CR" "json_esc (CHR ''t'') False = TAB"
    by (simp_all add: json_esc_def escapeseq_def)
  show ?thesis
    using e by (auto simp: esc_char_def esc_rep_def kept_def)
qed

lemma unescape_escape_full:
  "length (visible s) < n \<Longrightarrow> mg_json_unescape (escape_full s) n = Some (visible s)"
proof (induction s arbitrary: n)
  case Nil
  then show ?case by (cases n) (simp_all add: visible_def)
next
  case (Cons c cs)
  then obtain m where n: "n = Suc m" by (cases n) auto
  show ?case
  proof (cases "kept c")
    case True
    with Cons.prems n have "length (visible cs) < m" by (simp add: visible_def)
    with True n Cons.IH [of m] show ?thesis by (simp add: unescape_esc_char visible_def)
  next
    case False
    with Cons.prems n have "length (visible cs) < Suc m" by (simp add: visible_def)
    with False n Cons.IH [of "Suc m"] show ?thesis by (simp add: unescape_esc_char visible_def)
  qed
qed

lemma esc_char_length_kept: "kept c \<Longrightarrow> 1 \<le> length (esc_char c)"
  by (auto simp: esc_char_def esc_rep_def kept_def)

lemma length_visible_le: "length (visible s) \<le> length (escape_full s)"
proof (induction s)
  case Nil
  then show ?case by (simp add: visible_def)
next
  case (Cons c cs)
  then show ?case using esc_char_length_kept [of c] by (auto simp: visible_def)
qed

lemma nulfree_visible: "nulfree s \<Longrightarrow> nulfree (visible s)"
  by (auto simp: nulfree_def visible_def)

lemma visible_id: "list_all kept s \<Longrightarrow> visible s = s"
  by (simp add: visible_def list_all_iff filter_id_conv)

text \<open>The reader applied to a string token that holds an escaped string.\<close>

lemma get_str_of_escaped:
  assumes found: "mg_json_get json path = Found (length pre) (length (escape_full s) + 2)"
    and json: "json = pre @ DQ # escape_full s @ DQ # post"
    and nf: "nulfree s"
  shows "mg_json_get_str True json path = Some (visible s)"
proof -
  have "mg_json_unescape (escape_full s) (length (escape_full s) + 2) = Some (visible s)"
    using length_visible_le [of s] by (intro unescape_escape_full) simp
  with found json nf show ?thesis
    by (simp add: mg_json_get_str_def nulfree_visible nth_append)
qed

section \<open>Properties of the formats\<close>

lemma length_int_str_time: "0 \<le> t \<Longrightarrow> t \<le> LONG_MAX \<Longrightarrow> length (int_str t) \<le> 19"
  using length_nat_str [of "nat t" 19] by (simp add: int_str_def LONG_MAX_def)

text \<open>The buffers are large enough: with a clock that has not run out, nothing is cut off.\<close>

lemma with_type_fits:
  "0 \<le> t \<Longrightarrow> t \<le> LONG_MAX \<Longrightarrow>
   event_format_with_type True True (Some ty) (Some d) t =
     (0, Some (with_type_text (escape_full ty) d t))"
  using length_int_str_time [of t]
  by (simp add: event_format_with_type_def event_escape_alloc_Some snprintf_buf_def with_type_text_def)

lemma message_fits:
  "0 \<le> t \<Longrightarrow> t \<le> LONG_MAX \<Longrightarrow>
   event_format_message True True (Some m) t = (0, Some (message_text (escape_full m) t))"
  using length_int_str_time [of t]
  by (simp add: event_format_message_def event_escape_alloc_Some snprintf_buf_def message_text_def)

lemma json_string_fits:
  "0 \<le> t \<Longrightarrow> t \<le> LONG_MAX \<Longrightarrow>
   event_format_json_string True True True (Some ty) (Some s) t =
     (0, Some (json_string_text (escape_full ty) (escape_full s) t))"
  using length_int_str_time [of t]
  by (simp add: event_format_json_string_def event_escape_alloc_Some snprintf_buf_def json_string_text_def)

lemma plain_keys: "plain ''type''" "plain ''data''" "plain ''message''" "plain ''timestamp''"
  by (simp_all add: plain_def)

lemmas member_type = scan_string_member [of "''type''", simplified]
lemmas member_data = scan_string_member [of "''data''", simplified]
lemmas member_message = scan_string_member [of "''message''", simplified]
lemmas hit_type = scan_string_hit [of "''type''", simplified]
lemmas hit_data = scan_string_hit [of "''data''", simplified]
lemmas hit_message = scan_string_hit [of "''message''", simplified]
lemmas last_timestamp = scan_last_int_member [of "''timestamp''", simplified]

lemma json_string_scan:
  assumes "quotable e" and "quotable d"
  shows "mg_json_get (json_string_text e d t) ''$.type'' = Found 8 (length e + 2)"
    and "mg_json_get (json_string_text e d t) ''$.data'' = Found (length e + 18) (length d + 2)"
    and "mg_json_get (json_string_text e d t) ''$'' = Found 0 (length (json_string_text e d t))"
proof -
  show "mg_json_get (json_string_text e d t) ''$.type'' = Found 8 (length e + 2)"
    using assms plain_keys
    by (simp add: hit_type json_string_text_def walk_simps)
  show "mg_json_get (json_string_text e d t) ''$.data'' = Found (length e + 18) (length d + 2)"
    using assms plain_keys
    by (simp add: hit_data json_string_text_def member_type walk_simps)
  show "mg_json_get (json_string_text e d t) ''$'' = Found 0 (length (json_string_text e d t))"
    using assms plain_keys
    by (simp add: json_string_text_def member_type member_data last_timestamp walk_simps)
qed

text \<open>Whatever the size of the buffer, the escaped text fits it with its NUL, reads as the
  inside of a JSON string, and is the complete escape of a prefix of the input: a buffer that is
  too small never leaves half an escape sequence behind.\<close>

theorem event_escape_safe:
  assumes "nulfree s" and "0 < n"
  shows "length (event_escape_json (Some s) n) < n
     \<and> quotable (event_escape_json (Some s) n)
     \<and> (\<exists>k. event_escape_json (Some s) n = escape_full (take k s))"
  using assms escape_loop_length [of 0 n s] escape_loop_prefix [of s 0 n]
  by (auto simp: event_escape_json_def quotable_escape_loop)

theorem event_escape_safe_witness:
  "event_escape_json (Some [CHR ''a'', DQ, CHR ''b'']) 4 = [CHR ''a'', BSL, DQ]
   \<and> length (event_escape_json (Some [CHR ''a'', DQ, CHR ''b'']) 3) < 3
   \<and> quotable (event_escape_json (Some [CHR ''a'', DQ, CHR ''b'']) 3)"
  using event_escape_safe [of "[CHR ''a'', DQ, CHR ''b'']" 3]
  by (simp add: event_escape_json_def esc_rep_def)

text \<open>A string pushed with \<open>event_format_json_string\<close> is a whole JSON object by the scanner
  that clients of this code base use, and reading its \<open>type\<close> and \<open>data\<close> members back gives
  the strings that went in, less the control bytes that the escaping drops.\<close>

theorem event_json_string_roundtrip:
  assumes "nulfree ty" and "nulfree s" and "0 \<le> t" and "t \<le> LONG_MAX"
  shows "\<exists>txt. event_format_json_string True True True (Some ty) (Some s) t = (0, Some txt)
     \<and> mg_json_get txt ''$'' = Found 0 (length txt)
     \<and> mg_json_get_str True txt ''$.type'' = Some (visible ty)
     \<and> mg_json_get_str True txt ''$.data'' = Some (visible s)"
proof -
  let ?e = "escape_full ty" and ?d = "escape_full s"
  let ?txt = "json_string_text ?e ?d t"
  have q: "quotable ?e" "quotable ?d" using assms by (auto intro: quotable_escape_full)
  have "mg_json_get_str True ?txt ''$.type'' = Some (visible ty)"
    using json_string_scan(1) [OF q] assms(1)
    by (intro get_str_of_escaped [where pre = "''{\"type\":''"]) (simp_all add: json_string_text_def)
  moreover have "mg_json_get_str True ?txt ''$.data'' = Some (visible s)"
    using json_string_scan(2) [OF q] assms(2)
    by (intro get_str_of_escaped [where pre = "''{\"type\":\"'' @ ?e @ ''\",\"data\":''"])
       (simp_all add: json_string_text_def)
  ultimately show ?thesis
    using json_string_scan(3) [OF q] json_string_fits [OF assms(3,4)] by auto
qed

theorem event_json_string_roundtrip_witness:
  "\<exists>txt. event_format_json_string True True True (Some ''msg'') (Some [CHR ''h'', DQ, LF]) 1760000000
       = (0, Some txt)
     \<and> mg_json_get_str True txt ''$.data'' = Some [CHR ''h'', DQ, LF]"
proof -
  have "visible [CHR ''h'', DQ, LF] = [CHR ''h'', DQ, LF]" by (simp add: visible_def kept_def)
  then show ?thesis
    using event_json_string_roundtrip [of "''msg''" "[CHR ''h'', DQ, LF]" 1760000000]
    by (auto simp: LONG_MAX_def)
qed

text \<open>The buffer sizes that the three formatters compute (escaped lengths plus 64) are large
  enough for every time from 0 to the end of a 64-bit clock: the text is never cut off by
  \<open>snprintf\<close>. For \<open>event_format_message\<close> the bound is reached exactly.\<close>

theorem event_formats_fit:
  assumes "0 \<le> t" and "t \<le> LONG_MAX"
  shows "event_format_with_type True True (Some ty) (Some d) t =
      (0, Some (with_type_text (escape_full ty) d t))
    \<and> event_format_message True True (Some m) t = (0, Some (message_text (escape_full m) t))
    \<and> event_format_json_string True True True (Some ty) (Some m) t =
      (0, Some (json_string_text (escape_full ty) (escape_full m) t))"
  using with_type_fits [OF assms] message_fits [OF assms] json_string_fits [OF assms] by simp

theorem event_formats_fit_witness:
  "event_format_message True True (Some ''hi'') 7 = (0, Some (message_text ''hi'' 7))"
proof -
  have "escape_full ''hi'' = ''hi''" by (simp add: esc_char_def esc_rep_def)
  then show ?thesis using event_formats_fit [of 7 _ _ "''hi''"] by (simp add: LONG_MAX_def)
qed

text \<open>The formatters fail, with -1 and no buffer left behind, exactly when an argument is NULL
  or one of their allocations fails; otherwise they return 0 and a buffer.\<close>

theorem event_formats_fail_iff:
  "(event_format_with_type a1 a2 ty d t = (-1, None)) = (ty = None \<or> d = None \<or> \<not> a1 \<or> \<not> a2)
   \<and> (event_format_message a1 a2 m t = (-1, None)) = (m = None \<or> \<not> a1 \<or> \<not> a2)
   \<and> (event_format_json_string a1 a2 a3 ty m t = (-1, None)) =
       (ty = None \<or> m = None \<or> \<not> a1 \<or> \<not> a2 \<or> \<not> a3)"
  by (cases a1; cases a2; cases a3)
     (auto simp: event_format_with_type_def event_format_message_def event_format_json_string_def
       event_escape_alloc_Some event_escape_alloc_None split: option.splits)

end
