(* ===== verification/EventPusher.thy ===== *)
theory EventPusher
  imports World EventFormat
begin

text \<open>
  src/event_pusher.c: pushing events to the current WebSocket client and to the nng publisher
  socket. The module's static variables are the record below; \<open>g_ws_conn\<close>, which handler_ws.c
  owns, is in the base record. The mutex around a push protects \<open>g_ws_conn\<close>; the functions run in
  the main loop's thread, one after the other.
\<close>

record pusher_world = world0 +
  ep_initialized :: bool
  ep_push_count :: u64
  ep_nng_sock :: nat
  ep_nng_initialized :: bool

section \<open>Operations\<close>

definition ipc_path :: string where "ipc_path = ''ipc:///tmp/cyctron.sock''"

definition nng_init_internal :: "'d env \<Rightarrow> 'a pusher_world_scheme \<Rightarrow> 'a pusher_world_scheme" where
  "nng_init_internal E w =
     (if ep_nng_initialized w then w
      else case nng_pub0_open E w of ((rv, s), w1) \<Rightarrow>
        if rv \<noteq> 0 then w1
        else
          (case nng_listen E ipc_path (w1\<lparr>ep_nng_sock := s\<rparr>) of (rv2, w2) \<Rightarrow>
             if rv2 \<noteq> 0 then nng_close (ep_nng_sock w2) w2
             else w2\<lparr>ep_nng_initialized := True\<rparr>))"

definition nng_push_internal :: "'d env \<Rightarrow> string option \<Rightarrow> 'a pusher_world_scheme \<Rightarrow> 'a pusher_world_scheme" where
  "nng_push_internal E data w =
     (case data of
        None \<Rightarrow> w
      | Some d \<Rightarrow> if \<not> ep_nng_initialized w then w else nng_publish E (ep_nng_sock w) d w)"

definition event_pusher_init :: "'d env \<Rightarrow> 'a pusher_world_scheme \<Rightarrow> bool \<times> 'a pusher_world_scheme" where
  "event_pusher_init E w =
     (if ep_initialized w then (True, w)
      else (True, nng_init_internal E (w\<lparr>ep_initialized := True, ep_push_count := 0\<rparr>)))"

definition event_pusher_cleanup :: "'a pusher_world_scheme \<Rightarrow> 'a pusher_world_scheme" where
  "event_pusher_cleanup w =
     (if \<not> ep_initialized w then w
      else
        (let w1 = (if ep_nng_initialized w
                   then (nng_close (ep_nng_sock w) w)\<lparr>ep_nng_initialized := False\<rparr> else w)
         in w1\<lparr>ep_initialized := False\<rparr>))"

text \<open>One WebSocket message to a connection, if it is one.\<close>

definition push_ws :: "addr \<Rightarrow> string \<Rightarrow> 'a pusher_world_scheme \<Rightarrow> 'a pusher_world_scheme" where
  "push_ws c data w =
     (if c_is_websocket (conn_at w c)
      then (mg_ws_send c data WEBSOCKET_OP_TEXT w)\<lparr>ep_push_count := ep_push_count w + 1\<rparr>
      else w)"

definition event_push :: "'d env \<Rightarrow> string option \<Rightarrow> 'a pusher_world_scheme \<Rightarrow> 'a pusher_world_scheme" where
  "event_push E data w =
     (case data of
        None \<Rightarrow> w
      | Some d \<Rightarrow>
          if \<not> ep_initialized w then w
          else
            (let w1 = (case w_ws_conn w of None \<Rightarrow> w | Some c \<Rightarrow> push_ws c d w)
             in nng_push_internal E (Some d) w1))"

definition event_push_to :: "addr option \<Rightarrow> string option \<Rightarrow> 'a pusher_world_scheme \<Rightarrow> 'a pusher_world_scheme" where
  "event_push_to c data w =
     (case (c, data) of (Some a, Some d) \<Rightarrow> push_ws a d w | _ \<Rightarrow> w)"

text \<open>The formatted pushes: the text is built first, and nothing is pushed when that fails.\<close>

definition formatted ::
  "int \<times> string option \<Rightarrow> (string option \<Rightarrow> 'w \<Rightarrow> 'w) \<Rightarrow> 'w \<Rightarrow> 'w" where
  "formatted r push w = (case r of (rc, Some buf) \<Rightarrow> if rc = 0 then push (Some buf) w else w | (rc, None) \<Rightarrow> w)"

definition event_push_with_type ::
  "'d env \<Rightarrow> string option \<Rightarrow> string option \<Rightarrow> 'a pusher_world_scheme \<Rightarrow> 'a pusher_world_scheme" where
  "event_push_with_type E type data w =
     (case ask2 (env_malloc E) w of (a1, a2, w1) \<Rightarrow> (case ask (env_time E) w1 of (t, w2) \<Rightarrow>
        formatted (event_format_with_type a1 a2 type data t) (event_push E) w2))"

definition event_push_message :: "'d env \<Rightarrow> string option \<Rightarrow> 'a pusher_world_scheme \<Rightarrow> 'a pusher_world_scheme" where
  "event_push_message E msg w =
     (case ask2 (env_malloc E) w of (a1, a2, w1) \<Rightarrow> (case ask (env_time E) w1 of (t, w2) \<Rightarrow>
        formatted (event_format_message a1 a2 msg t) (event_push E) w2))"

definition event_push_json_string ::
  "'d env \<Rightarrow> string option \<Rightarrow> string option \<Rightarrow> 'a pusher_world_scheme \<Rightarrow> 'a pusher_world_scheme" where
  "event_push_json_string E type str w =
     (case ask3 (env_malloc E) w of (a1, a2, a3, w1) \<Rightarrow> (case ask (env_time E) w1 of (t, w2) \<Rightarrow>
        formatted (event_format_json_string a1 a2 a3 type str t) (event_push E) w2))"

definition event_push_json :: "'d env \<Rightarrow> string option \<Rightarrow> 'a pusher_world_scheme \<Rightarrow> 'a pusher_world_scheme" where
  "event_push_json E json w = (case json of None \<Rightarrow> w | Some j \<Rightarrow> event_push E (Some j) w)"

definition event_push_with_type_to ::
  "'d env \<Rightarrow> addr option \<Rightarrow> string option \<Rightarrow> string option \<Rightarrow> 'a pusher_world_scheme \<Rightarrow> 'a pusher_world_scheme" where
  "event_push_with_type_to E c type data w =
     (case ask2 (env_malloc E) w of (a1, a2, w1) \<Rightarrow> (case ask (env_time E) w1 of (t, w2) \<Rightarrow>
        formatted (event_format_with_type a1 a2 type data t) (event_push_to c) w2))"

definition event_push_message_to ::
  "'d env \<Rightarrow> addr option \<Rightarrow> string option \<Rightarrow> 'a pusher_world_scheme \<Rightarrow> 'a pusher_world_scheme" where
  "event_push_message_to E c msg w =
     (case ask2 (env_malloc E) w of (a1, a2, w1) \<Rightarrow> (case ask (env_time E) w1 of (t, w2) \<Rightarrow>
        formatted (event_format_message a1 a2 msg t) (event_push_to c) w2))"

definition event_push_json_string_to ::
  "'d env \<Rightarrow> addr option \<Rightarrow> string option \<Rightarrow> string option \<Rightarrow> 'a pusher_world_scheme \<Rightarrow> 'a pusher_world_scheme" where
  "event_push_json_string_to E c type str w =
     (case ask3 (env_malloc E) w of (a1, a2, a3, w1) \<Rightarrow> (case ask (env_time E) w1 of (t, w2) \<Rightarrow>
        formatted (event_format_json_string a1 a2 a3 type str t) (event_push_to c) w2))"

definition event_pusher_has_connection :: "'a pusher_world_scheme \<Rightarrow> bool" where
  "event_pusher_has_connection w =
     (case w_ws_conn w of None \<Rightarrow> False | Some c \<Rightarrow> c_is_websocket (conn_at w c))"

definition event_pusher_get_push_count :: "'a pusher_world_scheme \<Rightarrow> u64" where
  "event_pusher_get_push_count w = ep_push_count w"

section \<open>What a push leaves alone\<close>

text \<open>
  \<open>keeps w w'\<close>: the later state differs from the earlier only in the counter, in what was sent and
  published and in the number of pushes: the connections' flags, the sockets, \<open>g_ws_conn\<close> and
  the variables of all other components are as before.
\<close>

definition keeps :: "'a pusher_world_scheme \<Rightarrow> 'a pusher_world_scheme \<Rightarrow> bool" where
  "keeps w w' \<longleftrightarrow> dom (w_conns w') = dom (w_conns w) \<and> w_nng_socks w' = w_nng_socks w
     \<and> w_ws_conn w' = w_ws_conn w \<and> pusher_world.more w' = pusher_world.more w
     \<and> ep_initialized w' = ep_initialized w \<and> ep_nng_initialized w' = ep_nng_initialized w
     \<and> ep_nng_sock w' = ep_nng_sock w \<and> (\<forall>a. flags (conn_at w' a) = flags (conn_at w a))"

lemma keeps_refl [simp, intro]: "keeps w w"
  by (simp add: keeps_def)

lemma keeps_trans: "keeps w w' \<Longrightarrow> keeps w' w'' \<Longrightarrow> keeps w w''"
  by (simp add: keeps_def)

lemma keeps_tick: "keeps w (w\<lparr>w_tick := n\<rparr>)"
  by (simp add: keeps_def conn_at_def)

lemma pusher_updates [simp]:
  "w_conns (w\<lparr>ep_push_count := k\<rparr>) = w_conns w" "conn_at (w\<lparr>ep_push_count := k\<rparr>) a = conn_at w a"
  "sent (w\<lparr>ep_push_count := k\<rparr>) a = sent w a" "w_published (w\<lparr>ep_push_count := k\<rparr>) = w_published w"
  "conn_at (w\<lparr>w_tick := n\<rparr>) a = conn_at w a" "sent (w\<lparr>w_tick := n\<rparr>) a = sent w a"
  by (simp_all add: conn_at_def sent_def)

lemma more_fields:
  "world0.more w = world0.more w' \<longleftrightarrow>
     ep_initialized w = ep_initialized w' \<and> ep_push_count w = ep_push_count w'
     \<and> ep_nng_sock w = ep_nng_sock w' \<and> ep_nng_initialized w = ep_nng_initialized w'
     \<and> pusher_world.more w = pusher_world.more w'"
  by (cases w; cases w') simp

lemma keeps_ws_send: "keeps w (mg_ws_send c p op w)"
proof -
  have "world0.more (mg_ws_send c p op w) = world0.more w" by simp
  then show ?thesis unfolding more_fields by (simp add: keeps_def)
qed

lemma keeps_push_ws [intro]: "keeps w (push_ws c d w)"
proof -
  have "keeps w (mg_ws_send c d WEBSOCKET_OP_TEXT w)" by (rule keeps_ws_send)
  then show ?thesis by (simp add: push_ws_def keeps_def)
qed

lemma keeps_publish: "keeps w (nng_publish E s d w)"
  by (auto simp: nng_publish_def ask_def keeps_def conn_at_def)

lemma keeps_nng_push [intro]: "keeps w (nng_push_internal E d w)"
  using keeps_publish by (auto simp: nng_push_internal_def split: option.splits)

lemma keeps_event_push [intro]: "keeps w (event_push E d w)"
  by (auto simp: event_push_def Let_def intro: keeps_trans split: option.splits)

lemma keeps_event_push_to [intro]: "keeps w (event_push_to c d w)"
  by (auto simp: event_push_to_def split: option.splits)

lemma keeps_formatted:
  assumes "\<And>d v. keeps v (push d v)"
  shows "keeps w (formatted r push w)"
  using assms by (auto simp: formatted_def split: prod.splits option.splits)

text \<open>Every push.\<close>

lemma keeps_pushes [intro]:
  "keeps w (event_push_with_type E ty d w)" "keeps w (event_push_message E m w)"
  "keeps w (event_push_json_string E ty d w)" "keeps w (event_push_json E m w)"
  "keeps w (event_push_with_type_to E c ty d w)" "keeps w (event_push_message_to E c m w)"
  "keeps w (event_push_json_string_to E c ty d w)"
  unfolding event_push_with_type_def event_push_message_def event_push_json_string_def
    event_push_with_type_to_def event_push_message_to_def event_push_json_string_to_def
    event_push_json_def ask_def ask2_def ask3_def
  by (auto intro!: keeps_trans [OF keeps_tick keeps_formatted] split: option.splits)


section \<open>Properties\<close>

lemma push_ws_sent:
  "c \<in> dom (w_conns w) \<Longrightarrow> c_is_websocket (conn_at w c) \<Longrightarrow> sent (push_ws c d w) c = sent w c @ ws_frame 1 d"
  "a \<noteq> c \<or> \<not> c_is_websocket (conn_at w c) \<Longrightarrow> sent (push_ws c d w) a = sent w a"
  by (auto simp: push_ws_def WEBSOCKET_OP_TEXT_def)

lemma push_ws_count:
  "ep_push_count (push_ws c d w) = ep_push_count w + (if c_is_websocket (conn_at w c) then 1 else 0)"
  by (simp add: push_ws_def)

lemma push_ws_published [simp]: "w_published (push_ws c d w) = w_published w"
  by (simp add: push_ws_def)

lemma nng_push_sent [simp]:
  "sent (nng_push_internal E d w) a = sent w a"
  "ep_push_count (nng_push_internal E d w) = ep_push_count w"
  by (auto simp: nng_push_internal_def nng_publish_def ask_def sent_def conn_at_def split: option.splits)

text \<open>C26: What a broadcast does. An initialised pusher sends the event as one text frame to the
  current WebSocket client and counts it, sends nothing to any other connection, and publishes it at
  most once, on the module's own nng socket; when the current connection is not a WebSocket,
  nothing is sent and nothing counted. Before initialisation, after the cleanup, and for a NULL event, it
  does nothing at all.\<close>

theorem event_push_effect:
  assumes "w_ws_conn w = Some c" "c \<in> dom (w_conns w)"
  shows "if ep_initialized w then
       sent (event_push E (Some d) w) a =
         sent w a @ (if a = c \<and> c_is_websocket (conn_at w c) then ws_frame 1 d else [])
       \<and> ep_push_count (event_push E (Some d) w)
         = ep_push_count w + (if c_is_websocket (conn_at w c) then 1 else 0)
       \<and> (w_published (event_push E (Some d) w) = w_published w
          \<or> ep_nng_initialized w \<and> w_published (event_push E (Some d) w) = (ep_nng_sock w, d) # w_published w)
       \<and> keeps w (event_push E (Some d) w) \<and> event_push E None w = w
     else event_push E (Some d) w = w"
proof (cases "ep_initialized w")
  case True
  then have e: "event_push E (Some d) w = nng_push_internal E (Some d) (push_ws c d w)"
    using assms by (simp add: event_push_def)
  have "ep_nng_initialized (push_ws c d w) = ep_nng_initialized w"
    "ep_nng_sock (push_ws c d w) = ep_nng_sock w" "w_tick (push_ws c d w) = w_tick w"
    using keeps_push_ws [of w c d] by (simp_all add: keeps_def push_ws_def)
  then have "w_published (nng_push_internal E (Some d) (push_ws c d w)) = w_published w
     \<or> ep_nng_initialized w \<and>
       w_published (nng_push_internal E (Some d) (push_ws c d w)) = (ep_nng_sock w, d) # w_published w"
    by (auto simp: nng_push_internal_def nng_publish_def ask_def)
  moreover have "sent (push_ws c d w) a =
      sent w a @ (if a = c \<and> c_is_websocket (conn_at w c) then ws_frame 1 d else [])"
    using assms(2) by (auto simp: push_ws_sent)
  moreover have "keeps w (event_push E (Some d) w)" by (rule keeps_event_push)
  moreover have "event_push E None w = w" by (simp add: event_push_def)
  ultimately show ?thesis using True by (simp add: e push_ws_count)
qed (simp add: event_push_def)

definition one_client :: "conn \<Rightarrow> pusher_world" where
  "one_client x = \<lparr>w_tick = 0, w_conns = [1 \<mapsto> x], w_nng_socks = [7], w_published = [], w_ws_conn = Some 1,
     ep_initialized = True, ep_push_count = 0, ep_nng_sock = 7, ep_nng_initialized = True\<rparr>"

definition calm_env :: "unit env" where
  "calm_env = \<lparr>env_platform = Posix, env_fpu = no_fpu, env_time = (\<lambda>_. 1760000000), env_millis = (\<lambda>_. 0),
     env_monotonic = (\<lambda>_. 5000), env_pthread = (\<lambda>_. True),
     env_malloc = (\<lambda>_. True), env_fs = (\<lambda>_. demo_fs), env_fopen = (\<lambda>_ _. True), env_stat = (\<lambda>_ _. Some (12, 7)),
     env_dlopen = (\<lambda>_ _. Some 1), env_dlsym = (\<lambda>_ _ _. Some 1), env_ffi_prep = (\<lambda>_. True),
     env_plugin = (\<lambda>_ _ _. (0, ''{}'')), env_nng_open = (\<lambda>n. (0, n)), env_nng_listen = (\<lambda>_ _. 0),
     env_nng_msg = (\<lambda>_. True)\<rparr>"

theorem event_push_effect_witness:
  "sent (event_push calm_env (Some ''{}'') (one_client (null_conn\<lparr>c_is_websocket := True\<rparr>))) 1 = ws_frame 1 ''{}''"
  using event_push_effect [of "one_client (null_conn\<lparr>c_is_websocket := True\<rparr>)" 1 calm_env "''{}''" 1]
  by (simp add: one_client_def conn_at_def sent_def sent_bytes_def null_conn_def)

lemma event_push_json_string_to_eq:
  assumes "env_malloc E (w_tick w)" "env_malloc E (w_tick w + 1)" "env_malloc E (w_tick w + 2)"
    and "0 \<le> env_time E (w_tick w + 3)" "env_time E (w_tick w + 3) \<le> LONG_MAX"
  shows "event_push_json_string_to E (Some c) (Some ty) (Some str) w
    = push_ws c (json_string_text (escape_full ty) (escape_full str) (env_time E (w_tick w + 3)))
        (w\<lparr>w_tick := w_tick w + 4\<rparr>)"
  using assms json_string_fits [OF assms(4,5), of ty str]
  by (simp add: event_push_json_string_to_def ask3_def ask_def formatted_def event_push_to_def add.commute)



text \<open>The module owns its socket while it is initialised.\<close>

definition pusher_ok :: "'a pusher_world_scheme \<Rightarrow> bool" where
  "pusher_ok w \<longleftrightarrow> (ep_nng_initialized w \<longrightarrow> ep_initialized w \<and> ep_nng_sock w \<in> set (w_nng_socks w))"

text \<open>The publisher socket is neither leaked nor lost. Initialising is idempotent and always
  reports success; whether opening or listening fails or not, a later cleanup leaves exactly the
  sockets that were open before, and the module can then be initialised again.\<close>

theorem event_pusher_init_cleanup:
  assumes "\<not> ep_initialized w" "\<not> ep_nng_initialized w"
  shows "fst (event_pusher_init E w)
     \<and> pusher_ok (snd (event_pusher_init E w))
     \<and> event_pusher_init E (snd (event_pusher_init E w)) = (True, snd (event_pusher_init E w))
     \<and> w_nng_socks (event_pusher_cleanup (snd (event_pusher_init E w))) = w_nng_socks w
     \<and> \<not> ep_initialized (event_pusher_cleanup (snd (event_pusher_init E w)))
     \<and> \<not> ep_nng_initialized (event_pusher_cleanup (snd (event_pusher_init E w)))"
proof -
  obtain rv k where o: "env_nng_open E (w_tick w) = (rv, k)" by (cases "env_nng_open E (w_tick w)")
  let ?rv2 = "env_nng_listen E (Suc (w_tick w)) ipc_path"
  let ?w0 = "w\<lparr>w_tick := Suc (w_tick w), ep_initialized := True, ep_push_count := 0\<rparr>"
  let ?w1 = "?w0\<lparr>w_nng_socks := k # w_nng_socks w, ep_nng_sock := k, w_tick := Suc (Suc (w_tick w))\<rparr>"
  have i: "event_pusher_init E w = (True, if rv \<noteq> 0 then ?w0
      else if ?rv2 \<noteq> 0 then ?w1\<lparr>w_nng_socks := w_nng_socks w\<rparr> else ?w1\<lparr>ep_nng_initialized := True\<rparr>)"
    using assms o
    by (simp add: event_pusher_init_def nng_init_internal_def nng_pub0_open_def nng_listen_def
        nng_close_def ask_def)
  show ?thesis
    using assms unfolding i
    by (cases "rv = 0"; cases "?rv2 = 0")
       (simp_all add: event_pusher_cleanup_def nng_close_def pusher_ok_def event_pusher_init_def)
qed

theorem event_pusher_init_cleanup_witness:
  "w_nng_socks (event_pusher_cleanup (snd (event_pusher_init calm_env
     (event_pusher_cleanup (one_client null_conn))))) = []"
proof -
  have s: "w_nng_socks (event_pusher_cleanup (one_client null_conn)) = []"
    by (simp add: one_client_def event_pusher_cleanup_def nng_close_def)
  have n: "\<not> ep_initialized (event_pusher_cleanup (one_client null_conn))"
    "\<not> ep_nng_initialized (event_pusher_cleanup (one_client null_conn))"
    by (simp_all add: one_client_def event_pusher_cleanup_def nng_close_def)
  show ?thesis using event_pusher_init_cleanup [OF n, of calm_env] s by simp
qed

end
