(* ===== verification/HandlerStatic.thy ===== *)
theory HandlerStatic
  imports MgServe EventPusher
begin

text \<open>
  The replies that the HTTP handlers share (\<open>reply_json\<close> of src/handler.c; the other handlers write the
  same headers inline) and src/handler_static.c: static files and the built-in start page. The
  lemmas: which file a URI can reach, and which URIs get the start page.
\<close>

section \<open>JSON replies\<close>

definition JSON_HEADERS :: string where
  "JSON_HEADERS = ''Access-Control-Allow-Origin: *'' @ CRLF @ ''Content-Type: application/json'' @ CRLF"

definition reply_json :: "addr \<Rightarrow> int \<Rightarrow> string \<Rightarrow> 'a world0_scheme \<Rightarrow> 'a world0_scheme" where
  "reply_json c code json w = mg_http_reply c code JSON_HEADERS json w"

definition error_json :: "int \<Rightarrow> string \<Rightarrow> string" where
  "error_json code message =
     ''{\"error\":'' @ int_str code @ '',\"message\":'' @ [DQ]
       @ message @ [DQ] @ ''}''"

section \<open>The start page\<close>

definition INDEX_HTML :: string where "INDEX_HTML = ''index.html''"

definition INDEX_HTML_CONTENT :: string where
  "INDEX_HTML_CONTENT =
     ''<!DOCTYPE html>'' @ [LF] @
     ''<html lang=\"zh-cn\">'' @ [LF] @
     ''<head>'' @ [LF] @
     ''  <meta charset=\"UTF-8\">'' @ [LF] @
     ''  <meta name=\"viewport\" content=\"width=device-width,minimum-scale=1,maximum-scale=1,initial-scale=1,user-scalable=no\">'' @ [LF] @
     ''  <link rel=\"icon\" href=\"https://book.funxdata.com/public/funxdata.ico\">'' @ [LF] @
     ''  <title>Piksel</title>'' @ [LF] @
     ''</head>'' @ [LF] @
     ''<body>'' @ [LF] @
     ''  <div id=\"asides\" class=\"vg-asides\"></div>'' @ [LF] @
     ''  <div id=\"app\"></div>'' @ [LF] @
     ''  <div id=\"popup\"></div>'' @ [LF] @
     ''  <script type=\"module\" src=\"/pages/browser.js\"></script>'' @ [LF] @
     ''  <script type=\"module\" src=\"/pages/router.js\"></script>'' @ [LF] @
     ''  <script type=\"module\" src=\"/init/init.js\"></script>'' @ [LF] @
     ''</body>'' @ [LF] @
     ''</html>'' @ [LF]"

definition reply_index_html :: "addr \<Rightarrow> 'a world0_scheme \<Rightarrow> 'a world0_scheme" where
  "reply_index_html c w =
     mg_http_reply c 200
       (''Content-Type: text/html; charset=utf-8'' @ CRLF @ ''Cache-Control: no-cache'' @ CRLF)
       INDEX_HTML_CONTENT w"

section \<open>Paths\<close>

definition static_resolve_path :: "platform \<Rightarrow> string \<Rightarrow> nat \<Rightarrow> int \<times> string option" where
  "static_resolve_path p uri out_size =
     (if uri_has_traversal (Some uri) then (-1, None)
      else if \<not> has_file_extension uri then
        (if uri = [] \<or> uri = ''/''
         then (0, Some (snprintf_buf out_size (WEB_ROOT p @ ''/'' @ INDEX_HTML)))
         else (0, Some (snprintf_buf out_size (WEB_ROOT p @ uri @ ''/'' @ INDEX_HTML))))
      else (0, Some (snprintf_buf out_size (WEB_ROOT p @ uri))))"

definition static_should_fallback :: "string option \<Rightarrow> bool" where
  "static_should_fallback uri =
     (case uri of
        None \<Rightarrow> False
      | Some u \<Rightarrow>
          if u = [] \<or> u = ''/'' then False
          else if has_file_extension u then False
          else if u = ''/api'' \<or> strncmp_eq u ''/api/'' 5 then False
          else if u = ''/soket'' then False
          else if u = ''/sse'' \<or> strncmp_eq u ''/sse?'' 5 then False
          else True)"

section \<open>The handler\<close>

definition static_opts :: mg_http_serve_opts where
  "static_opts = \<lparr>so_mime_types = ''svg=image/svg+xml,json=application/json,''
       @ ''js=text/javascript,mjs=text/javascript'', so_extra_headers = [], so_page404 = None\<rparr>"

text \<open>The URI as the handler sees it: at most 511 bytes, without a query.\<close>

definition static_uri :: "http_message \<Rightarrow> string" where
  "static_uri hm = cut_at (CHR ''?'') (cbuf 512 (hm_uri hm))"

definition ev_handler_static :: "'d env \<Rightarrow> addr \<Rightarrow> http_message \<Rightarrow> 'a world0_scheme \<Rightarrow> 'a world0_scheme" where
  "ev_handler_static E c hm w =
     (let uri = static_uri hm; p = env_platform E
      in if uri_has_traversal (Some uri) then reply_json c 400 (error_json 400 ''Bad Request'') w
         else (case static_resolve_path p uri 1024 of
                 (rc, None) \<Rightarrow> reply_json c 400 (error_json 400 ''Bad Request'') w
               | (rc, Some file_path) \<Rightarrow>
                   if file_path = WEB_ROOT p @ ''/'' @ INDEX_HTML then reply_index_html c w
                   else if static_should_fallback (Some uri) then reply_index_html c w
                   else mg_http_serve_file E c hm file_path static_opts w))"

section \<open>Which files can be read\<close>

text \<open>The files whose content a connection is to be sent.\<close>

definition streamed :: "'a world0_scheme \<Rightarrow> addr \<Rightarrow> string set" where
  "streamed w a = {f. \<exists>off n. StreamFile f off n \<in> set (c_send (conn_at w a))}"

lemma streamed_upd:
  assumes "\<And>x. {f. \<exists>off n. StreamFile f off n \<in> set (c_send (g x))} = {f. \<exists>off n. StreamFile f off n \<in> set (c_send x)} \<union> F"
  shows "streamed (upd_conn c g w) a \<subseteq> streamed w a \<union> (if a = c then F else {})"
  using assms by (auto simp: streamed_def conn_at_def upd_conn_def split: option.splits)

lemma streamed_sends:
  "streamed (mg_send c bs w) a \<subseteq> streamed w a" "streamed (mg_http_reply c code hs body w) a \<subseteq> streamed w a"
  "streamed (upd_conn c (\<lambda>x. x\<lparr>c_is_resp := b\<rparr>) w) a \<subseteq> streamed w a"
  using streamed_upd [of "\<lambda>x. x\<lparr>c_send := c_send x @ [Bytes bs]\<rparr>" "{}" c w a]
    streamed_upd [of "\<lambda>x. x\<lparr>c_send := c_send x @ [Bytes (http_reply_bytes code hs body)], c_is_resp := False\<rparr>" "{}" c w a]
    streamed_upd [of "\<lambda>x. x\<lparr>c_is_resp := b\<rparr>" "{}" c w a]
  by (simp_all add: mg_send_def mg_http_reply_def split: if_splits)

lemma streamed_tick [simp]: "streamed (w\<lparr>w_tick := n\<rparr>) a = streamed w a"
  by (simp add: streamed_def conn_at_def)

text \<open>Only questions were asked.\<close>

definition ticks :: "'a world0_scheme \<Rightarrow> 'a world0_scheme \<Rightarrow> bool" where
  "ticks w w' \<longleftrightarrow> (\<exists>n. w' = w\<lparr>w_tick := n\<rparr>)"

lemma ticks_refl [simp]: "ticks w w"
  unfolding ticks_def by (intro exI [of _ "w_tick w"]) simp

lemma ticks_trans: "ticks w v \<Longrightarrow> ticks v u \<Longrightarrow> ticks w u"
  by (auto simp: ticks_def)

lemma ticks_open: "mg_fs_open E path w = (b, w') \<Longrightarrow> ticks w w'"
  by (auto simp: mg_fs_open_def ask_def ticks_def split: if_splits)

lemma open_served_result:
  assumes "open_served E hm path opts w = ((ok, f, mime, gzip), w1)" "so_page404 opts = None"
  shows "ticks w w1 \<and> f \<in> {path, snprintf_buf (MG_PATH_MAX (env_platform E)) (path @ ''.gz'')}"
proof -
  let ?gz = "snprintf_buf (MG_PATH_MAX (env_platform E)) (path @ ''.gz'')"
  obtain ok1 v where v: "(case mg_http_get_header (hm_headers hm) ''Accept-Encoding'' of
       Some a \<Rightarrow> if mg_match a CR ''*gzip*'' then mg_fs_open E ?gz w else (False, w)
     | None \<Rightarrow> (False, w)) = (ok1, v)" by (metis surj_pair)
  then have tv: "ticks w v" by (auto split: option.splits if_splits dest: ticks_open)
  obtain ok2 v2 where v2: "mg_fs_open E path v = (ok2, v2)" by (cases "mg_fs_open E path v")
  have "ticks w v2" by (rule ticks_trans [OF tv ticks_open [OF v2]])
  with assms v v2 tv show ?thesis
    by (cases ok1; cases ok2) (auto simp: open_served_def Let_def)
qed

lemma serve_file_streams:
  assumes "so_page404 opts = None"
  shows "streamed (mg_http_serve_file E c hm path opts w) a \<subseteq> streamed w a
    \<union> (if a = c then {path, snprintf_buf (MG_PATH_MAX (env_platform E)) (path @ ''.gz'')} else {})"
proof -
  obtain ok fl mime gz w1 where o: "open_served E hm path opts w = ((ok, fl, mime, gz), w1)"
    by (metis surj_pair)
  from open_served_result [OF o assms] obtain n where w1: "w1 = w\<lparr>w_tick := n\<rparr>"
    and f: "fl \<in> {path, snprintf_buf (MG_PATH_MAX (env_platform E)) (path @ ''.gz'')}" by (auto simp: ticks_def)
  have s: "streamed (upd_conn c (\<lambda>x. x\<lparr>c_pfn := File_protocol, c_send := c_send x @ [StreamFile fl off cl]\<rparr>) v) a
     \<subseteq> streamed v a \<union> (if a = c then {fl} else {})" for off cl and v :: "'a world0_scheme"
    by (rule streamed_upd) auto
  define S where "S = streamed w a \<union> (if a = c then {path, snprintf_buf (MG_PATH_MAX (env_platform E)) (path @ ''.gz'')} else {})"
  have S: "streamed w a \<subseteq> S" "a = c \<Longrightarrow> fl \<in> S" using f by (auto simp: S_def)
  have le: "streamed (mg_send c bs v) a \<subseteq> S" "streamed (mg_http_reply c code hs b v) a \<subseteq> S"
    "streamed (upd_conn c (\<lambda>x. x\<lparr>c_is_resp := False\<rparr>) v) a \<subseteq> S"
    "streamed (upd_conn c (\<lambda>x. x\<lparr>c_pfn := File_protocol, c_send := c_send x @ [StreamFile fl off cl]\<rparr>) v) a \<subseteq> S"
    if "streamed v a \<subseteq> S" for bs code hs b off cl and v :: "'a world0_scheme"
    subgoal by (rule subset_trans [OF streamed_sends(1) that])
    subgoal by (rule subset_trans [OF streamed_sends(2) that])
    subgoal by (rule subset_trans [OF streamed_sends(3) that])
    subgoal using that S(2) by (intro subset_trans [OF s]) auto
    done
  have "streamed w1 a \<subseteq> S" "streamed (w1\<lparr>w_tick := k\<rparr>) a \<subseteq> S" for k using w1 S(1) by simp_all
  then show ?thesis
    unfolding S_def [symmetric] mg_http_serve_file_def o prod.case ask_def Let_def
    by (simp split: option.split prod.split add: le)
qed

lemma no_dotdot_append:
  assumes "\<not> strstr s ''..''" "\<not> strstr t ''..''" "s = [] \<or> last s \<noteq> CHR ''.'' \<or> t = [] \<or> hd t \<noteq> CHR ''.''"
  shows "\<not> strstr (s @ t) ''..''"
proof
  assume "strstr (s @ t) ''..''"
  then obtain x y where xy: "s @ t = x @ ''..'' @ y" by (auto simp: strstr_iff)
  then consider z where "s = x @ z" "z @ t = ''..'' @ y" | z where "s @ z = x" "t = z @ ''..'' @ y"
    by (auto simp: append_eq_append_conv2)
  then show False
  proof cases
    case 1
    show False
    proof (cases "length z")
      case 0
      with 1 assms(2) show False by (auto simp: strstr_iff intro: exI [of _ "[]"])
    next
      case (Suc n)
      show False
      proof (cases n)
        case 0
        with Suc obtain c where "z = [c]" by (auto simp: length_Suc_conv)
        with 1 assms(3) show False by (cases t) auto
      next
        case (Suc m)
        with \<open>length z = Suc n\<close> obtain c d r where "z = c # d # r" by (auto simp: length_Suc_conv)
        with 1 assms(1) show False by (auto simp: strstr_iff)
      qed
    qed
  next
    case 2
    with assms(2) show False by (auto simp: strstr_iff)
  qed
qed

lemma no_dotdot_take: "\<not> strstr s ''..'' \<Longrightarrow> \<not> strstr (take n s) ''..''"
  by (metis append_take_drop_id strstr_iff append_assoc)

text \<open>The names that a URI can turn into.\<close>

definition static_path :: "platform \<Rightarrow> string \<Rightarrow> string" where
  "static_path p uri = WEB_ROOT p @ uri @ (if has_file_extension uri then [] else ''/index.html'')"

definition static_names :: "platform \<Rightarrow> string \<Rightarrow> string set" where
  "static_names p uri = {static_path p uri, snprintf_buf (MG_PATH_MAX p) (static_path p uri @ ''.gz'')}"

lemma static_uri_length: "length (static_uri hm) \<le> 511"
proof -
  have "length (static_uri hm) \<le> length (cbuf 512 (hm_uri hm))"
    by (simp add: static_uri_def cut_at_def length_takeWhile_le)
  also have "\<dots> \<le> 511" by (simp add: cbuf_def cstr_def) (metis length_takeWhile_le length_take min.cobounded2 le_trans)
  finally show ?thesis .
qed

lemma WEB_ROOT_length: "length (WEB_ROOT p) = 5"
  by (simp add: WEB_ROOT_def)

lemma static_names_below:
  assumes "uri = CHR ''/'' # u" "\<not> uri_has_traversal (Some uri)" "f \<in> static_names p uri"
  shows "prefix [''web''] (locate p f)"
proof -
  have u: "\<not> strstr uri ''..''" using assms(2) by (simp add: uri_has_traversal_def)
  obtain t m where t: "f = take m (WEB_ROOT p @ uri @ t)" "6 \<le> m"
    "t \<in> (if has_file_extension uri then {[], ''.gz''} else {''/index.html'', ''/index.html.gz''})"
  proof -
    let ?t = "if has_file_extension uri then [] else ''/index.html''"
    have m: "6 \<le> length (static_path p uri)" "6 \<le> MG_PATH_MAX p - 1"
      by (simp add: static_path_def WEB_ROOT_length assms(1)) (cases p; simp add: MG_PATH_MAX_def)
    consider "f = take (length (static_path p uri)) (WEB_ROOT p @ uri @ ?t)"
      | "f = take (MG_PATH_MAX p - 1) (WEB_ROOT p @ uri @ ?t @ ''.gz'')"
      using assms(3) unfolding static_names_def snprintf_buf_def static_path_def by auto
    then show thesis
    proof cases
      case 1
      show thesis by (rule that [OF 1 m(1)]) simp
    next
      case 2
      show thesis by (rule that [OF _ m(2), of "?t @ ''.gz''"]) (use 2 in simp_all)
    qed
  qed
  have "last uri \<noteq> CHR ''.''" if ext: "has_file_extension uri"
  proof -
    obtain stem ext where "uri = stem @ CHR ''.'' # ext" "ext \<noteq> []" "CHR ''/'' \<notin> set ext" "CHR ''.'' \<notin> set ext"
      using ext by (rule has_file_extension_split)
    then show ?thesis using last_in_set [of ext] by (metis last_ConsR last_appendR list.discI)
  qed
  then have "\<not> strstr (uri @ t) ''..''"
    using t(3) u by (intro no_dotdot_append) (auto split: if_splits simp: assms(1))
  then have n: "\<not> strstr (take k (uri @ t)) ''..''" for k by (rule no_dotdot_take)
  obtain k where k: "m = 5 + Suc k" using t(2) by (auto simp: le_iff_add)
  have "f = WEB_ROOT p @ CHR ''/'' # take k (u @ t)"
    using t(1) by (simp add: k WEB_ROOT_length assms(1))
  moreover have "''..'' \<notin> set (comps p (take k (u @ t)))"
  proof (rule no_dotdot_comps)
    have "take (Suc k) (uri @ t) = CHR ''/'' # take k (u @ t)" by (simp add: assms(1))
    with n [of "Suc k"] show "\<not> strstr (take k (u @ t)) ''..''" by auto
  qed
  ultimately show ?thesis
    using locate_below [of p "CHR ''/''" "take k (u @ t)" "WEB_ROOT p"] by (simp add: is_sep_def locate_dirs)
qed

text \<open>C17: Nothing outside the web directory can be read. Whatever the request, the only file that the
  static handler puts into a send buffer is the one its URI names (with \<open>/index.html\<close> when the URI has
  no extension, and \<open>.gz\<close> when the client accepts it), it goes to the connection that asked, and
  if the URI begins with a slash it lies below the web directory; with \<open>..\<close> in the URI there is
  none.\<close>

theorem static_file_confined:
  assumes "f \<in> streamed (ev_handler_static E c hm w) a" "f \<notin> streamed w a"
  shows "a = c \<and> \<not> uri_has_traversal (Some (static_uri hm)) \<and> f \<in> static_names (env_platform E) (static_uri hm)
    \<and> (cat (static_uri hm) 0 = CHR ''/'' \<longrightarrow> prefix [''web''] (locate (env_platform E) f))"
proof -
  let ?p = "env_platform E" and ?u = "static_uri hm"
  have r: "f \<notin> streamed (reply_json c code j w) a" "f \<notin> streamed (reply_index_html c w) a" for code j
    using streamed_sends(2) assms(2) unfolding reply_json_def reply_index_html_def by blast+
  let ?path = "static_path ?p ?u"
  have len: "length ?path < 1024" using static_uri_length [of hm] by (simp add: static_path_def WEB_ROOT_length)
  have nt: "\<not> uri_has_traversal (Some ?u)" and root: "\<not> (?u = [] \<or> ?u = ''/'')"
    using assms(1) r by (auto simp: ev_handler_static_def Let_def static_resolve_path_def snprintf_buf_def INDEX_HTML_def
        WEB_ROOT_length has_file_extension_def split: if_splits)
  have "snprintf_buf 1024 ?path = ?path" using len by (rule snprintf_buf_fits)
  then have "static_resolve_path ?p ?u 1024 = (0, Some ?path)"
    using nt root by (auto simp: static_resolve_path_def static_path_def INDEX_HTML_def)
  then have "ev_handler_static E c hm w = mg_http_serve_file E c hm ?path static_opts w"
    using assms(1) r nt by (auto simp: ev_handler_static_def Let_def split: if_splits)
  with assms serve_file_streams [of static_opts E c hm ?path w a]
  have a: "a = c" "f \<in> static_names ?p ?u"
    by (auto simp: static_opts_def static_names_def split: if_splits)
  moreover have "prefix [''web''] (locate ?p f)" if "cat ?u 0 = CHR ''/''"
  proof -
    have "?u \<noteq> []" using root by blast
    with that obtain u where "?u = CHR ''/'' # u" by (cases ?u) (auto simp: cat_def)
    then show ?thesis using nt a(2) by (rule static_names_below)
  qed
  ultimately show ?thesis using nt by blast
qed

definition get_request :: "string \<Rightarrow> http_message" where
  "get_request uri = \<lparr>hm_method = ''GET'', hm_uri = uri, hm_query = None, hm_proto = ''HTTP/1.1'',
     hm_headers = [], hm_body_len = Some 0\<rparr>"

theorem static_file_confined_witness:
  "prefix [''web''] (locate Posix ''./web/a.js'') \<and> ''./web/a.js'' \<in> static_names Posix ''/a.js''"
proof -
  let ?w = "ev_handler_static calm_env 1 (get_request ''/a.js'') (one_client null_conn)"
  have "map (\<lambda>x. case x of StreamFile f _ _ \<Rightarrow> f | Bytes _ \<Rightarrow> []) (c_send (conn_at ?w 1)) = [[], ''./web/a.js'']"
    by code_simp
  then have "''./web/a.js'' \<in> streamed ?w 1" by (auto simp: streamed_def split: out.splits)
  moreover have "''./web/a.js'' \<notin> streamed (one_client null_conn) 1"
    by (simp add: streamed_def one_client_def conn_at_def null_conn_def)
  moreover have "static_uri (get_request ''/a.js'') = ''/a.js''" by code_simp
  ultimately show ?thesis using static_file_confined by (fastforce simp: cat_def calm_env_def)
qed

end
