(* ===== verification/Interfaces.thy ===== *)
theory Interfaces
  imports CLib
begin

text \<open>
  The interfaces that several components of the program implement: a bounded table that is searched
  before a new entry is made (the cache of loaded libraries, the table of WebSocket
  connections, the list of tasks), and a first-in first-out queue (the jobs and the finished calls
  of the worker). The laws are the locales' assumptions; what a user of the interface can rely on is
  proved once from them. Each component interprets them on its own operations.
\<close>

section \<open>Search before insert\<close>

text \<open>What a caller does: take the entry that is there, else make one if there is room.\<close>

definition find_or_add ::
  "('s \<Rightarrow> 'k \<Rightarrow> 'v option) \<Rightarrow> ('k \<Rightarrow> 'v \<Rightarrow> 's \<Rightarrow> 's) \<Rightarrow> ('s \<Rightarrow> bool) \<Rightarrow> 'v option \<Rightarrow> 'k \<Rightarrow> 's \<Rightarrow> 'v option \<times> 's" where
  "find_or_add look add room made k s =
     (case look s k of
        Some v \<Rightarrow> (Some v, s)
      | None \<Rightarrow> if room s then (case made of Some v \<Rightarrow> (Some v, add k v s) | None \<Rightarrow> (None, s)) else (None, s))"

locale keyed_table =
  fixes look :: "'s \<Rightarrow> 'k \<Rightarrow> 'v option"
    and add :: "'k \<Rightarrow> 'v \<Rightarrow> 's \<Rightarrow> 's"
    and room :: "'s \<Rightarrow> bool"
    and good :: "'k \<Rightarrow> bool"
  assumes look_add_same: "good k \<Longrightarrow> look s k = None \<Longrightarrow> room s \<Longrightarrow> look (add k v s) k = Some v"
    and look_add_other: "good k \<Longrightarrow> k' \<noteq> k \<Longrightarrow> room s \<Longrightarrow> look (add k v s) k' = look s k'"
begin

lemma found_after:
  assumes "good k" "fst (find_or_add look add room m k s) = Some v"
  shows "look (snd (find_or_add look add room m k s)) k = Some v"
  using assms by (auto simp: find_or_add_def look_add_same split: option.splits if_splits)

text \<open>The second call for a key neither makes an entry nor changes the table.\<close>

lemma second_call:
  assumes "good k" "find_or_add look add room m k s = (Some v, s')"
  shows "find_or_add look add room m' k s' = (Some v, s')"
  using found_after [of k m s v] assms by (simp add: find_or_add_def)

text \<open>A call for one key does not decide another.\<close>

lemma other_unchanged:
  assumes "good k" "k' \<noteq> k"
  shows "look (snd (find_or_add look add room m k s)) k' = look s k'"
  using assms by (auto simp: find_or_add_def look_add_other split: option.splits)

text \<open>Only a call for the key itself, or for one that is not good, can make an entry for it.\<close>

lemma appears_only_by_call:
  assumes "good k" "look s k' = None" "look (snd (find_or_add look add room m k s)) k' \<noteq> None"
  shows "k' = k"
  using other_unchanged [OF assms(1), of k' m s] assms by metis

end

text \<open>A table in which no call at all, for whatever key, changes an entry that is there.\<close>

locale stable_table = keyed_table +
  assumes look_add_keeps: "look s k' = Some v' \<Longrightarrow> room s \<Longrightarrow> look (add k v s) k' = Some v'"
begin

lemma found_stays:
  assumes "look s k = Some v"
  shows "look (snd (find_or_add look add room m k' s)) k = Some v"
  using assms by (auto simp: find_or_add_def look_add_keeps split: option.splits)

text \<open>Any sequence of calls.\<close>

primrec calls :: "('b \<times> 'c option) list \<Rightarrow> 'a \<Rightarrow> 'a" where
  "calls [] s = s"
| "calls (c # cs) s = calls cs (snd (find_or_add look add room (snd c) (fst c) s))"

lemma found_stays_calls: "look s k = Some v \<Longrightarrow> look (calls cs s) k = Some v"
  by (induction cs arbitrary: s) (simp_all add: found_stays)

lemma later_call:
  assumes "good k" "find_or_add look add room m k s = (Some v, s')"
  shows "fst (find_or_add look add room m' k (calls cs s')) = Some v"
proof -
  have "look s' k = Some v" using found_after [of k m s v] assms by simp
  then have "look (calls cs s') k = Some v" by (rule found_stays_calls)
  then show ?thesis by (simp add: find_or_add_def)
qed

end

section \<open>First in, first out\<close>

text \<open>
  \<open>rep s xs\<close>: the state s stands for the list xs, oldest first. \<open>enq a x\<close> puts x into the new cell
  a, which must not be in use.
\<close>

locale fifo =
  fixes rep :: "'s \<Rightarrow> 'a list \<Rightarrow> bool"
    and free :: "'s \<Rightarrow> nat \<Rightarrow> bool"
    and enq :: "nat \<Rightarrow> 'a \<Rightarrow> 's \<Rightarrow> 's"
    and deq :: "'s \<Rightarrow> ('a \<times> 's) option"
  assumes rep_enq: "rep s xs \<Longrightarrow> free s a \<Longrightarrow> rep (enq a x s) (xs @ [x])"
    and deq_Nil: "rep s [] \<Longrightarrow> deq s = None"
    and deq_Cons: "rep s (x # xs) \<Longrightarrow> \<exists>s'. deq s = Some (x, s') \<and> rep s' xs"
begin

lemma deq_rep:
  assumes "rep s xs"
  shows "case deq s of None \<Rightarrow> xs = [] | Some (x, s') \<Rightarrow> \<exists>ys. xs = x # ys \<and> rep s' ys"
proof (cases xs)
  case Nil
  with assms deq_Nil show ?thesis by simp
next
  case (Cons x ys)
  with assms deq_Cons [of s x ys] show ?thesis by auto
qed

text \<open>Taking everything out gives the elements in the order they came in.\<close>

primrec take_out :: "nat \<Rightarrow> 's \<Rightarrow> 'a list \<times> 's" where
  "take_out 0 s = ([], s)"
| "take_out (Suc n) s =
     (case deq s of
        None \<Rightarrow> ([], s)
      | Some (x, s') \<Rightarrow> (case take_out n s' of (ys, t) \<Rightarrow> (x # ys, t)))"

lemma take_out_all:
  assumes "rep s xs" "length xs \<le> n"
  shows "fst (take_out n s) = xs"
  using assms
proof (induction n arbitrary: s xs)
  case 0
  then show ?case by simp
next
  case (Suc n)
  show ?case
  proof (cases xs)
    case Nil
    with Suc.prems deq_Nil show ?thesis by simp
  next
    case (Cons x ys)
    with Suc.prems obtain s' where "deq s = Some (x, s')" "rep s' ys" using deq_Cons by blast
    with Suc Cons show ?thesis by (auto split: prod.splits dest: Suc.IH)
  qed
qed

end

end
