(* ===== verification/CallDyn.thy ===== *)
theory CallDyn
  imports EventPusher Interfaces
begin

text \<open>
  src/calldyn.c: loading a plugin's library through the handle cache and calling a function of it.
  The cache is a table of at most 32 entries that only grows; it is the only state. The library,
  its symbols and its functions are the environment's.

  Two models of \<open>dl_get\<close>: the operation as the main loop performs it, and a step relation in
  which several threads run it, with the search without the lock, the wait for the lock and the
  second search under it as separate steps.
\<close>

record dl_world = pusher_world +
  dl_cache :: "(string \<times> nat) list"     \<comment> \<open>oldest first; its length is \<open>g_dl_cache_count\<close>\<close>

definition DL_CACHE_MAX :: nat where "DL_CACHE_MAX = 32"
definition DL_PATH_SIZE :: nat where "DL_PATH_SIZE = 256"
definition PLUGIN_JSON_BUF_SIZE :: nat where "PLUGIN_JSON_BUF_SIZE = 65536"

section \<open>The handle cache\<close>

text \<open>The loop over the entries with \<open>strcmp\<close>: the first entry with this path.\<close>

fun dl_find :: "(string \<times> nat) list \<Rightarrow> string \<Rightarrow> nat option" where
  "dl_find [] path = None"
| "dl_find ((p, h) # es) path = (if p = path then Some h else dl_find es path)"

definition dl_insert :: "string \<Rightarrow> nat \<Rightarrow> (string \<times> nat) list \<Rightarrow> (string \<times> nat) list" where
  "dl_insert path h es = es @ [(snprintf_buf DL_PATH_SIZE path, h)]"

definition dl_get :: "'d env \<Rightarrow> string \<Rightarrow> 'a dl_world_scheme \<Rightarrow> nat option \<times> 'a dl_world_scheme" where
  "dl_get E path w =
     (case dl_find (dl_cache w) path of
        Some h \<Rightarrow> (Some h, w)
      | None \<Rightarrow>
          (case dl_find (dl_cache w) path of
             Some h \<Rightarrow> (Some h, w)
           | None \<Rightarrow>
               if length (dl_cache w) < DL_CACHE_MAX then
                 (case ask (env_dlopen E) w of (open_lib, w1) \<Rightarrow>
                    (case open_lib path of
                       Some h \<Rightarrow> (Some h, w1\<lparr>dl_cache := dl_insert path h (dl_cache w1)\<rparr>)
                     | None \<Rightarrow> (None, w1)))
               else (None, w)))"

section \<open>Calling a plugin\<close>

text \<open>The return code and \<open>*json_out\<close>. A pointer argument that is NULL is \<open>None\<close>.\<close>

definition call_local_dyn_libffi ::
  "'d env \<Rightarrow> string option \<Rightarrow> string option \<Rightarrow> string option \<Rightarrow> 'a dl_world_scheme
     \<Rightarrow> (int \<times> string option) \<times> 'a dl_world_scheme" where
  "call_local_dyn_libffi E ffi_path func_name json_in w =
     (case (ffi_path, func_name) of
        (Some path, Some fn_name) \<Rightarrow>
          (case dl_get E path w of
             (None, w1) \<Rightarrow> ((-1, None), w1)
           | (Some handle, w1) \<Rightarrow>
               (case ask (env_dlsym E) w1 of (symbols, w2) \<Rightarrow>
                 (case symbols handle fn_name of
                    None \<Rightarrow> ((-2, None), w2)
                  | Some fn \<Rightarrow>
                      (case ask (env_malloc E) w2 of (got, w3) \<Rightarrow>
                        if \<not> got then ((-3, None), w3)
                        else (case ask (env_ffi_prep E) w3 of (ok, w4) \<Rightarrow>
                          if \<not> ok then ((-999, Some []), w4)
                          else (case ask (env_plugin E) w4 of (run, w5) \<Rightarrow>
                            (case run fn json_in of (rc, out) \<Rightarrow>
                              ((rc, Some (cbuf PLUGIN_JSON_BUF_SIZE out)), w5))))))))
      | _ \<Rightarrow> ((-100, None), w))"

definition socklib_path :: "string \<Rightarrow> string" where
  "socklib_path lib_name =
     (if strstr lib_name ''.so'' \<or> strstr lib_name ''.dylib'' \<or> strstr lib_name ''.dll''
      then snprintf_buf 256 (''./core/'' @ lib_name)
      else snprintf_buf 256 (''./core/lib'' @ lib_name @ ''.so''))"

definition call_local_dyn_socklibffi ::
  "'d env \<Rightarrow> string option \<Rightarrow> string option \<Rightarrow> 'a dl_world_scheme
     \<Rightarrow> (int \<times> string option) \<times> 'a dl_world_scheme" where
  "call_local_dyn_socklibffi E lib_name json_in w =
     (case (lib_name, json_in) of
        (Some lib, Some j) \<Rightarrow>
          call_local_dyn_libffi E (Some (socklib_path lib)) (Some ''process_init'') (Some j) w
      | _ \<Rightarrow> ((-100, None), w))"

section \<open>The cache as a table\<close>

definition dl_room :: "(string \<times> nat) list \<Rightarrow> bool" where
  "dl_room es \<longleftrightarrow> length es < DL_CACHE_MAX"

definition dl_path_ok :: "string \<Rightarrow> bool" where
  "dl_path_ok path \<longleftrightarrow> length path < DL_PATH_SIZE"

lemma dl_find_append:
  "dl_find (es @ fs) path = (case dl_find es path of Some h \<Rightarrow> Some h | None \<Rightarrow> dl_find fs path)"
  by (induction es path rule: dl_find.induct) auto

lemma dl_find_insert:
  "dl_find (dl_insert p h es) path =
     (case dl_find es path of Some h' \<Rightarrow> Some h' | None \<Rightarrow> if snprintf_buf DL_PATH_SIZE p = path then Some h else None)"
  by (simp add: dl_insert_def dl_find_append split: option.splits)

lemma dl_path_ok_stored: "dl_path_ok p \<Longrightarrow> snprintf_buf DL_PATH_SIZE p = p"
  by (simp add: dl_path_ok_def snprintf_buf_fits)

interpretation dlt: stable_table dl_find dl_insert dl_room dl_path_ok
  by unfold_locales (auto simp: dl_find_insert dl_path_ok_stored split: option.splits)

text \<open>The sequential operation is the table's \<open>find_or_add\<close>.\<close>

lemma dl_get_table:
  "(fst (dl_get E path w), dl_cache (snd (dl_get E path w))) =
     find_or_add dl_find dl_insert dl_room (env_dlopen E (w_tick w) path) path (dl_cache w)"
  by (simp add: dl_get_def find_or_add_def dl_room_def ask_def split: option.splits)

text \<open>The table never has more entries than it has room for, and entries never change.\<close>

lemma dl_get_grows:
  "length (dl_cache w) \<le> DL_CACHE_MAX \<Longrightarrow> length (dl_cache (snd (dl_get E path w))) \<le> DL_CACHE_MAX"
  "\<exists>es. dl_cache (snd (dl_get E path w)) = dl_cache w @ es"
  by (auto simp: dl_get_def ask_def dl_insert_def split: option.splits)

text \<open>A call leaves the rest of the state alone but for the counter.\<close>

definition dl_keeps :: "'a dl_world_scheme \<Rightarrow> 'a dl_world_scheme \<Rightarrow> bool" where
  "dl_keeps w w' \<longleftrightarrow> (\<exists>n es. w' = w\<lparr>w_tick := n, dl_cache := es\<rparr>)"

lemma dl_keeps_refl [simp]: "dl_keeps w w"
  unfolding dl_keeps_def by (intro exI [of _ "w_tick w"] exI [of _ "dl_cache w"]) simp

lemma dl_keeps_tick: "dl_keeps w w1 \<Longrightarrow> dl_keeps w (w1\<lparr>w_tick := k\<rparr>)"
proof -
  assume "dl_keeps w w1"
  then obtain n es where "w1 = w\<lparr>w_tick := n, dl_cache := es\<rparr>" by (auto simp: dl_keeps_def)
  then have "w1\<lparr>w_tick := k\<rparr> = w\<lparr>w_tick := k, dl_cache := es\<rparr>" by simp
  then show ?thesis unfolding dl_keeps_def by blast
qed

lemma dl_keeps_cache: "dl_keeps w (w\<lparr>w_tick := k, dl_cache := es\<rparr>)"
  unfolding dl_keeps_def by blast

lemma dl_keeps_get: "dl_keeps w (snd (dl_get E path w))"
  by (auto simp: dl_get_def ask_def intro: dl_keeps_cache dl_keeps_tick split: option.splits)

lemma dl_keeps_call: "dl_keeps w (snd (call_local_dyn_libffi E p f j w))"
proof -
  have "dl_keeps w w1" if "dl_get E path w = (r, w1)" for path r w1
    using dl_keeps_get [of w E path] that by simp
  then show ?thesis
    by (auto simp: call_local_dyn_libffi_def ask_def intro: dl_keeps_tick split: option.splits prod.splits)
qed

lemma dl_keeps_sock: "dl_keeps w (snd (call_local_dyn_socklibffi E l j w))"
  using dl_keeps_call by (auto simp: call_local_dyn_socklibffi_def split: option.splits)

lemma dl_keepsD:
  assumes "dl_keeps w w'"
  shows "w_conns w' = w_conns w" "w_nng_socks w' = w_nng_socks w" "w_ws_conn w' = w_ws_conn w"
    "w_published w' = w_published w" "dl_world.more w' = dl_world.more w"
    "ep_initialized w' = ep_initialized w" "ep_push_count w' = ep_push_count w"
    "conn_at w' a = conn_at w a" "sent w' a = sent w a"
proof -
  obtain n es where e: "w' = w\<lparr>w_tick := n, dl_cache := es\<rparr>" using assms by (auto simp: dl_keeps_def)
  show "w_conns w' = w_conns w" "w_nng_socks w' = w_nng_socks w" "w_ws_conn w' = w_ws_conn w"
    "w_published w' = w_published w" "dl_world.more w' = dl_world.more w"
    "ep_initialized w' = ep_initialized w" "ep_push_count w' = ep_push_count w"
    "conn_at w' a = conn_at w a" "sent w' a = sent w a"
    unfolding e by (simp_all add: conn_at_def sent_def)
qed


section \<open>Several threads\<close>

text \<open>
  Where a thread is in \<open>dl_get\<close>: searching without the lock, waiting for \<open>g_dl_mutex\<close>, holding it, or
  back with its answer. One step is one search (the table only grows, so a search sees the entries
  up to the count it read), one lock operation or the critical section's outcome.
\<close>

datatype dl_pc = Searching string | Waiting string | Holding string | Back string "nat option"

record dl_threads =
  dt_cache :: "(string \<times> nat) list"
  dt_lock :: "nat option"
  dt_pc :: "nat \<Rightarrow> dl_pc"

inductive dl_step :: "dl_threads \<Rightarrow> dl_threads \<Rightarrow> bool" where
  call: "dt_pc s t = Back q r \<Longrightarrow> dl_path_ok p \<Longrightarrow>
     dl_step s (s\<lparr>dt_pc := (dt_pc s)(t := Searching p)\<rparr>)"
| fast_hit: "dt_pc s t = Searching p \<Longrightarrow> dl_find (dt_cache s) p = Some h \<Longrightarrow>
     dl_step s (s\<lparr>dt_pc := (dt_pc s)(t := Back p (Some h))\<rparr>)"
| fast_miss: "dt_pc s t = Searching p \<Longrightarrow> dl_find (dt_cache s) p = None \<Longrightarrow>
     dl_step s (s\<lparr>dt_pc := (dt_pc s)(t := Waiting p)\<rparr>)"
| lock: "dt_pc s t = Waiting p \<Longrightarrow> dt_lock s = None \<Longrightarrow>
     dl_step s (s\<lparr>dt_lock := Some t, dt_pc := (dt_pc s)(t := Holding p)\<rparr>)"
| second_hit: "dt_pc s t = Holding p \<Longrightarrow> dl_find (dt_cache s) p = Some h \<Longrightarrow>
     dl_step s (s\<lparr>dt_lock := None, dt_pc := (dt_pc s)(t := Back p (Some h))\<rparr>)"
| loaded: "dt_pc s t = Holding p \<Longrightarrow> dl_find (dt_cache s) p = None \<Longrightarrow> dl_room (dt_cache s) \<Longrightarrow>
     dl_step s (s\<lparr>dt_cache := dl_insert p h (dt_cache s), dt_lock := None,
       dt_pc := (dt_pc s)(t := Back p (Some h))\<rparr>)"
| not_loaded: "dt_pc s t = Holding p \<Longrightarrow> dl_find (dt_cache s) p = None \<Longrightarrow>
     dl_step s (s\<lparr>dt_lock := None, dt_pc := (dt_pc s)(t := Back p None)\<rparr>)"

definition dl_start :: dl_threads where
  "dl_start = \<lparr>dt_cache = [], dt_lock = None, dt_pc = (\<lambda>_. Back [] None)\<rparr>"

inductive dl_reachable :: "dl_threads \<Rightarrow> bool" where
  start: "dl_reachable dl_start"
| step: "dl_reachable s \<Longrightarrow> dl_step s s' \<Longrightarrow> dl_reachable s'"

inductive_cases dl_stepE: "dl_step s s'"

text \<open>The invariant: exclusion, paths that fit, one entry for a path, and answers that the table backs.\<close>

definition dl_inv :: "dl_threads \<Rightarrow> bool" where
  "dl_inv s \<longleftrightarrow>
     (\<forall>t p. dt_pc s t = Holding p \<longrightarrow> dt_lock s = Some t)
   \<and> (\<forall>t p. dt_pc s t \<in> {Searching p, Waiting p, Holding p} \<longrightarrow> dl_path_ok p)
   \<and> distinct (map fst (dt_cache s)) \<and> length (dt_cache s) \<le> DL_CACHE_MAX
   \<and> (\<forall>t p h. dt_pc s t = Back p (Some h) \<longrightarrow> dl_find (dt_cache s) p = Some h)"

lemma dl_find_None: "dl_find es p = None \<longleftrightarrow> p \<notin> set (map fst es)"
  by (induction es p rule: dl_find.induct) auto

lemma dl_inv_insert:
  assumes "distinct (map fst es)" "dl_find es p = None" "dl_path_ok p"
  shows "distinct (map fst (dl_insert p h es))"
  using assms by (auto simp: dl_insert_def dl_path_ok_stored dl_find_None)

text \<open>A step of thread t that leaves the table alone.\<close>

lemma dl_inv_pc:
  assumes "dl_inv s"
    and "\<And>u p. u \<noteq> t \<Longrightarrow> dt_pc s u = Holding p \<Longrightarrow> l = Some u"
    and "\<And>p. x = Holding p \<Longrightarrow> l = Some t"
    and "\<And>p. x \<in> {Searching p, Waiting p, Holding p} \<Longrightarrow> dl_path_ok p"
    and "\<And>p h. x = Back p (Some h) \<Longrightarrow> dl_find (dt_cache s) p = Some h"
  shows "dl_inv (s\<lparr>dt_lock := l, dt_pc := (dt_pc s)(t := x)\<rparr>)"
  using assms unfolding dl_inv_def by simp metis

lemma dl_inv_pc_only:
  assumes "dl_inv s" "\<And>p. x \<noteq> Holding p" "\<And>p. dt_pc s t \<noteq> Holding p"
    and "\<And>p. x \<in> {Searching p, Waiting p, Holding p} \<Longrightarrow> dl_path_ok p"
    and "\<And>p h. x = Back p (Some h) \<Longrightarrow> dl_find (dt_cache s) p = Some h"
  shows "dl_inv (s\<lparr>dt_pc := (dt_pc s)(t := x)\<rparr>)"
proof -
  have "dl_inv (s\<lparr>dt_lock := dt_lock s, dt_pc := (dt_pc s)(t := x)\<rparr>)"
    using assms by (intro dl_inv_pc) (auto simp: dl_inv_def)
  then show ?thesis by simp
qed

lemma dl_holder:
  assumes "dl_inv s" "dt_pc s t = Holding p"
  shows "dl_path_ok p" "u \<noteq> t \<Longrightarrow> dt_pc s u \<noteq> Holding q"
  using assms unfolding dl_inv_def by (blast, metis option.inject)

lemma dl_busy_path:
  "dl_inv s \<Longrightarrow> dt_pc s t = Searching p \<or> dt_pc s t = Waiting p \<Longrightarrow> dl_path_ok p"
  unfolding dl_inv_def by blast

lemma dl_inv_step: "dl_step s s' \<Longrightarrow> dl_inv s \<Longrightarrow> dl_inv s'"
proof (induction rule: dl_step.induct)
  case (call s t q r p)
  then show ?case by (intro dl_inv_pc_only) auto
next
  case (fast_hit s t p h)
  then show ?case by (intro dl_inv_pc_only) auto
next
  case (fast_miss s t p)
  then have "dl_path_ok p" using dl_busy_path by blast
  with fast_miss show ?case by (intro dl_inv_pc_only) auto
next
  case (lock s t p)
  then have "dl_path_ok p" using dl_busy_path by blast
  with lock show ?case by (intro dl_inv_pc) (auto simp: dl_inv_def)
next
  case (second_hit s t p h)
  note d = dl_holder [OF second_hit(3,1)]
  from second_hit d show ?case by (intro dl_inv_pc) auto
next
  case (not_loaded s t p)
  note d = dl_holder [OF not_loaded(3,1)]
  from not_loaded d show ?case by (intro dl_inv_pc) auto
next
  case (loaded s t p h)
  note d = dl_holder [OF loaded(4,1)]
  let ?es = "dl_insert p h (dt_cache s)"
  have kept: "dl_find ?es q = Some k" if "dl_find (dt_cache s) q = Some k" for q k
    using that by (simp add: dl_find_insert)
  have new: "dl_find ?es p = Some h"
    using loaded(2) d(1) by (simp add: dl_find_insert dl_path_ok_stored)
  have "length ?es \<le> DL_CACHE_MAX"
    using loaded(3) by (simp add: dl_insert_def dl_room_def)
  moreover have "distinct (map fst ?es)"
    using loaded(2) loaded.prems d(1) by (intro dl_inv_insert) (simp_all add: dl_inv_def)
  ultimately have "dl_inv (s\<lparr>dt_cache := ?es\<rparr>)"
    using loaded.prems kept unfolding dl_inv_def by simp
  then have "dl_inv ((s\<lparr>dt_cache := ?es\<rparr>)\<lparr>dt_lock := None,
      dt_pc := (dt_pc (s\<lparr>dt_cache := ?es\<rparr>))(t := Back p (Some h))\<rparr>)"
    using d new by (intro dl_inv_pc) auto
  then show ?case by simp
qed

lemma dl_reachable_inv: "dl_reachable s \<Longrightarrow> dl_inv s"
proof (induction rule: dl_reachable.induct)
  case start
  then show ?case by (simp add: dl_inv_def dl_start_def)
next
  case (step s s')
  then show ?case using dl_inv_step by blast
qed



text \<open>A library stays the one it was. Once a path of at most 255 bytes has been loaded, every later
  call for it, after any number of loads of other libraries, returns the same handle without asking
  the loader and without changing the table; and the table never exceeds 32 entries, after which a
  library not seen before cannot be loaded.\<close>

theorem dl_get_stable:
  assumes "dl_path_ok path" "dl_get E path w = (Some h, w1)"
    and "dl_cache w2 = dlt.calls cs (dl_cache w1)"
  shows "dl_get E path w2 = (Some h, w2)
     \<and> (length (dl_cache w) = DL_CACHE_MAX \<longrightarrow> dl_find (dl_cache w) q = None \<longrightarrow> dl_get E q w = (None, w))"
proof -
  have "find_or_add dl_find dl_insert dl_room (env_dlopen E (w_tick w) path) path (dl_cache w)
      = (Some h, dl_cache w1)"
    using dl_get_table [of E path w] assms(2) by simp
  then have "dl_find (dl_cache w1) path = Some h"
    using dlt.found_after [OF assms(1), of "env_dlopen E (w_tick w) path" "dl_cache w" h] by simp
  then have "dl_find (dl_cache w2) path = Some h"
    unfolding assms(3) by (rule dlt.found_stays_calls)
  then show ?thesis by (simp add: dl_get_def)
qed

definition no_libs :: dl_world where
  "no_libs = pusher_world.extend (one_client null_conn) (dl_world.fields [])"

theorem dl_get_stable_witness:
  "\<exists>w1. dl_get calm_env ''a.so'' no_libs = (Some 1, w1) \<and> dl_get calm_env ''a.so'' w1 = (Some 1, w1)"
proof -
  have ok: "dl_path_ok ''a.so''" by (simp add: dl_path_ok_def DL_PATH_SIZE_def)
  obtain w1 where g: "dl_get calm_env ''a.so'' no_libs = (Some 1, w1)"
    by (simp add: dl_get_def no_libs_def pusher_world.defs dl_world.defs ask_def calm_env_def DL_CACHE_MAX_def)
  have "dl_cache w1 = dlt.calls [] (dl_cache w1)" by simp
  from dl_get_stable [OF ok g this] g show ?thesis by blast
qed

text \<open>A path of 256 bytes or more never hits the cache. It is stored cut off, so each call for it
  asks the loader again and uses up another of the 32 entries until none is left for any library.\<close>

theorem dl_long_path_never_cached:
  assumes "DL_PATH_SIZE \<le> length path" "\<forall>e \<in> set (dl_cache w). length (fst e) < DL_PATH_SIZE"
    and "length (dl_cache w) < DL_CACHE_MAX" "env_dlopen E (w_tick w) path = Some h"
  shows "dl_get E path w = (Some h, w\<lparr>w_tick := Suc (w_tick w),
       dl_cache := dl_cache w @ [(take 255 path, h)]\<rparr>)
     \<and> (\<forall>e \<in> set (dl_cache (snd (dl_get E path w))). length (fst e) < DL_PATH_SIZE)"
proof -
  have "dl_find (dl_cache w) path = None"
    using assms(1,2) by (force simp: dl_find_None)
  then have g: "dl_get E path w = (Some h, w\<lparr>w_tick := Suc (w_tick w),
       dl_cache := dl_cache w @ [(take 255 path, h)]\<rparr>)"
    using assms(3,4) by (simp add: dl_get_def ask_def dl_insert_def snprintf_buf_def DL_PATH_SIZE_def)
  then show ?thesis using assms(2) by (auto simp: DL_PATH_SIZE_def)
qed

theorem dl_long_path_never_cached_witness:
  "fst (dl_get calm_env (replicate 300 (CHR ''a'')) no_libs) = Some 1"
  using dl_long_path_never_cached [of "replicate 300 (CHR ''a'')" no_libs calm_env 1]
  by (simp add: DL_PATH_SIZE_def no_libs_def pusher_world.defs dl_world.defs DL_CACHE_MAX_def calm_env_def)



end
