(* ===== verification/HandlerLibary.thy ===== *)
theory HandlerLibary
  imports HandlerStatic CallDyn
begin

text \<open>
  src/handler_libary.c: a request is answered by a plugin's function. The function's argument is made
  from the query string or from the body, its name from the method and a header. The three
  buffers of \<open>query_to_json\<close> and \<open>build_json_in\<close> are not tested for NULL in the code; they are taken to
  be allocated here.
\<close>

section \<open>The argument\<close>

lemma strchr_length: "strchr s c = Some q \<Longrightarrow> q \<noteq> [] \<and> length q \<le> length s"
  by (induction s) (auto split: if_splits)

text \<open>\<open>query_get_long\<close>: \<open>None\<close> also when the key's value does not begin with a number.\<close>

function query_get_long :: "string \<Rightarrow> string \<Rightarrow> int option" where
  "query_get_long p key =
     (if p = [] then None
      else if prefix (key @ ''='') p then
        (case strtol10 (drop (length key + 1) p) of (v, n) \<Rightarrow> if n \<noteq> 0 then Some v else None)
      else (case strchr p (CHR ''&'') of
              None \<Rightarrow> None
            | Some q \<Rightarrow> query_get_long (tl q) key))"
  by pat_completeness auto

termination
proof (relation "measure (\<lambda>(p, key). length p)")
  fix p key :: string and q
  assume "strchr p (CHR ''&'') = Some q"
  from strchr_length [OF this] show "((tl q, key), (p, key)) \<in> measure (\<lambda>(p, key). length p)"
    by (cases q) auto
qed simp

declare query_get_long.simps [simp del]

definition query_to_json :: "http_message \<Rightarrow> string option" where
  "query_to_json hm =
     (case hm_query hm of
        None \<Rightarrow> None
      | Some q0 \<Rightarrow>
          if q0 = [] then None
          else
            (let query = cbuf 256 q0
             in case query_get_long query ''id'' of
                  Some id_val \<Rightarrow> Some (snprintf_buf 32 (''{\"id\":'' @ int_str id_val @ ''}''))
                | None \<Rightarrow>
                    (case strchr query (CHR ''='') of
                       None \<Rightarrow> None
                     | Some v \<Rightarrow>
                         if tl v = [] then None
                         else Some (snprintf_buf (length (tl v) + 8) (''{\"q\":\"'' @ tl v @ ''\"}'')))))"

definition build_json_in :: "http_message \<Rightarrow> string \<Rightarrow> string option" where
  "build_json_in hm body =
     (case query_to_json hm of
        Some q \<Rightarrow> Some q
      | None \<Rightarrow> if body = [] then None else Some (cstr body))"

section \<open>The function's name\<close>

definition method_name :: "http_message \<Rightarrow> string" where
  "method_name hm = map tolower (cbuf 16 (hm_method hm))"

definition ffi_symbol :: "http_message \<Rightarrow> string" where
  "ffi_symbol hm =
     (let sym = (case mg_http_get_header (hm_headers hm) ''FFI-Symbol'' of
                   Some s \<Rightarrow> if s \<noteq> [] then cbuf 128 s else ''handle''
                 | None \<Rightarrow> ''handle'')
      in snprintf_buf 256 (method_name hm @ ''_'' @ sym))"

section \<open>The handler\<close>

definition strip_slash :: "string \<Rightarrow> string" where
  "strip_slash uri = (if cat uri 0 = CHR ''/'' then tl uri else uri)"

definition ev_handler_libary ::
  "'d env \<Rightarrow> addr \<Rightarrow> http_message \<Rightarrow> string \<Rightarrow> 'a dl_world_scheme \<Rightarrow> 'a dl_world_scheme" where
  "ev_handler_libary E c hm body w =
     (let uri = cbuf 256 (hm_uri hm)
      in if uri_has_traversal (Some uri) then reply_json c 400 (error_json 400 ''Bad Request'') w
         else if strip_slash uri = [] then reply_json c 404 (error_json 404 ''Not Found'') w
         else (case ask (env_fs E) w of (f, w1) \<Rightarrow>
           (case plugin_resolve_path (env_platform E) f (Some (strip_slash uri)) (Some 512) of (rc, path) \<Rightarrow>
              if rc \<noteq> 0 then reply_json c 404 (error_json 404 ''Plugin Not Found'') w1
              else (case call_local_dyn_libffi E path (Some (ffi_symbol hm)) (build_json_in hm body) w1 of
                      ((crc, out), w2) \<Rightarrow>
                        (case out of
                           None \<Rightarrow> reply_json c 404 (error_json 404 ''Plugin Not Found'') w2
                         | Some json_out \<Rightarrow>
                             if crc \<noteq> 0 then reply_json c 404 (error_json 404 ''Plugin Not Found'') w2
                             else reply_json c 200 json_out w2)))))"

end
