(* ===== verification/Realtime.thy ===== *)
theory Realtime
  imports CallDyn "HOL-Library.Multiset"
begin

text \<open>
  src/realtime.c: the table of realtime tasks. A task lives in a node of a singly-linked list that
  new nodes enter at the head; the list is modelled as the list of its nodes with their addresses,
  so that a \<open>rt_task_t *\<close> is an address, and a node that is freed is no longer in the list.

  \<open>rt_fresh\<close> stands for the address that the next successful \<open>calloc\<close> returns; callbacks are
  numbers, and \<open>rt_called\<close> records the cleanup callbacks that ran. \<open>user_data\<close> is never set by the
  program. The scheduler's mutex makes each function one step.
\<close>

section \<open>State\<close>

datatype rt_task_status = RT_TASK_IDLE | RT_TASK_RUNNING | RT_TASK_PAUSED | RT_TASK_STOPPED | RT_TASK_ERROR

definition status_code :: "rt_task_status \<Rightarrow> int" where
  "status_code s = (case s of RT_TASK_IDLE \<Rightarrow> 0 | RT_TASK_RUNNING \<Rightarrow> 1 | RT_TASK_PAUSED \<Rightarrow> 2
     | RT_TASK_STOPPED \<Rightarrow> 3 | RT_TASK_ERROR \<Rightarrow> -1)"

record rt_node =
  n_task_id :: string
  n_socket_id :: string
  n_uuid :: string
  n_status :: rt_task_status
  n_conn_id :: u64
  n_on_tick :: "nat option"
  n_on_data :: "nat option"
  n_on_cleanup :: "nat option"
  n_nng_sock :: nat
  n_nng_initialized :: bool
  n_created_at :: int
  n_last_heartbeat :: int
  n_restart_count :: int

record rt_world = dl_world +
  rt_tasks :: "(addr \<times> rt_node) list"
  rt_count :: int
  rt_running :: bool
  rt_counter :: u64
  rt_fresh :: addr
  rt_called :: "(nat \<times> addr) list"

definition heartbeat_timeout :: int where "heartbeat_timeout = 30"

section \<open>Operations\<close>

definition task_id_text :: "int \<Rightarrow> u64 \<Rightarrow> string" where
  "task_id_text t n = snprintf_buf 64 (''task_'' @ nat_str (nat (t mod 2 ^ 64)) @ ''_'' @ nat_str (unat n))"

definition gen_id :: "'d env \<Rightarrow> 'a rt_world_scheme \<Rightarrow> string \<times> 'a rt_world_scheme" where
  "gen_id E w =
     (let n = rt_counter w; w1 = w\<lparr>rt_counter := n + 1\<rparr>
      in case ask (env_time E) w1 of (t, w2) \<Rightarrow> (task_id_text t n, w2))"

fun find_node :: "(addr \<times> rt_node) list \<Rightarrow> string \<Rightarrow> addr option" where
  "find_node [] uuid = None"
| "find_node ((a, n) # ns) uuid = (if n_uuid n = uuid then Some a else find_node ns uuid)"

definition rt_event_text :: "string \<Rightarrow> string option \<Rightarrow> string option \<Rightarrow> string" where
  "rt_event_text action uuid status =
     snprintf_buf 256 (''{\"action\":\"'' @ action @ ''\",\"uuid\":\"''
       @ event_escape_json (Some (case uuid of Some u \<Rightarrow> u | None \<Rightarrow> [])) 128
       @ ''\",\"status\":\"'' @ (case status of Some s \<Rightarrow> s | None \<Rightarrow> []) @ ''\"}'')"

definition send_rt_event ::
  "'d env \<Rightarrow> string \<Rightarrow> string option \<Rightarrow> string option \<Rightarrow> 'a rt_world_scheme \<Rightarrow> 'a rt_world_scheme" where
  "send_rt_event E action uuid status w =
     event_push_with_type E (Some ''realtime'') (Some (rt_event_text action uuid status)) w"

definition rt_init :: "'a rt_world_scheme \<Rightarrow> 'a rt_world_scheme" where
  "rt_init w = (if \<not> rt_running w then w\<lparr>rt_running := True, rt_count := 0, rt_tasks := []\<rparr> else w)"

definition socket_id_text :: "string \<Rightarrow> string" where
  "socket_id_text uuid = snprintf_buf 128 (''/tmp/cyctron_'' @ uuid @ ''.sock'')"

text \<open>\<open>strncpy\<close> of at most 63 characters and a NUL.\<close>

definition stored_uuid :: "string \<Rightarrow> string" where
  "stored_uuid uuid = take 63 uuid"

definition new_node :: "string \<Rightarrow> string \<Rightarrow> int \<Rightarrow> int \<Rightarrow> rt_node" where
  "new_node task_id uuid created heartbeat =
     \<lparr>n_task_id = task_id, n_socket_id = socket_id_text uuid, n_uuid = stored_uuid uuid,
      n_status = RT_TASK_IDLE, n_conn_id = 0, n_on_tick = None, n_on_data = None, n_on_cleanup = None,
      n_nng_sock = 0, n_nng_initialized = False, n_created_at = created, n_last_heartbeat = heartbeat,
      n_restart_count = 0\<rparr>"

definition rt_create_task :: "'d env \<Rightarrow> string option \<Rightarrow> 'a rt_world_scheme \<Rightarrow> addr option \<times> 'a rt_world_scheme" where
  "rt_create_task E uuid_arg w =
     (case uuid_arg of
        None \<Rightarrow> (None, w)
      | Some uuid \<Rightarrow>
          if find_node (rt_tasks w) uuid \<noteq> None then (None, w)
          else (case ask (env_malloc E) w of (got, w1) \<Rightarrow>
            if \<not> got then (None, w1)
            else (case ask2 (env_time E) w1 of (created, heartbeat, w2) \<Rightarrow>
              (case gen_id E w2 of (task_id, w3) \<Rightarrow>
                 (let a = rt_fresh w3;
                      w4 = w3\<lparr>rt_fresh := Suc a,
                              rt_tasks := (a, new_node task_id uuid created heartbeat) # rt_tasks w3,
                              rt_count := rt_count w3 + 1\<rparr>
                  in (Some a, send_rt_event E ''create'' (Some uuid) (Some ''created'') w4))))))"

text \<open>The node at an address, and a change to it.\<close>

definition node_at :: "'a rt_world_scheme \<Rightarrow> addr \<Rightarrow> rt_node option" where
  "node_at w a = map_of (rt_tasks w) a"

definition upd_node :: "addr \<Rightarrow> (rt_node \<Rightarrow> rt_node) \<Rightarrow> 'a rt_world_scheme \<Rightarrow> 'a rt_world_scheme" where
  "upd_node a f w = w\<lparr>rt_tasks := map (\<lambda>(b, n). (b, if b = a then f n else n)) (rt_tasks w)\<rparr>"

definition socket_url_text :: "string \<Rightarrow> string" where
  "socket_url_text socket_id = snprintf_buf 256 (''ipc://'' @ socket_id)"

text \<open>The first part of \<open>rt_start_task\<close>: the publisher socket. \<open>True\<close> when the task has one.\<close>

definition start_socket :: "'d env \<Rightarrow> addr \<Rightarrow> rt_node \<Rightarrow> 'a rt_world_scheme \<Rightarrow> bool \<times> 'a rt_world_scheme" where
  "start_socket E a n w =
     (if n_nng_initialized n then (True, w)
      else case nng_pub0_open E w of ((rv, s), w1) \<Rightarrow>
        if rv \<noteq> 0 then (False, w1)
        else
          (let w2 = upd_node a (\<lambda>x. x\<lparr>n_nng_sock := s\<rparr>) w1
           in case nng_listen E (socket_url_text (n_socket_id n)) w2 of (rv2, w3) \<Rightarrow>
                if rv2 \<noteq> 0 then (False, nng_close s w3)
                else (True, upd_node a (\<lambda>x. x\<lparr>n_nng_initialized := True\<rparr>) w3)))"

definition start_json :: "rt_node \<Rightarrow> string" where
  "start_json n = snprintf_buf 512 (''{\"config\":{\"uuid\":\"'' @ n_uuid n @ ''\",\"nng_url\":\"''
     @ socket_url_text (n_socket_id n) @ ''\"}}'')"

definition rt_start_task ::
  "'d env \<Rightarrow> addr option \<Rightarrow> string option \<Rightarrow> 'a rt_world_scheme \<Rightarrow> int \<times> 'a rt_world_scheme" where
  "rt_start_task E task lib_name w =
     (case task of
        None \<Rightarrow> (-1, w)
      | Some a \<Rightarrow>
          (case node_at w a of
             None \<Rightarrow> (-1, w)
           | Some n \<Rightarrow>
               if n_status n = RT_TASK_RUNNING then (0, w)
               else (case start_socket E a n w of (ok, w1) \<Rightarrow>
                 if \<not> ok then (-1, w1)
                 else
                   (let lib = (case lib_name of Some l \<Rightarrow> l | None \<Rightarrow> ''libsoket_demo'')
                    in case call_local_dyn_socklibffi E (Some lib) (Some (start_json n)) w1 of
                         ((ret, out), w2) \<Rightarrow>
                           if ret = 0 then
                             (case ask (env_time E) w2 of (now, w3) \<Rightarrow>
                                (0, send_rt_event E ''bind'' (Some (n_uuid n)) (Some ''running'')
                                      (upd_node a (\<lambda>x. x\<lparr>n_status := RT_TASK_RUNNING, n_last_heartbeat := now\<rparr>) w3)))
                           else (-1, upd_node a (\<lambda>x. x\<lparr>n_status := RT_TASK_ERROR\<rparr>) w2)))))"

text \<open>The loop that unlinks the node, the end of its socket, the event and the callback.\<close>

definition close_node :: "'d env \<Rightarrow> addr \<Rightarrow> rt_node \<Rightarrow> 'a rt_world_scheme \<Rightarrow> 'a rt_world_scheme" where
  "close_node E a n w =
     (let w1 = (if n_nng_initialized n then nng_close (n_nng_sock n) w else w);
          w2 = send_rt_event E ''remove'' (Some (n_uuid n)) (Some ''stopped'') w1
      in case n_on_cleanup n of Some cb \<Rightarrow> w2\<lparr>rt_called := (cb, a) # rt_called w2\<rparr> | None \<Rightarrow> w2)"

definition rt_remove_task :: "'d env \<Rightarrow> addr option \<Rightarrow> 'a rt_world_scheme \<Rightarrow> int \<times> 'a rt_world_scheme" where
  "rt_remove_task E task w =
     (case task of
        None \<Rightarrow> (-1, w)
      | Some a \<Rightarrow>
          (case node_at w a of
             None \<Rightarrow> (-1, w)
           | Some n \<Rightarrow>
               (0, close_node E a n
                     (w\<lparr>rt_tasks := filter (\<lambda>(b, _). b \<noteq> a) (rt_tasks w), rt_count := rt_count w - 1\<rparr>))))"

definition rt_stop_task :: "'d env \<Rightarrow> addr option \<Rightarrow> 'a rt_world_scheme \<Rightarrow> int \<times> 'a rt_world_scheme" where
  "rt_stop_task E task w =
     (case task of
        None \<Rightarrow> (-1, w)
      | Some a \<Rightarrow>
          (case node_at w a of
             None \<Rightarrow> (-1, w)
           | Some n \<Rightarrow>
               if n_status n = RT_TASK_STOPPED then (0, w)
               else (0, send_rt_event E ''stop'' (Some (n_uuid n)) (Some ''stopped'')
                          (upd_node a (\<lambda>x. x\<lparr>n_status := RT_TASK_STOPPED\<rparr>) w))))"

definition rt_find_task_by_uuid :: "string \<Rightarrow> 'a rt_world_scheme \<Rightarrow> addr option" where
  "rt_find_task_by_uuid uuid w = find_node (rt_tasks w) uuid"

definition rt_send_msg :: "'d env \<Rightarrow> addr option \<Rightarrow> string option \<Rightarrow> 'a rt_world_scheme \<Rightarrow> int \<times> 'a rt_world_scheme" where
  "rt_send_msg E task data w =
     (case (task, data) of
        (Some a, Some d) \<Rightarrow>
          (case node_at w a of
             None \<Rightarrow> (-1, w)
           | Some n \<Rightarrow>
               if n_status n \<noteq> RT_TASK_RUNNING then (-2, w)
               else
                 (let msg = snprintf_buf 1152 (''{\"target\":\"'' @ event_escape_json (Some (n_uuid n)) 128
                        @ ''\",\"data\":\"'' @ event_escape_json (Some d) 1024 @ ''\"}'')
                  in (0, event_push_with_type E (Some ''msg'') (Some msg) w)))
      | _ \<Rightarrow> (-1, w))"

definition rt_broadcast :: "'d env \<Rightarrow> string option \<Rightarrow> nat \<Rightarrow> 'a rt_world_scheme \<Rightarrow> 'a rt_world_scheme" where
  "rt_broadcast E data len w =
     (case data of
        None \<Rightarrow> w
      | Some d \<Rightarrow>
          fold (\<lambda>(a, n) v.
            if n_status n = RT_TASK_RUNNING
            then event_push_with_type E (Some ''broadcast'')
              (Some (snprintf_buf 512 (''{\"target\":\"'' @ n_uuid n @ ''\",\"data\":'' @ take len d @ ''}''))) v
            else v) (rt_tasks w) w)"

definition rt_get_task_status :: "addr option \<Rightarrow> 'a rt_world_scheme \<Rightarrow> rt_task_status" where
  "rt_get_task_status task w =
     (case task of
        Some a \<Rightarrow> (case node_at w a of Some n \<Rightarrow> n_status n | None \<Rightarrow> RT_TASK_ERROR)
      | None \<Rightarrow> RT_TASK_ERROR)"

definition rt_get_task_count :: "'a rt_world_scheme \<Rightarrow> int" where
  "rt_get_task_count w = rt_count w"

definition rt_run :: "'d env \<Rightarrow> 'a rt_world_scheme \<Rightarrow> 'a rt_world_scheme" where
  "rt_run E w =
     (case ask (env_time E) w of (now, w1) \<Rightarrow>
        fold (\<lambda>(a, n) v.
          if n_status n = RT_TASK_RUNNING \<and> heartbeat_timeout < now - n_last_heartbeat n
          then send_rt_event E ''heartbeat_timeout'' (Some (n_uuid n)) (Some ''timeout'') v
          else v) (rt_tasks w1) w1)"

definition rt_stop :: "'a rt_world_scheme \<Rightarrow> 'a rt_world_scheme" where
  "rt_stop w = w\<lparr>rt_running := False\<rparr>"

text \<open>
  \<open>rt_remove_tasks_by_conn\<close>: first the victims are collected in list order into an array that grows
  by \<open>realloc\<close> (a failure ends the collection), then they are removed one by one.
\<close>

fun collect_victims ::
  "'d env \<Rightarrow> u64 \<Rightarrow> (addr \<times> rt_node) list \<Rightarrow> nat \<Rightarrow> nat \<Rightarrow> 'a rt_world_scheme \<Rightarrow> addr list \<times> 'a rt_world_scheme" where
  "collect_victims E conn_id [] n cap w = ([], w)"
| "collect_victims E conn_id ((a, x) # ns) n cap w =
     (if n_conn_id x \<noteq> conn_id then collect_victims E conn_id ns n cap w
      else if n = cap then
        (case ask (env_malloc E) w of (got, w1) \<Rightarrow>
           if \<not> got then ([], w1)
           else (case collect_victims E conn_id ns (Suc n) (if cap = 0 then 8 else cap * 2) w1 of
                   (vs, w2) \<Rightarrow> (a # vs, w2)))
      else (case collect_victims E conn_id ns (Suc n) cap w of (vs, w2) \<Rightarrow> (a # vs, w2)))"

fun remove_victims :: "'d env \<Rightarrow> addr list \<Rightarrow> 'a rt_world_scheme \<Rightarrow> int \<times> 'a rt_world_scheme" where
  "remove_victims E [] w = (0, w)"
| "remove_victims E (a # as) w =
     (case rt_remove_task E (Some a) w of (rc, w1) \<Rightarrow>
        (case remove_victims E as w1 of (k, w2) \<Rightarrow> (if rc = 0 then k + 1 else k, w2)))"

definition rt_remove_tasks_by_conn :: "'d env \<Rightarrow> u64 \<Rightarrow> 'a rt_world_scheme \<Rightarrow> int \<times> 'a rt_world_scheme" where
  "rt_remove_tasks_by_conn E conn_id w =
     (case collect_victims E conn_id (rt_tasks w) 0 0 w of (victims, w1) \<Rightarrow> remove_victims E victims w1)"

definition rt_cleanup :: "'d env \<Rightarrow> 'a rt_world_scheme \<Rightarrow> 'a rt_world_scheme" where
  "rt_cleanup E w =
     (let w1 = fold (\<lambda>(a, n) v.
            (let v1 = (if n_status n = RT_TASK_RUNNING
                       then send_rt_event E ''cleanup'' (Some (n_uuid n)) (Some ''stopped'') v else v);
                 v2 = (if n_nng_initialized n then nng_close (n_nng_sock n) v1 else v1)
             in case n_on_cleanup n of Some cb \<Rightarrow> v2\<lparr>rt_called := (cb, a) # rt_called v2\<rparr> | None \<Rightarrow> v2))
          (rt_tasks w) w
      in w1\<lparr>rt_tasks := [], rt_count := 0, rt_running := False\<rparr>)"

definition rt_task_set_tick :: "addr option \<Rightarrow> nat option \<Rightarrow> 'a rt_world_scheme \<Rightarrow> 'a rt_world_scheme" where
  "rt_task_set_tick task cb w = (case task of Some a \<Rightarrow> upd_node a (\<lambda>x. x\<lparr>n_on_tick := cb\<rparr>) w | None \<Rightarrow> w)"

definition rt_task_set_data :: "addr option \<Rightarrow> nat option \<Rightarrow> 'a rt_world_scheme \<Rightarrow> 'a rt_world_scheme" where
  "rt_task_set_data task cb w = (case task of Some a \<Rightarrow> upd_node a (\<lambda>x. x\<lparr>n_on_data := cb\<rparr>) w | None \<Rightarrow> w)"

definition rt_task_set_cleanup :: "addr option \<Rightarrow> nat option \<Rightarrow> 'a rt_world_scheme \<Rightarrow> 'a rt_world_scheme" where
  "rt_task_set_cleanup task cb w = (case task of Some a \<Rightarrow> upd_node a (\<lambda>x. x\<lparr>n_on_cleanup := cb\<rparr>) w | None \<Rightarrow> w)"


section \<open>What the operations leave alone\<close>

lemma more_dl:
  "pusher_world.more w = pusher_world.more w' \<longleftrightarrow> dl_cache w = dl_cache w' \<and> dl_world.more w = dl_world.more w'"
  by (cases w; cases w') simp

lemma more_rt:
  "dl_world.more w = dl_world.more w' \<longleftrightarrow> rt_tasks w = rt_tasks w' \<and> rt_count w = rt_count w'
     \<and> rt_running w = rt_running w' \<and> rt_counter w = rt_counter w' \<and> rt_fresh w = rt_fresh w'
     \<and> rt_called w = rt_called w' \<and> rt_world.more w = rt_world.more w'"
  by (cases w; cases w') simp

lemma keeps_rt:
  assumes "keeps w w'"
  shows "rt_tasks w' = rt_tasks w" "rt_count w' = rt_count w" "rt_running w' = rt_running w"
    "rt_counter w' = rt_counter w" "rt_fresh w' = rt_fresh w" "rt_called w' = rt_called w"
    "rt_world.more w' = rt_world.more w" "w_nng_socks w' = w_nng_socks w" "dl_cache w' = dl_cache w"
  using assms unfolding keeps_def more_dl more_rt by simp_all

lemma keeps_rt_event: "keeps w (send_rt_event E a u s w)"
  by (auto simp: send_rt_event_def)

lemmas rt_event_simps [simp] = keeps_rt [OF keeps_rt_event]

lemma dl_keeps_rt:
  assumes "dl_keeps w w'"
  shows "rt_tasks w' = rt_tasks w" "rt_count w' = rt_count w" "rt_fresh w' = rt_fresh w"
    "w_nng_socks w' = w_nng_socks w" "rt_counter w' = rt_counter w" "rt_world.more w' = rt_world.more w"
  using dl_keepsD(5) [OF assms] dl_keepsD(2) [OF assms] unfolding more_rt by simp_all

lemma upd_node_simps [simp]:
  "rt_count (upd_node a f w) = rt_count w" "rt_fresh (upd_node a f w) = rt_fresh w"
  "w_nng_socks (upd_node a f w) = w_nng_socks w" "w_tick (upd_node a f w) = w_tick w"
  "map fst (rt_tasks (upd_node a f w)) = map fst (rt_tasks w)"
  "length (rt_tasks (upd_node a f w)) = length (rt_tasks w)"
  by (simp_all add: upd_node_def comp_def case_prod_beta)

lemma ask_rt [simp]:
  "rt_tasks (w\<lparr>w_tick := n\<rparr>) = rt_tasks w" "rt_count (w\<lparr>w_tick := n\<rparr>) = rt_count w"
  "rt_fresh (w\<lparr>w_tick := n\<rparr>) = rt_fresh w"
  by simp_all

section \<open>The invariant of the table\<close>

text \<open>
  The count is right, addresses are not reused, and every nng socket that a task opened is held by
  exactly one entry of the table: \<open>B\<close> is the multiset of the sockets that are open for others.
\<close>

definition rt_socks :: "(addr \<times> rt_node) list \<Rightarrow> nat multiset" where
  "rt_socks ns = mset (map (\<lambda>(a, n). n_nng_sock n) (filter (\<lambda>(a, n). n_nng_initialized n) ns))"

definition rt_ok :: "nat multiset \<Rightarrow> 'a rt_world_scheme \<Rightarrow> bool" where
  "rt_ok B w \<longleftrightarrow> rt_count w = int (length (rt_tasks w)) \<and> distinct (map fst (rt_tasks w))
     \<and> (\<forall>a \<in> fst ` set (rt_tasks w). a < rt_fresh w)
     \<and> mset (w_nng_socks w) = B + rt_socks (rt_tasks w)"

lemma rt_socks_simps [simp]:
  "rt_socks [] = {#}"
  "rt_socks ((a, n) # ns) = (if n_nng_initialized n then {#n_nng_sock n#} else {#}) + rt_socks ns"
  by (simp_all add: rt_socks_def)

lemma rt_socks_filter: "rt_socks ns = rt_socks (filter P ns) + rt_socks (filter (\<lambda>x. \<not> P x) ns)"
  by (induction ns) (auto simp: ac_simps)

lemma rt_ok_event [simp]: "rt_ok B (send_rt_event E a u s w) \<longleftrightarrow> rt_ok B w"
  by (simp add: rt_ok_def)

lemma rt_ok_tick [simp]: "rt_ok B (w\<lparr>w_tick := n\<rparr>) \<longleftrightarrow> rt_ok B w"
  by (simp add: rt_ok_def)

lemma rt_socks_map_same:
  "(\<And>n. n_nng_sock (f n) = n_nng_sock n \<and> n_nng_initialized (f n) = n_nng_initialized n) \<Longrightarrow>
   rt_socks (map (\<lambda>(b, n). (b, if b = a then f n else n)) ns) = rt_socks ns"
  by (induction ns) auto

lemma rt_ok_upd_same:
  assumes "\<And>n. n_nng_sock (f n) = n_nng_sock n \<and> n_nng_initialized (f n) = n_nng_initialized n"
  shows "rt_ok B (upd_node a f w) \<longleftrightarrow> rt_ok B w"
proof -
  have f: "fst ` set (rt_tasks (upd_node a f w)) = fst ` set (rt_tasks w)"
    by (metis list.set_map upd_node_simps(5))
  have "rt_socks (rt_tasks (upd_node a f w)) = rt_socks (rt_tasks w)"
    using rt_socks_map_same [OF assms] by (simp add: upd_node_def)
  then show ?thesis unfolding rt_ok_def f by simp
qed

lemma node_at_split:
  assumes "node_at w a = Some n" "distinct (map fst (rt_tasks w))"
  obtains xs ys where "rt_tasks w = xs @ (a, n) # ys" "a \<notin> fst ` set xs" "a \<notin> fst ` set ys"
proof -
  have "(a, n) \<in> set (rt_tasks w)" using assms(1) unfolding node_at_def by (rule map_of_SomeD)
  then obtain xs ys where "rt_tasks w = xs @ (a, n) # ys" by (meson split_list)
  with assms(2) that show thesis by auto
qed

lemma map_other: "a \<notin> fst ` set ns \<Longrightarrow> map (\<lambda>(b, n). (b, if b = a then f n else n)) ns = ns"
  by (induction ns) auto

lemma filter_other: "a \<notin> fst ` set ns \<Longrightarrow> filter (\<lambda>(b, n). b \<noteq> a) ns = ns"
  by (induction ns) auto

lemma upd_node_split:
  assumes "rt_tasks w = xs @ (a, n) # ys" "a \<notin> fst ` set xs" "a \<notin> fst ` set ys"
  shows "rt_tasks (upd_node a f w) = xs @ (a, f n) # ys"
  using assms by (simp add: upd_node_def map_other)

lemma rt_socks_append [simp]: "rt_socks (xs @ ys) = rt_socks xs + rt_socks ys"
  by (simp add: rt_socks_def)

text \<open>Opening a socket: on every path the open sockets are those that some entry holds.\<close>

lemma rt_ok_start_socket:
  assumes ok: "rt_ok B w" and n: "node_at w a = Some n"
  shows "rt_ok B (snd (start_socket E a n w))"
proof (cases "n_nng_initialized n")
  case True
  with ok show ?thesis by (simp add: start_socket_def)
next
  case False
  obtain xs ys where sp: "rt_tasks w = xs @ (a, n) # ys" "a \<notin> fst ` set xs" "a \<notin> fst ` set ys"
    using node_at_split [OF n] ok by (auto simp: rt_ok_def)
  obtain rv s where o1: "env_nng_open E (w_tick w) = (rv, s)" by (cases "env_nng_open E (w_tick w)")
  let ?w1 = "w\<lparr>w_tick := Suc (w_tick w), w_nng_socks := s # w_nng_socks w\<rparr>"
  let ?w2 = "upd_node a (\<lambda>x. x\<lparr>n_nng_sock := s\<rparr>) ?w1"
  let ?w3 = "?w2\<lparr>w_tick := Suc (Suc (w_tick w))\<rparr>"
  let ?rv2 = "env_nng_listen E (Suc (w_tick w)) (socket_url_text (n_socket_id n))"
  have t2: "rt_tasks ?w3 = xs @ (a, n\<lparr>n_nng_sock := s\<rparr>) # ys"
    using upd_node_split [of ?w1 xs a n ys "\<lambda>x. x\<lparr>n_nng_sock := s\<rparr>"] sp by simp
  have st: "start_socket E a n w = (if rv \<noteq> 0 then (False, w\<lparr>w_tick := Suc (w_tick w)\<rparr>)
      else if ?rv2 \<noteq> 0 then (False, nng_close s ?w3)
      else (True, upd_node a (\<lambda>x. x\<lparr>n_nng_initialized := True\<rparr>) ?w3))"
    using False o1 by (simp add: start_socket_def nng_pub0_open_def nng_listen_def ask_def)
  have t3: "rt_tasks (upd_node a (\<lambda>x. x\<lparr>n_nng_initialized := True\<rparr>) ?w3)
      = xs @ (a, n\<lparr>n_nng_sock := s, n_nng_initialized := True\<rparr>) # ys"
    using upd_node_split [OF t2 sp(2,3)] by simp
  have "rt_ok B (nng_close s ?w3)"
    using ok sp t2 False by (simp add: rt_ok_def nng_close_def)
  moreover have "rt_ok B (upd_node a (\<lambda>x. x\<lparr>n_nng_initialized := True\<rparr>) ?w3)"
    using ok sp t3 False by (simp add: rt_ok_def)
  ultimately show ?thesis using ok by (simp add: st)
qed

lemma rt_ok_more:
  "rt_tasks w' = rt_tasks w \<Longrightarrow> rt_count w' = rt_count w \<Longrightarrow> rt_fresh w' = rt_fresh w \<Longrightarrow>
   w_nng_socks w' = w_nng_socks w \<Longrightarrow> rt_ok B w' = rt_ok B w"
  by (simp add: rt_ok_def)

lemma rt_ok_dl: "dl_keeps w w' \<Longrightarrow> rt_ok B w' = rt_ok B w"
  by (intro rt_ok_more) (auto dest: dl_keeps_rt)

lemma rt_ok_start_task:
  assumes "rt_ok B w"
  shows "rt_ok B (snd (rt_start_task E task lib w))"
proof (cases task)
  case None
  with assms show ?thesis by (simp add: rt_start_task_def)
next
  case (Some a)
  show ?thesis
  proof (cases "node_at w a")
    case None
    with Some assms show ?thesis by (simp add: rt_start_task_def)
  next
    case n: (Some n)
    obtain ok w1 where st: "start_socket E a n w = (ok, w1)" by (cases "start_socket E a n w")
    have w1: "rt_ok B w1" using rt_ok_start_socket [OF assms n, of E] st by simp
    let ?l = "case lib of Some l \<Rightarrow> l | None \<Rightarrow> ''libsoket_demo''"
    obtain ret out w2 where c: "call_local_dyn_socklibffi E (Some ?l) (Some (start_json n)) w1 = ((ret, out), w2)"
      by (metis surj_pair)
    have w2: "rt_ok B w2"
      using rt_ok_dl [OF dl_keeps_sock, of B E "Some ?l" "Some (start_json n)" w1] c w1 by simp
    show ?thesis
      using Some n st c w1 w2 assms
      by (simp add: rt_start_task_def ask_def rt_ok_upd_same Let_def)
  qed
qed

lemma rt_ok_stop_task: "rt_ok B w \<Longrightarrow> rt_ok B (snd (rt_stop_task E task w))"
  by (auto simp: rt_stop_task_def rt_ok_upd_same split: option.splits)

lemma close_node_simps [simp]:
  "rt_tasks (close_node E a n w) = rt_tasks w" "rt_count (close_node E a n w) = rt_count w"
  "rt_fresh (close_node E a n w) = rt_fresh w"
  "w_nng_socks (close_node E a n w) =
     (if n_nng_initialized n then remove1 (n_nng_sock n) (w_nng_socks w) else w_nng_socks w)"
  by (simp_all add: close_node_def Let_def nng_close_def split: option.splits)

lemma filter_split:
  assumes "a \<notin> fst ` set xs" "a \<notin> fst ` set ys"
  shows "filter (\<lambda>(b, _). b \<noteq> a) (xs @ (a, n) # ys) = xs @ ys"
  using filter_other [OF assms(1)] filter_other [OF assms(2)] by simp

lemma rt_ok_remove_task:
  assumes "rt_ok B w"
  shows "rt_ok B (snd (rt_remove_task E task w))"
proof (cases task)
  case None
  with assms show ?thesis by (simp add: rt_remove_task_def)
next
  case (Some a)
  show ?thesis
  proof (cases "node_at w a")
    case None
    with Some assms show ?thesis by (simp add: rt_remove_task_def)
  next
    case n: (Some n)
    obtain xs ys where sp: "rt_tasks w = xs @ (a, n) # ys" "a \<notin> fst ` set xs" "a \<notin> fst ` set ys"
      using node_at_split [OF n] assms by (auto simp: rt_ok_def)
    then have f: "filter (\<lambda>(b, _). b \<noteq> a) (rt_tasks w) = xs @ ys"
      unfolding sp(1) by (intro filter_split sp)
    have r: "snd (rt_remove_task E task w)
        = close_node E a n (w\<lparr>rt_tasks := xs @ ys, rt_count := rt_count w - 1\<rparr>)"
      by (simp add: rt_remove_task_def Some n f)
    show ?thesis
      using assms sp unfolding r rt_ok_def by auto
  qed
qed

lemma rt_ok_create_task:
  assumes "rt_ok B w"
  shows "rt_ok B (snd (rt_create_task E uuid w))"
proof (cases "uuid = None \<or> find_node (rt_tasks w) (the uuid) \<noteq> None \<or> \<not> env_malloc E (w_tick w)")
  case True
  with assms show ?thesis by (auto simp: rt_create_task_def ask_def split: option.splits)
next
  case False
  then obtain u where u: "uuid = Some u" "find_node (rt_tasks w) u = None" "env_malloc E (w_tick w)"
    by auto
  have lt: "\<forall>a \<in> fst ` set (rt_tasks w). a < rt_fresh w" using assms by (simp add: rt_ok_def)
  then have "rt_fresh w \<notin> fst ` set (rt_tasks w)" by blast
  with assms lt u show ?thesis
    by (simp add: rt_create_task_def ask_def ask2_def gen_id_def Let_def rt_ok_def new_node_def less_Suc_eq)
qed

section \<open>Removing the tasks of a connection\<close>

lemma remove_task_effect:
  assumes "rt_ok B w" "a \<in> fst ` set (rt_tasks w)"
  shows "fst (rt_remove_task E (Some a) w) = 0"
    and "rt_tasks (snd (rt_remove_task E (Some a) w)) = filter (\<lambda>(b, _). b \<noteq> a) (rt_tasks w)"
proof -
  obtain n where "(a, n) \<in> set (rt_tasks w)" using assms(2) by auto
  then have "node_at w a \<noteq> None" 
    unfolding node_at_def by (metis map_of_eq_None_iff image_eqI fst_conv)
  then obtain m where "node_at w a = Some m" by auto
  then show "fst (rt_remove_task E (Some a) w) = 0"
    "rt_tasks (snd (rt_remove_task E (Some a) w)) = filter (\<lambda>(b, _). b \<noteq> a) (rt_tasks w)"
    by (simp_all add: rt_remove_task_def)
qed

lemma remove_victims_effect:
  assumes "rt_ok B w" "distinct vs" "set vs \<subseteq> fst ` set (rt_tasks w)"
  shows "fst (remove_victims E vs w) = int (length vs)
    \<and> rt_tasks (snd (remove_victims E vs w)) = filter (\<lambda>(b, _). b \<notin> set vs) (rt_tasks w)
    \<and> rt_ok B (snd (remove_victims E vs w))"
  using assms
proof (induction vs arbitrary: w)
  case Nil
  then show ?case by (simp add: case_prod_beta)
next
  case (Cons a vs)
  obtain rc w1 where r: "rt_remove_task E (Some a) w = (rc, w1)" by (cases "rt_remove_task E (Some a) w")
  have a: "a \<in> fst ` set (rt_tasks w)" using Cons.prems by simp
  have w1: "rc = 0" "rt_tasks w1 = filter (\<lambda>(b, _). b \<noteq> a) (rt_tasks w)" "rt_ok B w1"
    using remove_task_effect [OF Cons.prems(1) a, of E] rt_ok_remove_task [OF Cons.prems(1), of E "Some a"] r
    by simp_all
  have "set vs \<subseteq> fst ` set (rt_tasks w1)"
  proof
    fix v assume "v \<in> set vs"
    with Cons.prems have "v \<in> fst ` set (rt_tasks w)" "v \<noteq> a" by auto
    then show "v \<in> fst ` set (rt_tasks w1)" unfolding w1(2) by force
  qed
  with Cons.IH [of w1] Cons.prems w1
  have ih: "fst (remove_victims E vs w1) = int (length vs)"
    "rt_tasks (snd (remove_victims E vs w1)) = filter (\<lambda>(b, _). b \<notin> set vs) (rt_tasks w1)"
    "rt_ok B (snd (remove_victims E vs w1))" by simp_all
  have "filter (\<lambda>(b, _). b \<notin> set vs) (rt_tasks w1) = filter (\<lambda>(b, _). b \<notin> set (a # vs)) (rt_tasks w)"
    unfolding w1(2) filter_filter by (rule filter_cong) auto
  with ih r w1 show ?case by (simp add: split_beta)
qed

text \<open>What is collected: the connection's tasks in list order, all of them if memory lasts.\<close>

lemma collect_victims_tick: "\<exists>t. snd (collect_victims E c ns i cap w) = w\<lparr>w_tick := t\<rparr>"
proof (induction ns arbitrary: i cap w)
  case Nil
  show ?case by (intro exI [of _ "w_tick w"]) simp
next
  case (Cons an ns)
  obtain a n where an: "an = (a, n)" by (cases an)
  let ?w1 = "w\<lparr>w_tick := Suc (w_tick w)\<rparr>"
  have "\<exists>t. snd (collect_victims E c ns j k ?w1) = w\<lparr>w_tick := t\<rparr>" for j k
    using Cons.IH [of j k ?w1] by simp
  moreover have "\<exists>t. ?w1 = w\<lparr>w_tick := t\<rparr>" by blast
  ultimately show ?case
    using Cons.IH [of i cap w] Cons.IH [of "Suc i" cap w] by (simp add: an ask_def split_beta)
qed

lemma collect_victims_prefix:
  fixes w :: "'a rt_world_scheme"
  shows "\<exists>k. fst (collect_victims E c ns i cap w) = take k (map fst (filter (\<lambda>x. n_conn_id (snd x) = c) ns))"
proof (induction ns arbitrary: i cap w)
  case Nil
  show ?case by simp
next
  case (Cons an ns)
  obtain a n where an: "an = (a, n)" by (cases an)
  let ?vs = "map fst (filter (\<lambda>x. n_conn_id (snd x) = c) ns)"
  have step: "\<exists>k. a # fst (collect_victims E c ns j l v) = take k (a # ?vs)"
    for j l and v :: "'a rt_world_scheme"
  proof -
    obtain k where "fst (collect_victims E c ns j l v) = take k ?vs" using Cons.IH [of j l v] by blast
    then show ?thesis by (intro exI [of _ "Suc k"]) simp
  qed
  have "\<exists>k. [] = take k (a # ?vs)" by (intro exI [of _ 0]) simp
  with Cons.IH [of i cap w] step show ?case by (simp add: an ask_def split_beta)
qed

lemma collect_victims_all:
  "(\<forall>t. env_malloc E t) \<Longrightarrow>
     fst (collect_victims E c ns i cap w) = map fst (filter (\<lambda>x. n_conn_id (snd x) = c) ns)"
  by (induction ns arbitrary: i cap w) (auto simp: ask_def split_beta)

lemma unique_nodes:
  "distinct (map fst ns) \<Longrightarrow> (a, n) \<in> set ns \<Longrightarrow> (a, m) \<in> set ns \<Longrightarrow> n = m"
  by (meson eq_key_imp_eq_value)

lemma remove_by_conn_effect:
  assumes ok: "rt_ok B w"
  shows "\<exists>vs. rt_remove_tasks_by_conn E c w = remove_victims E vs (w\<lparr>w_tick := w_tick (snd (collect_victims E c (rt_tasks w) 0 0 w))\<rparr>)
     \<and> distinct vs \<and> set vs \<subseteq> fst ` {x \<in> set (rt_tasks w). n_conn_id (snd x) = c}
     \<and> ((\<forall>t. env_malloc E t) \<longrightarrow> vs = map fst (filter (\<lambda>x. n_conn_id (snd x) = c) (rt_tasks w)))"
proof -
  let ?cv = "collect_victims E c (rt_tasks w) 0 0 w"
  let ?all = "map fst (filter (\<lambda>x. n_conn_id (snd x) = c) (rt_tasks w))"
  obtain t where t: "snd ?cv = w\<lparr>w_tick := t\<rparr>" using collect_victims_tick by blast
  obtain k where k: "fst ?cv = take k ?all" using collect_victims_prefix by blast
  have "distinct ?all" using ok by (simp add: rt_ok_def distinct_map_filter)
  then have d: "distinct (fst ?cv)" unfolding k by (rule distinct_take)
  have sub: "set (fst ?cv) \<subseteq> fst ` {x \<in> set (rt_tasks w). n_conn_id (snd x) = c}"
    unfolding k using set_take_subset [of k ?all] by (fastforce simp: image_iff)
  have "rt_remove_tasks_by_conn E c w = remove_victims E (fst ?cv) (snd ?cv)"
    by (simp add: rt_remove_tasks_by_conn_def split_beta)
  then show ?thesis
    using d sub collect_victims_all [of E c "rt_tasks w" 0 0 w] t
    by (intro exI [of _ "fst ?cv"]) simp
qed

text \<open>C22: When a connection closes, its tasks go and no others. Whatever memory there is, every task
  of another connection stays where it was, in order; if no allocation fails, exactly the tasks of
  the closed connection are removed and their number is returned. In all cases the table's invariant
  holds afterwards: the sockets of the removed tasks are closed and no others.\<close>

theorem rt_remove_tasks_by_conn_exact:
  assumes "rt_ok B w"
  shows "filter (\<lambda>x. n_conn_id (snd x) \<noteq> c) (rt_tasks (snd (rt_remove_tasks_by_conn E c w)))
       = filter (\<lambda>x. n_conn_id (snd x) \<noteq> c) (rt_tasks w)
     \<and> rt_ok B (snd (rt_remove_tasks_by_conn E c w))
     \<and> ((\<forall>t. env_malloc E t) \<longrightarrow>
          rt_tasks (snd (rt_remove_tasks_by_conn E c w)) = filter (\<lambda>x. n_conn_id (snd x) \<noteq> c) (rt_tasks w)
        \<and> fst (rt_remove_tasks_by_conn E c w) = int (length (filter (\<lambda>x. n_conn_id (snd x) = c) (rt_tasks w))))"
proof -
  define w1 where "w1 = w\<lparr>w_tick := w_tick (snd (collect_victims E c (rt_tasks w) 0 0 w))\<rparr>"
  obtain vs where vs: "rt_remove_tasks_by_conn E c w = remove_victims E vs w1" "distinct vs"
    "set vs \<subseteq> fst ` {x \<in> set (rt_tasks w). n_conn_id (snd x) = c}"
    "(\<forall>t. env_malloc E t) \<longrightarrow> vs = map fst (filter (\<lambda>x. n_conn_id (snd x) = c) (rt_tasks w))"
    using remove_by_conn_effect [OF assms, of E c] unfolding w1_def by blast
  have w1: "rt_ok B w1" "rt_tasks w1 = rt_tasks w" using assms by (simp_all add: w1_def)
  have "set vs \<subseteq> fst ` set (rt_tasks w1)" using vs(3) w1 by auto
  then have rv: "fst (remove_victims E vs w1) = int (length vs)"
    "rt_tasks (snd (remove_victims E vs w1)) = filter (\<lambda>(b, _). b \<notin> set vs) (rt_tasks w)"
    "rt_ok B (snd (remove_victims E vs w1))"
    using remove_victims_effect [OF w1(1) vs(2), of E] w1(2) by simp_all
  have dist: "distinct (map fst (rt_tasks w))" using assms by (simp add: rt_ok_def)
  have mine: "n_conn_id n = c" if "(a, n) \<in> set (rt_tasks w)" "a \<in> set vs" for a n
  proof -
    from vs(3) that(2) obtain m where "(a, m) \<in> set (rt_tasks w)" "n_conn_id m = c" by fastforce
    with unique_nodes [OF dist that(1)] show ?thesis by blast
  qed
  have other: "filter (\<lambda>x. n_conn_id (snd x) \<noteq> c) (filter (\<lambda>(b, _). b \<notin> set vs) (rt_tasks w))
      = filter (\<lambda>x. n_conn_id (snd x) \<noteq> c) (rt_tasks w)"
    unfolding filter_filter using mine by (intro filter_cong) auto
  have all: "filter (\<lambda>(b, _). b \<notin> set vs) (rt_tasks w) = filter (\<lambda>x. n_conn_id (snd x) \<noteq> c) (rt_tasks w)"
    if "vs = map fst (filter (\<lambda>x. n_conn_id (snd x) = c) (rt_tasks w))"
  proof (rule filter_cong [OF refl])
    fix x assume x: "x \<in> set (rt_tasks w)"
    then have "fst x \<in> set vs \<longleftrightarrow> n_conn_id (snd x) = c"
      using mine [of "fst x" "snd x"] that by auto
    then show "(case x of (b, _) \<Rightarrow> b \<notin> set vs) = (n_conn_id (snd x) \<noteq> c)" by (simp add: split_beta)
  qed
  show ?thesis
    using rv other all vs(4) unfolding vs(1) by auto
qed

definition demo_rt :: "(addr \<times> rt_node) list \<Rightarrow> rt_world" where
  "demo_rt ns = dl_world.extend no_libs (rt_world.fields ns (int (length ns)) True 0 100 [])"

theorem rt_remove_tasks_by_conn_exact_witness:
  "map fst (rt_tasks (snd (rt_remove_tasks_by_conn calm_env 7
     (demo_rt [(3, (new_node ''t'' ''b'' 0 0)\<lparr>n_conn_id := 7\<rparr>), (2, new_node ''t'' ''a'' 0 0)])))) = [2]"
proof -
  have "rt_ok {#7#} (demo_rt [(3, (new_node ''t'' ''b'' 0 0)\<lparr>n_conn_id := 7\<rparr>), (2, new_node ''t'' ''a'' 0 0)])"
    by (simp add: rt_ok_def demo_rt_def no_libs_def dl_world.defs rt_world.defs pusher_world.defs
        one_client_def new_node_def)
  from rt_remove_tasks_by_conn_exact [OF this, of 7 calm_env] show ?thesis
    by (simp add: calm_env_def demo_rt_def no_libs_def dl_world.defs rt_world.defs pusher_world.defs
        new_node_def)
qed

section \<open>The table of tasks as a keyed table\<close>

definition link_node :: "rt_node \<Rightarrow> string \<Rightarrow> addr \<Rightarrow> (addr \<times> rt_node) list \<Rightarrow> (addr \<times> rt_node) list" where
  "link_node n uuid a ns = (a, n\<lparr>n_uuid := stored_uuid uuid\<rparr>) # ns"

definition uuid_ok :: "string \<Rightarrow> bool" where
  "uuid_ok uuid \<longleftrightarrow> length uuid < 64"

lemma stored_uuid_ok: "uuid_ok u \<Longrightarrow> stored_uuid u = u"
  by (simp add: uuid_ok_def stored_uuid_def)

interpretation rtt: keyed_table find_node "link_node n" "\<lambda>_. True" uuid_ok for n
  by unfold_locales (auto simp: link_node_def stored_uuid_ok)

lemma create_task_eq:
  assumes "env_malloc E (w_tick w)" "find_node (rt_tasks w) u = None"
  shows "\<exists>n t. rt_create_task E (Some u) w = (Some (rt_fresh w), t)
     \<and> rt_tasks t = link_node n u (rt_fresh w) (rt_tasks w) \<and> n_conn_id n = 0 \<and> n_status n = RT_TASK_IDLE
     \<and> n_socket_id n = socket_id_text u \<and> \<not> n_nng_initialized n"
proof -
  obtain tid w3 where g: "gen_id E (w\<lparr>w_tick := Suc (w_tick w) + 2\<rparr>) = (tid, w3)"
    by (cases "gen_id E (w\<lparr>w_tick := Suc (w_tick w) + 2\<rparr>)")
  then have w3: "rt_tasks w3 = rt_tasks w" "rt_fresh w3 = rt_fresh w"
    by (auto simp: gen_id_def ask_def Let_def)
  let ?n = "new_node tid u (env_time E (Suc (w_tick w))) (env_time E (Suc (Suc (w_tick w))))"
  have "rt_create_task E (Some u) w = (Some (rt_fresh w), send_rt_event E ''create'' (Some u) (Some ''created'')
      (w3\<lparr>rt_fresh := Suc (rt_fresh w), rt_tasks := (rt_fresh w, ?n) # rt_tasks w, rt_count := rt_count w3 + 1\<rparr>))"
    using assms g w3 by (simp add: rt_create_task_def ask_def ask2_def Let_def)
  then show ?thesis
    by (intro exI [of _ ?n] exI) (auto simp: link_node_def new_node_def)
qed

text \<open>A task that was created can be found. For uuids of at most 63 bytes, creating a task enters
  it so that looking it up gives its address, a second creation for the uuid is refused without
  changing the table, and the lookup of every other uuid gives what it gave before.\<close>

theorem rt_create_then_find:
  assumes "uuid_ok u" "env_malloc E (w_tick w)" "rt_find_task_by_uuid u w = None"
  shows "\<exists>a w'. rt_create_task E (Some u) w = (Some a, w')
     \<and> rt_find_task_by_uuid u w' = Some a
     \<and> rt_create_task E (Some u) w' = (None, w')
     \<and> (\<forall>v. v \<noteq> u \<longrightarrow> rt_find_task_by_uuid v w' = rt_find_task_by_uuid v w)"
proof -
  have none: "find_node (rt_tasks w) u = None" using assms(3) by (simp add: rt_find_task_by_uuid_def)
  obtain n w' where c: "rt_create_task E (Some u) w = (Some (rt_fresh w), w')"
    "rt_tasks w' = link_node n u (rt_fresh w) (rt_tasks w)"
    using create_task_eq [OF assms(2) none] by blast
  have f: "find_node (rt_tasks w') u = Some (rt_fresh w)"
    unfolding c(2) using assms(1) none by (intro rtt.look_add_same) simp_all
  moreover have "find_node (rt_tasks w') v = find_node (rt_tasks w) v" if "v \<noteq> u" for v
    unfolding c(2) using assms(1) that by (intro rtt.look_add_other) simp_all
  moreover have "rt_create_task E (Some u) w' = (None, w')" using f by (simp add: rt_create_task_def)
  ultimately show ?thesis
    using c(1) by (intro exI [of _ "rt_fresh w"] exI [of _ w']) (simp add: rt_find_task_by_uuid_def)
qed

theorem rt_create_then_find_witness:
  "\<exists>a w'. rt_create_task calm_env (Some ''dev-1'') (demo_rt []) = (Some a, w')
     \<and> rt_find_task_by_uuid ''dev-1'' w' = Some a"
  using rt_create_then_find [of "''dev-1''" calm_env "demo_rt []"]
  by (auto simp: uuid_ok_def calm_env_def rt_find_task_by_uuid_def demo_rt_def dl_world.defs rt_world.defs)

text \<open>A longer uuid is stored cut off while lookups compare the whole: the task is entered but can
  never be found under its uuid again, and every further request for the uuid is accepted and adds
  another task.\<close>

theorem rt_long_uuid_lost:
  assumes "64 \<le> length u" "env_malloc E (w_tick w)"
    and "\<forall>x \<in> set (rt_tasks w). length (n_uuid (snd x)) < 64"
  shows "\<exists>a w'. rt_create_task E (Some u) w = (Some a, w')
     \<and> rt_find_task_by_uuid u w' = None
     \<and> length (rt_tasks w') = Suc (length (rt_tasks w))
     \<and> (\<forall>x \<in> set (rt_tasks w'). length (n_uuid (snd x)) < 64)"
proof -
  have miss: "find_node ns u = None" if "\<forall>x \<in> set ns. length (n_uuid (snd x)) < 64" for ns
    using that assms(1) by (induction ns u rule: find_node.induct) auto
  obtain n w' where c: "rt_create_task E (Some u) w = (Some (rt_fresh w), w')"
    "rt_tasks w' = link_node n u (rt_fresh w) (rt_tasks w)"
    using create_task_eq [OF assms(2) miss [OF assms(3)]] by blast
  have "\<forall>x \<in> set (rt_tasks w'). length (n_uuid (snd x)) < 64"
    using assms(3) by (simp add: c(2) link_node_def stored_uuid_def)
  moreover from miss [OF this] have "rt_find_task_by_uuid u w' = None"
    by (simp add: rt_find_task_by_uuid_def)
  ultimately show ?thesis
    using c by (intro exI [of _ "rt_fresh w"] exI [of _ w']) (simp add: link_node_def)
qed

theorem rt_long_uuid_lost_witness:
  "\<exists>a w'. rt_create_task calm_env (Some (replicate 64 (CHR ''a''))) (demo_rt []) = (Some a, w')
     \<and> rt_find_task_by_uuid (replicate 64 (CHR ''a'')) w' = None"
  using rt_long_uuid_lost [of "replicate 64 (CHR ''a'')" calm_env "demo_rt []"]
  by (auto simp: calm_env_def demo_rt_def dl_world.defs rt_world.defs)

section \<open>All operations\<close>

lemma fold_keeps:
  "(\<And>x v. keeps v (g x v)) \<Longrightarrow> keeps w (fold g xs w)"
proof (induction xs arbitrary: w)
  case (Cons x xs)
  then have "keeps w (g x w)" "keeps (g x w) (fold g xs (g x w))" by auto
  then show ?case by (simp add: keeps_trans)
qed simp

lemma rt_ok_keeps: "keeps w w' \<Longrightarrow> rt_ok B w' = rt_ok B w"
  by (intro rt_ok_more) (auto dest: keeps_rt)

lemma keeps_broadcasts:
  "keeps w (rt_broadcast E d len w)" "keeps w (rt_run E w)" "keeps w (snd (rt_send_msg E task d w))"
proof -
  show "keeps w (rt_broadcast E d len w)"
    by (auto simp: rt_broadcast_def intro!: fold_keeps split: option.splits)
  have "keeps w (w\<lparr>w_tick := Suc (w_tick w)\<rparr>)" by (rule keeps_tick)
  moreover have "keeps v (fold (\<lambda>(a, n) v. if n_status n = RT_TASK_RUNNING \<and> heartbeat_timeout < now - n_last_heartbeat n
          then send_rt_event E ''heartbeat_timeout'' (Some (n_uuid n)) (Some ''timeout'') v else v) ns v)" for v ns now
    using keeps_rt_event by (intro fold_keeps) auto
  ultimately show "keeps w (rt_run E w)" unfolding rt_run_def ask_def by (auto intro: keeps_trans)
  show "keeps w (snd (rt_send_msg E task d w))"
    by (auto simp: rt_send_msg_def Let_def split: option.splits)
qed

lemma cleanup_socks:
  assumes "mset (w_nng_socks w) = B + rt_socks ns"
  shows "mset (w_nng_socks (fold (\<lambda>(a, n) v.
            (let v1 = (if n_status n = RT_TASK_RUNNING
                       then send_rt_event E ''cleanup'' (Some (n_uuid n)) (Some ''stopped'') v else v);
                 v2 = (if n_nng_initialized n then nng_close (n_nng_sock n) v1 else v1)
             in case n_on_cleanup n of Some cb \<Rightarrow> v2\<lparr>rt_called := (cb, a) # rt_called v2\<rparr> | None \<Rightarrow> v2)) ns w)) = B"
  using assms
proof (induction ns arbitrary: w)
  case Nil
  then show ?case by simp
next
  case (Cons x ns)
  obtain a n where x: "x = (a, n)" by (cases x)
  show ?case
    unfolding fold_Cons comp_def
    by (rule Cons.IH) (use Cons.prems in \<open>auto simp: x Let_def nng_close_def split: option.splits\<close>)
qed

lemma rt_ok_cleanup: "rt_ok B w \<Longrightarrow> rt_ok B (rt_cleanup E w)"
  using cleanup_socks [of w B "rt_tasks w" E] by (simp add: rt_ok_def rt_cleanup_def)


end
