(* ===== verification/WsCall.thy ===== *)
theory WsCall
  imports EventFormat
begin

text \<open>
  src/ws_message.c, src/ws_command.c and src/ws_call.c: the size limit of a WebSocket message, the
  parser of the commands (bind, remove, status, msg), the parser of a \<open>call\<close> request and the
  texts of its responses.

  A payload is an \<open>option\<close> (a NULL pointer) of its bytes. The \<open>bool\<close> arguments say whether each
  allocation succeeds, in the code's order; \<open>t\<close> is \<open>time(NULL)\<close>. Output pointers are never NULL in
  the program; the error text is what the caller's buffer of \<open>err_size\<close> bytes holds. Freeing has
  no counterpart: a freed field is \<open>None\<close>.
\<close>

section \<open>ws_message.c\<close>

definition WS_MAX_MESSAGE_BYTES :: nat where "WS_MAX_MESSAGE_BYTES = 1024 * 1024"

definition ws_message_limit :: nat where "ws_message_limit = WS_MAX_MESSAGE_BYTES"

definition ws_message_check_size :: "nat \<Rightarrow> int" where
  "ws_message_check_size len = (if WS_MAX_MESSAGE_BYTES < len then -1 else 0)"

section \<open>ws_command.c\<close>

definition WS_COMMAND_MAX_PAYLOAD :: nat where "WS_COMMAND_MAX_PAYLOAD = 1024 * 1024"

record ws_command =
  wc_cmd :: "string option"
  wc_uuid :: "string option"
  wc_lib :: "string option"
  wc_data :: "string option"

definition no_command :: ws_command where
  "no_command = \<lparr>wc_cmd = None, wc_uuid = None, wc_lib = None, wc_data = None\<rparr>"

definition ws_command_parse ::
  "bool \<Rightarrow> bool \<Rightarrow> bool \<Rightarrow> bool \<Rightarrow> string option \<Rightarrow> nat \<Rightarrow> int \<times> ws_command \<times> string" where
  "ws_command_parse a1 a2 a3 a4 payload err_size =
     (case payload of
        None \<Rightarrow> (-1, no_command, snprintf_buf err_size ''invalid payload size'')
      | Some json \<Rightarrow>
          if length json = 0 \<or> WS_COMMAND_MAX_PAYLOAD < length json
          then (-1, no_command, snprintf_buf err_size ''invalid payload size'')
          else
            (case mg_json_get_str a1 json ''$.cmd'' of
               None \<Rightarrow> (-1, no_command, snprintf_buf err_size ''missing cmd'')
             | Some cmd \<Rightarrow>
                 if cmd = [] then (-1, no_command, snprintf_buf err_size ''missing cmd'')
                 else (0, \<lparr>wc_cmd = Some cmd, wc_uuid = mg_json_get_str a2 json ''$.uuid'',
                        wc_lib = mg_json_get_str a3 json ''$.lib'',
                        wc_data = mg_json_get_str a4 json ''$.data''\<rparr>, [])))"

section \<open>ws_call.c: the request\<close>

definition WS_CALL_OK :: int where "WS_CALL_OK = 0"
definition WS_CALL_ERR_PARAM :: int where "WS_CALL_ERR_PARAM = -1"
definition WS_CALL_ERR_LIB :: int where "WS_CALL_ERR_LIB = -2"
definition WS_CALL_ERR_SYMBOL :: int where "WS_CALL_ERR_SYMBOL = -3"
definition WS_CALL_ERR_INVOKE :: int where "WS_CALL_ERR_INVOKE = -4"
definition WS_CALL_ERR_DENIED :: int where "WS_CALL_ERR_DENIED = -5"

lemmas ws_call_codes = WS_CALL_OK_def WS_CALL_ERR_PARAM_def WS_CALL_ERR_LIB_def
  WS_CALL_ERR_SYMBOL_def WS_CALL_ERR_INVOKE_def WS_CALL_ERR_DENIED_def

definition WS_CALL_MAX_NAME :: nat where "WS_CALL_MAX_NAME = 128"
definition WS_CALL_MAX_PAYLOAD :: nat where "WS_CALL_MAX_PAYLOAD = 1024 * 1024"

record ws_call_req =
  rq_id :: "string option"
  rq_lib :: "string option"
  rq_symbol :: "string option"
  rq_args :: "string option"
  rq_timeout_ms :: int

definition no_req :: ws_call_req where
  "no_req = \<lparr>rq_id = None, rq_lib = None, rq_symbol = None, rq_args = None, rq_timeout_ms = 0\<rparr>"

definition ws_safe_name :: "string option \<Rightarrow> bool" where
  "ws_safe_name s =
     (case s of
        None \<Rightarrow> False
      | Some n \<Rightarrow> n \<noteq> [] \<and> list_all (\<lambda>c. isalnum c \<or> c = CHR ''_'' \<or> c = CHR ''-'') n)"

definition is_object_or_null :: "string option \<Rightarrow> bool" where
  "is_object_or_null s =
     (case s of
        None \<Rightarrow> False
      | Some str \<Rightarrow>
          (let r = dropWhile isspace str
           in if r \<noteq> [] \<and> hd r = CHR ''{'' then True
              else if strncmp_eq r ''null'' 4 then dropWhile isspace (drop 4 r) = []
              else False))"

text \<open>The call's arguments: the raw token, or \<open>{}\<close> when there is none or its copy fails.\<close>

definition call_args :: "bool \<Rightarrow> bool \<Rightarrow> string \<Rightarrow> string option" where
  "call_args a4 a5 json =
     (case mg_json_get_tok json ''$.args'' of
        Some tok \<Rightarrow> if 0 < length tok \<and> a4 then Some (cstr tok) else if a5 then Some ''{}'' else None
      | None \<Rightarrow> if a5 then Some ''{}'' else None)"

definition ws_call_parse ::
  "'d fpu \<Rightarrow> (nat \<Rightarrow> bool) \<Rightarrow> string option \<Rightarrow> nat \<Rightarrow> int \<times> ws_call_req \<times> string" where
  "ws_call_parse fp alloc payload err_size =
     (let fail = (\<lambda>code i msg. (code, no_req\<lparr>rq_id := i\<rparr>, snprintf_buf err_size msg)) in
      case payload of
        None \<Rightarrow> fail WS_CALL_ERR_PARAM None ''invalid payload size''
      | Some json \<Rightarrow>
          if length json = 0 \<or> WS_CALL_MAX_PAYLOAD < length json
          then fail WS_CALL_ERR_PARAM None ''invalid payload size''
          else
            (let cid = mg_json_get_str (alloc 1) json ''$.id'';
                 lib = mg_json_get_str (alloc 2) json ''$.lib'';
                 symbol = mg_json_get_str (alloc 3) json ''$.symbol''
             in case (cid, lib, symbol) of
                  (Some i, Some l, Some s) \<Rightarrow>
                    if WS_CALL_MAX_NAME < length i \<or> WS_CALL_MAX_NAME < length l
                       \<or> WS_CALL_MAX_NAME < length s
                    then fail WS_CALL_ERR_PARAM cid ''id/lib/symbol too long''
                    else if \<not> ws_safe_name lib \<or> \<not> ws_safe_name symbol
                    then fail WS_CALL_ERR_DENIED cid ''invalid lib or symbol''
                    else
                      (case call_args (alloc 4) (alloc 5) json of
                         None \<Rightarrow> fail WS_CALL_ERR_PARAM cid ''out of memory''
                       | Some args \<Rightarrow>
                           if \<not> is_object_or_null (Some args)
                           then fail WS_CALL_ERR_PARAM cid ''args must be an object or null''
                           else (WS_CALL_OK,
                             \<lparr>rq_id = cid, rq_lib = lib, rq_symbol = symbol, rq_args = Some args,
                               rq_timeout_ms = mg_json_get_long fp json ''$.timeout_ms'' 0\<rparr>, []))
                | _ \<Rightarrow> fail WS_CALL_ERR_PARAM cid ''missing id/lib/symbol''))"

section \<open>ws_call.c: the response\<close>

text \<open>\<open>json_escape_dup\<close> writes at most two bytes for one into a buffer of twice the size plus 1.\<close>

fun json_escape_loop :: "string \<Rightarrow> string" where
  "json_escape_loop [] = []"
| "json_escape_loop (c # cs) =
     (if c = DQ then BSL # DQ # json_escape_loop cs
      else if c = BSL then BSL # BSL # json_escape_loop cs
      else if c = LF then BSL # CHR ''n'' # json_escape_loop cs
      else if c = CR then BSL # CHR ''r'' # json_escape_loop cs
      else if c = TAB then BSL # CHR ''t'' # json_escape_loop cs
      else if byte c < 0x20 then json_escape_loop cs
      else c # json_escape_loop cs)"

definition json_escape_dup :: "bool \<Rightarrow> string option \<Rightarrow> string option" where
  "json_escape_dup a inp =
     (let s = (case inp of None \<Rightarrow> [] | Some s \<Rightarrow> s) in if a then Some (json_escape_loop s) else None)"

record ws_call_resp =
  rs_json :: "string option"
  rs_code :: int

definition no_resp :: ws_call_resp where "no_resp = \<lparr>rs_json = None, rs_code = 0\<rparr>"

definition or_empty :: "string option \<Rightarrow> string" where
  "or_empty s = (case s of None \<Rightarrow> [] | Some x \<Rightarrow> x)"

definition ok_text :: "string \<Rightarrow> string \<Rightarrow> string \<Rightarrow> nat \<Rightarrow> string \<Rightarrow> int \<Rightarrow> string" where
  "ok_text eid elib esym elapsed_ms result t =
     ''{\"type\":\"call\",\"id\":\"'' @ eid @ ''\",\"ok\":true,\"code\":0,\"lib\":\"'' @ elib
     @ ''\",\"symbol\":\"'' @ esym @ ''\",\"elapsed_ms\":'' @ nat_str elapsed_ms
     @ '',\"result\":'' @ result @ '',\"timestamp\":'' @ int_str t @ ''}''"

definition ws_call_build_ok ::
  "(nat \<Rightarrow> bool) \<Rightarrow> string option \<Rightarrow> string option \<Rightarrow> string option \<Rightarrow> u64 \<Rightarrow> string option \<Rightarrow> int
     \<Rightarrow> int \<times> ws_call_resp" where
  "ws_call_build_ok alloc cid lib symbol elapsed_ms result_json t =
     (case (json_escape_dup (alloc 1) cid, json_escape_dup (alloc 2) lib, json_escape_dup (alloc 3) symbol) of
        (Some eid, Some elib, Some esym) \<Rightarrow>
          (let result = (case result_json of Some r \<Rightarrow> if r \<noteq> [] then r else ''null'' | None \<Rightarrow> ''null'');
               need = length eid + length elib + length esym + length result + 256
           in if \<not> alloc 4 then (-1, no_resp)
              else (0, \<lparr>rs_json = Some (snprintf_buf need (ok_text eid elib esym (unat elapsed_ms) result t)),
                     rs_code = WS_CALL_OK\<rparr>))
      | _ \<Rightarrow> (-1, no_resp))"

definition error_text :: "string \<Rightarrow> int \<Rightarrow> string \<Rightarrow> int \<Rightarrow> string" where
  "error_text eid code emsg t =
     ''{\"type\":\"call\",\"id\":\"'' @ eid @ ''\",\"ok\":false,\"code\":'' @ int_str code
     @ '',\"error\":\"'' @ emsg @ ''\",\"timestamp\":'' @ int_str t @ ''}''"

definition ws_call_build_error ::
  "(nat \<Rightarrow> bool) \<Rightarrow> string option \<Rightarrow> int \<Rightarrow> string option \<Rightarrow> int \<Rightarrow> int \<times> ws_call_resp" where
  "ws_call_build_error alloc cid code message t =
     (case (json_escape_dup (alloc 1) cid, json_escape_dup (alloc 2) message) of
        (Some eid, Some emsg) \<Rightarrow>
          (let need = length eid + length emsg + 160
           in if \<not> alloc 3 then (-1, no_resp)
              else (0, \<lparr>rs_json = Some (snprintf_buf need (error_text eid code emsg t)), rs_code = code\<rparr>))
      | _ \<Rightarrow> (-1, no_resp))"

definition ws_call_map_rc :: "int \<Rightarrow> int" where
  "ws_call_map_rc ffi_rc =
     (if ffi_rc = 0 then WS_CALL_OK
      else if ffi_rc = -100 then WS_CALL_ERR_PARAM
      else if ffi_rc = -1 then WS_CALL_ERR_LIB
      else if ffi_rc = -2 then WS_CALL_ERR_SYMBOL
      else WS_CALL_ERR_INVOKE)"

section \<open>Lemmas\<close>

lemma json_escape_loop_full: "json_escape_loop s = escape_full s"
  by (induction s) (simp_all add: esc_char_def esc_rep_def)

text \<open>The two escapers of the program, this one and the one of event_format.c, agree.\<close>

lemma json_escape_dup_eq: "json_escape_dup a s = event_escape_alloc a s"
  by (cases s; cases a)
     (simp_all add: json_escape_dup_def json_escape_loop_full event_escape_alloc_def
        event_escape_json_def escape_loop_full)

lemma json_escape_dup_True [simp]: "json_escape_dup True s = Some (escape_full (or_empty s))"
  by (simp add: json_escape_dup_def json_escape_loop_full or_empty_def)

lemma parse_ok_fields:
  assumes "ws_call_parse fp alloc payload n = (WS_CALL_OK, req, err)"
  obtains json i l s args where "payload = Some json" "json \<noteq> []" "length json \<le> WS_CALL_MAX_PAYLOAD"
    "req = \<lparr>rq_id = Some i, rq_lib = Some l, rq_symbol = Some s, rq_args = Some args,
       rq_timeout_ms = mg_json_get_long fp json ''$.timeout_ms'' 0\<rparr>" "err = []"
    "length i \<le> 128" "length l \<le> 128" "length s \<le> 128"
    "ws_safe_name (Some l)" "ws_safe_name (Some s)" "is_object_or_null (Some args)"
  using assms
  by (auto simp: ws_call_parse_def Let_def ws_call_codes WS_CALL_MAX_NAME_def not_less
      split: option.splits if_splits prod.splits)

lemma no_req_simps [simp]:
  "rq_lib no_req = None" "rq_symbol no_req = None" "rq_args no_req = None" "rq_id no_req = None"
  by (simp_all add: no_req_def)

text \<open>A request as a client writes it, without the optional members.\<close>

definition request_text :: "string \<Rightarrow> string \<Rightarrow> string \<Rightarrow> string" where
  "request_text eid l s =
     ''{\"cmd\":\"call\",\"id\":\"'' @ eid @ ''\",\"lib\":\"'' @ l @ ''\",\"symbol\":\"'' @ s @ ''\"}''"

lemma plain_request_keys: "plain ''cmd''" "plain ''id''" "plain ''lib''" "plain ''symbol''"
  "plain ''call''" "plain ''ok''" "plain ''code''" "plain ''error''" "plain ''elapsed_ms''" "plain ''result''"
  by (simp_all add: plain_def)

text \<open>Text that escaping leaves as it is.\<close>

definition clean :: "string \<Rightarrow> bool" where
  "clean l \<longleftrightarrow> list_all (\<lambda>c. 32 \<le> byte c \<and> c \<noteq> DQ \<and> c \<noteq> BSL) l"

lemma clean_esc: "clean l \<Longrightarrow> escape_full l = l"
  by (induction l) (auto simp: clean_def esc_char_def esc_rep_def)

lemma clean_props: "clean l \<Longrightarrow> plain l \<and> nulfree l \<and> visible l = l"
  by (induction l) (auto simp: clean_def plain_def nulfree_def visible_def kept_def)

lemma safe_char_clean:
  "isalnum c \<or> c = CHR ''_'' \<or> c = CHR ''-'' \<Longrightarrow> 32 \<le> byte c \<and> c \<noteq> DQ \<and> c \<noteq> BSL"
  by (auto simp: isalnum_def isdigit_def isupper_def islower_def)

lemma safe_name_clean: "ws_safe_name (Some l) \<Longrightarrow> clean l"
  unfolding ws_safe_name_def clean_def list_all_iff using safe_char_clean by simp

lemma scan_close_miss:
  "json_scan path (obj_st (Suc 0) p j S_COMMA_OR_EOO) i ''}'' = NotFound"
  by (simp add: json_scan.simps json_ws_def json_step_def step_comma_def end_of_object_def check_ret_def)

lemma scan_last_string_member:
  assumes "plain key" and "key_misses path (Suc 0) p key" and "quotable v" and "\<not> capturing path (Suc 0) p"
  shows "json_scan path (obj_st (Suc 0) p j S_KEY) i (DQ # key @ DQ # CHR '':'' # DQ # v @ DQ # ''}'') = NotFound"
  using assms by (simp add: scan_key_miss scan_string_value scan_close_miss)

lemmas member_cmd = scan_string_member [of "''cmd''", simplified]
lemmas member_id = scan_string_member [of "''id''", simplified]
lemmas member_lib = scan_string_member [of "''lib''", simplified]
lemmas hit_id = scan_string_hit [of "''id''", simplified]
lemmas hit_lib = scan_string_hit [of "''lib''", simplified]
lemmas hit_symbol = scan_string_hit [of "''symbol''", simplified]
lemmas last_symbol = scan_last_string_member [of "''symbol''", simplified]
lemmas request_walk = walk_simps request_text_def member_cmd member_id member_lib hit_id hit_lib
  hit_symbol last_symbol plain_request_keys

lemma request_scan:
  assumes "quotable e" "plain l" "plain s"
  shows "mg_json_get (request_text e l s) ''$.id'' = Found 19 (length e + 2)"
    and "mg_json_get (request_text e l s) ''$.lib'' = Found (length e + 28) (length l + 2)"
    and "mg_json_get (request_text e l s) ''$.symbol'' = Found (length e + length l + 40) (length s + 2)"
    and "mg_json_get (request_text e l s) ''$.args'' = NotFound"
    and "mg_json_get (request_text e l s) ''$.timeout_ms'' = NotFound"
proof -
  have q: "quotable ''call''" "quotable l" "quotable s"
    using assms plain_request_keys by (auto intro: quotable_plain)
  have c: "quotable ''call'' \<Longrightarrow> json_scan path (obj_st (Suc 0) p j S_KEY) i
      (DQ # ''cmd'' @ DQ # CHR '':'' # DQ # ''call'' @ DQ # CHR '','' # r)
    = json_scan path (obj_st (Suc 0) p (i + 6) S_KEY) (i + 13) r"
    if "key_misses path (Suc 0) p ''cmd''" "\<not> capturing path (Suc 0) p" for path p j i r
    using scan_string_member [OF plain_request_keys(1) that(1) _ that(2), of "''call''" j i r]
    by (simp add: add.commute)
  note cmd = c [OF _ _ q(1), simplified]
  show "mg_json_get (request_text e l s) ''$.id'' = Found 19 (length e + 2)"
    "mg_json_get (request_text e l s) ''$.lib'' = Found (length e + 28) (length l + 2)"
    "mg_json_get (request_text e l s) ''$.symbol'' = Found (length e + length l + 40) (length s + 2)"
    "mg_json_get (request_text e l s) ''$.args'' = NotFound"
    "mg_json_get (request_text e l s) ''$.timeout_ms'' = NotFound"
    using assms q by (simp_all add: request_walk cmd)
qed

lemma request_strings:
  assumes "nulfree i" "clean l" "clean s"
  defines "t \<equiv> request_text (escape_full i) l s"
  shows "mg_json_get_str True t ''$.id'' = Some (visible i)" "mg_json_get_str True t ''$.lib'' = Some l"
    "mg_json_get_str True t ''$.symbol'' = Some s" "call_args True True t = Some ''{}''"
    "mg_json_get_long fp t ''$.timeout_ms'' 0 = 0" "t \<noteq> []"
proof -
  let ?e = "escape_full i"
  have l: "plain l" "nulfree l" "visible l = l" and s: "plain s" "nulfree s" "visible s = s"
    using assms(2,3) clean_props by auto
  have q: "quotable ?e" using assms(1) by (rule quotable_escape_full)
  note sc = request_scan [OF q l(1) s(1), folded t_def]
  show "mg_json_get_str True t ''$.id'' = Some (visible i)"
    using sc(1) assms(1)
    by (intro get_str_of_escaped [where pre = "''{\"cmd\":\"call\",\"id\":''"])
       (simp_all add: t_def request_text_def)
  have "mg_json_get_str True t ''$.lib'' = Some (visible l)"
    using sc(2) clean_esc [OF assms(2)] l
    by (intro get_str_of_escaped [where pre = "''{\"cmd\":\"call\",\"id\":\"'' @ ?e @ ''\",\"lib\":''"])
       (simp_all add: t_def request_text_def)
  then show "mg_json_get_str True t ''$.lib'' = Some l" using l by simp
  have "mg_json_get_str True t ''$.symbol'' = Some (visible s)"
    using sc(3) clean_esc [OF assms(3)] s
    by (intro get_str_of_escaped
         [where pre = "''{\"cmd\":\"call\",\"id\":\"'' @ ?e @ ''\",\"lib\":\"'' @ l @ ''\",\"symbol\":''"])
       (simp_all add: t_def request_text_def)
  then show "mg_json_get_str True t ''$.symbol'' = Some s" using s by simp
  show "call_args True True t = Some ''{}''" by (simp add: call_args_def mg_json_get_tok_def sc(4))
  show "mg_json_get_long fp t ''$.timeout_ms'' 0 = 0"
    by (simp add: mg_json_get_long_def mg_json_get_num_def sc(5))
  show "t \<noteq> []" by (simp add: t_def request_text_def)
qed

lemma request_parses:
  assumes "nulfree i" "length (visible i) \<le> 128" "ws_safe_name (Some l)" "length l \<le> 128"
    and "ws_safe_name (Some s)" "length s \<le> 128"
    and "length (request_text (escape_full i) l s) \<le> WS_CALL_MAX_PAYLOAD"
  shows "ws_call_parse fp (\<lambda>_. True) (Some (request_text (escape_full i) l s)) n =
     (WS_CALL_OK, \<lparr>rq_id = Some (visible i), rq_lib = Some l, rq_symbol = Some s,
        rq_args = Some ''{}'', rq_timeout_ms = 0\<rparr>, [])"
proof -
  define t where "t = request_text (escape_full i) l s"
  note st = request_strings [OF assms(1) safe_name_clean [OF assms(3)] safe_name_clean [OF assms(5)],
      folded t_def]
  have "is_object_or_null (Some ''{}'')" by (simp add: is_object_or_null_def isspace_def)
  then show ?thesis
    using st assms unfolding ws_call_parse_def t_def [symmetric]
    by (simp add: Let_def WS_CALL_MAX_NAME_def not_less)
qed

lemma escape_digit: "escape_full ''7'' = ''7''" "visible ''7'' = ''7''" "nulfree ''7''"
  by (simp_all add: esc_char_def esc_rep_def visible_def kept_def)





text \<open>A request that is refused gets code -1 or -5 and a text that says why, and keeps nothing but
  its id, so that the error response can still name the call; -5 is returned exactly for names with
  characters that are not allowed.\<close>

theorem ws_call_parse_refused:
  assumes "ws_call_parse fp alloc payload n = (code, req, err)" "code \<noteq> WS_CALL_OK" "64 \<le> n"
  shows "(code = WS_CALL_ERR_PARAM \<or> code = WS_CALL_ERR_DENIED) \<and> err \<noteq> []
     \<and> rq_lib req = None \<and> rq_symbol req = None \<and> rq_args req = None
     \<and> (code = WS_CALL_ERR_DENIED \<longleftrightarrow> err = ''invalid lib or symbol'')"
proof -
  have cut: "snprintf_buf n m = m" if "length m < 64" for m
    using that assms(3) by (intro snprintf_buf_fits) simp
  show ?thesis
    using assms(1,2)
    by (auto simp: ws_call_parse_def Let_def ws_call_codes cut split: option.splits if_splits)
qed

theorem ws_call_parse_refused_witness:
  "\<exists>req. ws_call_parse no_fpu (\<lambda>_. True) (Some (request_text (escape_full ''7'') ''../x'' ''get'')) 128
       = (-5, req, ''invalid lib or symbol'')
     \<and> rq_id req = Some ''7'' \<and> rq_lib req = None"
proof -
  define t where "t = request_text (escape_full ''7'') ''../x'' ''get''"
  have cl: "clean ''../x''" "clean ''get''" by (simp_all add: clean_def)
  note st = request_strings [OF escape_digit(3) cl, folded t_def, unfolded escape_digit]
  have "length t \<le> WS_CALL_MAX_PAYLOAD"
    unfolding t_def escape_digit by (simp add: request_text_def WS_CALL_MAX_PAYLOAD_def)
  moreover have "\<not> ws_safe_name (Some ''../x'')" by code_simp
  ultimately have r: "ws_call_parse no_fpu (\<lambda>_. True) (Some t) 128
      = (-5, no_req\<lparr>rq_id := Some ''7''\<rparr>, ''invalid lib or symbol'')"
    using st unfolding ws_call_parse_def
    by (simp add: Let_def WS_CALL_MAX_NAME_def snprintf_buf_def ws_call_codes)
  have "rq_lib (no_req\<lparr>rq_id := Some ''7''\<rparr>) = None"
    using ws_call_parse_refused [OF r] by (simp add: ws_call_codes)
  with r show ?thesis unfolding t_def by (intro exI [of _ "no_req\<lparr>rq_id := Some ''7''\<rparr>"]) simp
qed

section \<open>Responses read back\<close>

lemma type_call:
  assumes "key_misses path e p ''type''" "\<not> capturing path e p"
  shows "json_scan path (obj_st e p j S_KEY) i
      (DQ # ''type'' @ DQ # CHR '':'' # DQ # ''call'' @ DQ # CHR '','' # r)
    = json_scan path (obj_st e p (if e = Suc 0 then i + 7 else j) S_KEY) (i + 14) r"
  using scan_string_member [OF _ assms(1) quotable_plain assms(2), of "''call''" j i r]
  by (simp add: plain_def add.commute)

lemma bool_member:
  assumes "plain k" "key_misses path e p k" "\<not> capturing path e p"
  shows "json_scan path (obj_st e p j S_KEY) i
      (DQ # k @ DQ # CHR '':'' # CHR ''t'' # CHR ''r'' # CHR ''u'' # CHR ''e'' # CHR '','' # r)
    = json_scan path (obj_st e p (if e = Suc 0 then i + length k + 3 else j) S_KEY) (i + length k + 8) r"
    and "json_scan path (obj_st e p j S_KEY) i
      (DQ # k @ DQ # CHR '':'' # CHR ''f'' # CHR ''a'' # CHR ''l'' # CHR ''s'' # CHR ''e'' # CHR '','' # r)
    = json_scan path (obj_st e p (if e = Suc 0 then i + length k + 3 else j) S_KEY) (i + length k + 9) r"
  using assms by (simp_all add: scan_key_miss scan_true_false scan_comma ac_simps)

lemma scan_int_hit:
  assumes "plain k"
  shows "json_scan (CHR ''$'' # CHR ''.'' # k) (obj_st (Suc 0) (Suc (Suc 0)) j S_KEY) i
      (DQ # k @ DQ # CHR '':'' # int_str n @ CHR '','' # r)
    = Found (i + length k + 3) (length (int_str n))"
proof -
  have "capturing (CHR ''$'' # CHR ''.'' # k) (Suc 0) (Suc (Suc (length k)))"
    by (simp add: capturing_def cat_def)
  then show ?thesis
    using assms by (simp add: scan_key_hit scan_int_value no_number_tail_def isdigit_def)
qed

lemmas call_members =
  type_call [simplified]
  bool_member [of "''ok''", simplified]
  scan_int_member [of "''code''", simplified]
  scan_string_member [of "''id''", simplified]
  scan_string_member [of "''error''", simplified]
  scan_last_int_member [of "''timestamp''", simplified]
  scan_string_hit [of "''id''", simplified]
  scan_string_hit [of "''error''", simplified]
  scan_int_hit [of "''code''", simplified]

lemma error_scan:
  assumes "quotable e" "quotable m"
  shows "mg_json_get (error_text e code m t) ''$.id'' = Found 20 (length e + 2)"
    and "mg_json_get (error_text e code m t) ''$.code'' = Found (length e + 41) (length (int_str code))"
    and "mg_json_get (error_text e code m t) ''$.error''
         = Found (length e + length (int_str code) + 50) (length m + 2)"
    and "mg_json_get (error_text e code m t) ''$'' = Found 0 (length (error_text e code m t))"
  using assms plain_request_keys plain_keys
  by (simp_all add: walk_simps error_text_def call_members)

lemma length_code: "- (2 ^ 31) \<le> code \<Longrightarrow> code < 2 ^ 31 \<Longrightarrow> length (int_str code) \<le> 11"
  using length_nat_str [of "nat code" 10] length_nat_str [of "nat (- code)" 10]
  by (fastforce simp: int_str_def)

lemma error_fits:
  assumes "- (2 ^ 31) \<le> code" "code < 2 ^ 31" "0 \<le> t" "t \<le> LONG_MAX"
  shows "ws_call_build_error (\<lambda>_. True) i code m t =
     (0, \<lparr>rs_json = Some (error_text (escape_full (or_empty i)) code (escape_full (or_empty m)) t), rs_code = code\<rparr>)"
  using length_code [OF assms(1,2)] length_int_str_time [OF assms(3,4)]
  by (simp add: ws_call_build_error_def snprintf_buf_def error_text_def)

lemma nulfree_or_empty: "(\<And>x. i = Some x \<Longrightarrow> nulfree x) \<Longrightarrow> nulfree (or_empty i)"
  by (simp add: or_empty_def split: option.splits)

text \<open>C33: An error response is a complete JSON object that no buffer cuts off, for every code that an
  \<open>int\<close> holds: its id and its message read back as they were given (less dropped control bytes) and
  its code reads back as the decimal number, so a client can match the response to its call.\<close>

theorem ws_call_error_roundtrip:
  assumes "- (2 ^ 31) \<le> code" "code < 2 ^ 31" "0 \<le> t" "t \<le> LONG_MAX"
    and "nulfree i" "nulfree m"
  shows "\<exists>tx. ws_call_build_error (\<lambda>_. True) (Some i) code (Some m) t
       = (0, \<lparr>rs_json = Some tx, rs_code = code\<rparr>)
     \<and> mg_json_get tx ''$'' = Found 0 (length tx)
     \<and> mg_json_get_str True tx ''$.id'' = Some (visible i)
     \<and> mg_json_get_str True tx ''$.error'' = Some (visible m)
     \<and> mg_json_get_tok tx ''$.code'' = Some (int_str code)"
proof -
  let ?e = "escape_full i" and ?m = "escape_full m"
  define tx where "tx = error_text ?e code ?m t"
  note sc = error_scan [OF quotable_escape_full [OF assms(5)] quotable_escape_full [OF assms(6)],
      of code t, folded tx_def]
  have "mg_json_get_str True tx ''$.id'' = Some (visible i)"
    using sc(1) assms(5)
    by (intro get_str_of_escaped [where pre = "''{\"type\":\"call\",\"id\":''"])
       (simp_all add: tx_def error_text_def)
  moreover have "mg_json_get_str True tx ''$.error'' = Some (visible m)"
    using sc(3) assms(6)
    by (intro get_str_of_escaped [where pre = "''{\"type\":\"call\",\"id\":\"'' @ ?e @ ''\",\"ok\":false,\"code\":''
         @ int_str code @ '',\"error\":''"])
       (simp_all add: tx_def error_text_def)
  moreover have "mg_json_get_tok tx ''$.code'' = Some (int_str code)"
  proof -
    define pre where "pre = ''{\"type\":\"call\",\"id\":\"'' @ ?e @ ''\",\"ok\":false,\"code\":''"
    obtain post where "tx = pre @ int_str code @ post"
      by (simp add: tx_def error_text_def pre_def)
    then have "take (length (int_str code)) (drop (length pre) tx) = int_str code" by simp
    moreover have "length ?e + 41 = length pre" by (simp add: pre_def)
    ultimately show ?thesis unfolding mg_json_get_tok_def sc(2) by simp
  qed
  moreover have "ws_call_build_error (\<lambda>_. True) (Some i) code (Some m) t
       = (0, \<lparr>rs_json = Some tx, rs_code = code\<rparr>)"
    using error_fits [OF assms(1-4), of "Some i" "Some m"] by (simp add: tx_def or_empty_def)
  ultimately show ?thesis using sc(4) by blast
qed

theorem ws_call_error_roundtrip_witness:
  "\<exists>tx. ws_call_build_error (\<lambda>_. True) (Some ''7'') (-6) (Some ''worker busy'') 1760000000
       = (0, \<lparr>rs_json = Some tx, rs_code = -6\<rparr>)
     \<and> mg_json_get_str True tx ''$.id'' = Some ''7''"
  using ws_call_error_roundtrip [of "-6" 1760000000 "''7''" "''worker busy''"]
  by (auto simp: LONG_MAX_def escape_digit)

text \<open>The reply to a call that succeeded; its result is the plugin's own text.\<close>

definition result_of :: "string option \<Rightarrow> string" where
  "result_of r = (case r of Some x \<Rightarrow> if x \<noteq> [] then x else ''null'' | None \<Rightarrow> ''null'')"

lemma ok_fits:
  assumes "0 \<le> t" "t \<le> LONG_MAX"
  shows "ws_call_build_ok (\<lambda>_. True) i l s ms r t =
     (0, \<lparr>rs_json = Some (ok_text (escape_full (or_empty i)) (escape_full (or_empty l))
        (escape_full (or_empty s)) (unat ms) (result_of r) t), rs_code = WS_CALL_OK\<rparr>)"
proof -
  have "unat ms < 10 ^ 20" using unsigned_less [of ms, where ?'a = nat] by simp
  then have "length (nat_str (unat ms)) \<le> 20" by (rule length_nat_str) simp
  then show ?thesis
    using length_int_str_time [OF assms]
    by (cases r) (simp_all add: ws_call_build_ok_def snprintf_buf_def ok_text_def result_of_def)
qed

lemma ok_scan:
  assumes "quotable e"
  shows "mg_json_get (ok_text e l s ms r t) ''$.id'' = Found 20 (length e + 2)"
  using assms plain_request_keys plain_keys by (simp add: walk_simps ok_text_def call_members)

text \<open>The reply to a call that succeeded fits its buffer whatever the sizes of its parts, the
  64-bit time it took and the time of day; it names the call by the id the client gave, and an
  empty or missing result is sent as \<open>null\<close>.\<close>

theorem ws_call_ok_reply:
  assumes "0 \<le> t" "t \<le> LONG_MAX" "nulfree i"
  shows "\<exists>tx. ws_call_build_ok (\<lambda>_. True) (Some i) l s ms r t
       = (0, \<lparr>rs_json = Some tx, rs_code = WS_CALL_OK\<rparr>)
     \<and> mg_json_get_str True tx ''$.id'' = Some (visible i)
     \<and> tx = ok_text (escape_full i) (escape_full (or_empty l)) (escape_full (or_empty s)) (unat ms)
              (if r = None \<or> r = Some [] then ''null'' else the r) t"
proof -
  let ?tx = "ok_text (escape_full i) (escape_full (or_empty l)) (escape_full (or_empty s)) (unat ms) (result_of r) t"
  have "mg_json_get_str True ?tx ''$.id'' = Some (visible i)"
    using ok_scan [OF quotable_escape_full [OF assms(3)]] assms(3)
    by (intro get_str_of_escaped [where pre = "''{\"type\":\"call\",\"id\":''"])
       (simp_all add: ok_text_def)
  then show ?thesis
    using ok_fits [OF assms(1,2), of "Some i" l s ms r]
    by (auto simp: or_empty_def result_of_def split: option.splits)
qed

theorem ws_call_ok_reply_witness:
  "\<exists>tx. ws_call_build_ok (\<lambda>_. True) (Some ''7'') (Some ''cdrimex'') (Some ''get'') (- 1) None 0
       = (0, \<lparr>rs_json = Some tx, rs_code = WS_CALL_OK\<rparr>)
     \<and> mg_json_get_str True tx ''$.id'' = Some ''7''"
  using ws_call_ok_reply [of 0 "''7''" "Some ''cdrimex''" "Some ''get''" "-1" None]
  by (auto simp: LONG_MAX_def escape_digit)

text \<open>A command that was accepted has a non-empty name and came from a payload of at most 1 MiB;
  a refused one leaves nothing allocated and gives the reason.\<close>

theorem ws_command_parse_cases:
  "case ws_command_parse a1 a2 a3 a4 payload n of (rc, c, err) \<Rightarrow>
     (rc = 0 \<and> err = [] \<and> (\<exists>json cmd. payload = Some json \<and> length json \<le> 1048576
         \<and> wc_cmd c = Some cmd \<and> cmd \<noteq> [] \<and> mg_json_get_str a1 json ''$.cmd'' = Some cmd))
   \<or> (rc = -1 \<and> c = no_command
      \<and> err \<in> {snprintf_buf n ''invalid payload size'', snprintf_buf n ''missing cmd''})"
  by (auto simp: ws_command_parse_def WS_COMMAND_MAX_PAYLOAD_def split: option.splits)

end
