(* ===== verification/LinkedQueue.thy ===== *)
theory LinkedQueue
  imports Interfaces
begin

text \<open>
  The singly-linked queues of src/ws_worker.c (\<open>g_head\<close>/\<open>g_tail\<close> for jobs, \<open>g_done_head\<close>/\<open>g_done_tail\<close>
  for finished calls) at the level of their pointers: cells with a \<open>next\<close> field, a head and a
  tail pointer, the tail being kept by hand. A cell that was taken out belongs to whoever took it
  and is no longer one of the queue's. The refinement: the pointers implement a list, oldest first,
  which is the interface \<open>fifo\<close>.
\<close>

record 'x lqueue =
  lq_head :: "nat option"
  lq_tail :: "nat option"
  lq_cells :: "(nat \<times> 'x \<times> nat option) list"

definition lq_empty :: "'x lqueue" where
  "lq_empty = \<lparr>lq_head = None, lq_tail = None, lq_cells = []\<rparr>"

definition set_next :: "nat \<Rightarrow> nat option \<Rightarrow> (nat \<times> 'x \<times> nat option) list \<Rightarrow> (nat \<times> 'x \<times> nat option) list" where
  "set_next t n cs = map (\<lambda>(a, x, m). (a, x, if a = t then n else m)) cs"

text \<open>Append the new cell a: \<open>if (tail) tail->next = a; else head = a; tail = a;\<close>\<close>

definition lq_push :: "nat \<Rightarrow> 'x \<Rightarrow> 'x lqueue \<Rightarrow> 'x lqueue" where
  "lq_push a x q =
     (let cs = (a, x, None) # lq_cells q in
      case lq_tail q of
        Some t \<Rightarrow> q\<lparr>lq_cells := set_next t (Some a) cs, lq_tail := Some a\<rparr>
      | None \<Rightarrow> q\<lparr>lq_cells := cs, lq_head := Some a, lq_tail := Some a\<rparr>)"

text \<open>Take the first: \<open>head = job->next; if (!head) tail = NULL;\<close>\<close>

definition lq_pop :: "'x lqueue \<Rightarrow> ('x \<times> 'x lqueue) option" where
  "lq_pop q =
     (case lq_head q of
        None \<Rightarrow> None
      | Some h \<Rightarrow>
          (case map_of (lq_cells q) h of
             None \<Rightarrow> None
           | Some (x, n) \<Rightarrow>
               Some (x, q\<lparr>lq_head := n, lq_tail := (if n = None then None else lq_tail q),
                          lq_cells := filter (\<lambda>c. fst c \<noteq> h) (lq_cells q)\<rparr>)))"

text \<open>Follow the \<open>next\<close> pointers of a detached queue, freeing each cell.\<close>

lemma map_of_shrinks: "map_of cs h = Some v \<Longrightarrow> length (filter (\<lambda>c. fst c \<noteq> h) cs) < length cs"
proof -
  assume "map_of cs h = Some v"
  then have "(h, v) \<in> set cs" by (rule map_of_SomeD)
  then show ?thesis by (rule length_filter_less) simp
qed

function lq_walk :: "nat option \<Rightarrow> (nat \<times> 'x \<times> nat option) list \<Rightarrow> 'x list" where
  "lq_walk h cs =
     (case h of
        None \<Rightarrow> []
      | Some a \<Rightarrow>
          (case map_of cs a of
             None \<Rightarrow> []
           | Some (x, n) \<Rightarrow> x # lq_walk n (filter (\<lambda>c. fst c \<noteq> a) cs)))"
  by pat_completeness auto
termination
  by (relation "measure (\<lambda>(h, cs). length cs)") (auto dest: map_of_shrinks)

declare lq_walk.simps [simp del]

definition lq_take_all :: "'x lqueue \<Rightarrow> 'x list" where
  "lq_take_all q = lq_walk (lq_head q) (lq_cells q)"

section \<open>The list a queue stands for\<close>

fun chain :: "(nat \<times> 'x \<times> nat option) list \<Rightarrow> nat option \<Rightarrow> nat list \<Rightarrow> 'x list \<Rightarrow> bool" where
  "chain cs h [] [] \<longleftrightarrow> h = None"
| "chain cs h (a # as) (x # xs) \<longleftrightarrow> h = Some a \<and> (\<exists>n. map_of cs a = Some (x, n) \<and> chain cs n as xs)"
| "chain cs h as xs \<longleftrightarrow> False"

definition lq_rep :: "'x lqueue \<Rightarrow> 'x list \<Rightarrow> bool" where
  "lq_rep q xs \<longleftrightarrow> (\<exists>as. distinct as \<and> chain (lq_cells q) (lq_head q) as xs
     \<and> lq_tail q = (if as = [] then None else Some (last as)))"

definition lq_free :: "'x lqueue \<Rightarrow> nat \<Rightarrow> bool" where
  "lq_free q a \<longleftrightarrow> a \<notin> fst ` set (lq_cells q)"

lemma chain_length: "chain cs h as xs \<Longrightarrow> length as = length xs"
  by (induction cs h as xs rule: chain.induct) auto

lemma chain_cells: "chain cs h as xs \<Longrightarrow> set as \<subseteq> fst ` set cs"
proof (induction cs h as xs rule: chain.induct)
  case (2 cs h a as x xs)
  then obtain n where "map_of cs a = Some (x, n)" "chain cs n as xs" by auto
  with 2(1) show ?case by (auto dest: map_of_SomeD intro: rev_image_eqI)
qed auto

text \<open>Cells that are not on the way do not matter.\<close>

lemma chain_cong:
  assumes "chain cs h as xs" "\<And>a. a \<in> set as \<Longrightarrow> map_of cs' a = map_of cs a"
  shows "chain cs' h as xs"
  using assms by (induction cs h as xs rule: chain.induct) auto

lemma map_of_filter: "a \<noteq> b \<Longrightarrow> map_of (filter (\<lambda>c. fst c \<noteq> b) cs) a = map_of cs a"
  by (induction cs) auto

lemma chain_without:
  assumes "chain cs h as xs" "b \<notin> set as"
  shows "chain (filter (\<lambda>c. fst c \<noteq> b) cs) h as xs"
  using assms(1)
proof (rule chain_cong)
  fix a assume "a \<in> set as"
  with assms(2) have "a \<noteq> b" by blast
  then show "map_of (filter (\<lambda>c. fst c \<noteq> b) cs) a = map_of cs a" by (rule map_of_filter)
qed

lemma map_of_set_next:
  "map_of (set_next t n cs) a = map_option (\<lambda>(x, m). (x, if a = t then n else m)) (map_of cs a)"
  by (induction cs) (auto simp: set_next_def)

lemma chain_snoc:
  assumes "chain cs h as xs" "as \<noteq> []" "distinct as" "a \<notin> set as" "a \<notin> fst ` set cs"
  shows "chain (set_next (last as) (Some a) ((a, x, None) # cs)) h (as @ [a]) (xs @ [x])"
  using assms
proof (induction cs h as xs rule: chain.induct)
  case (2 cs h b bs y ys)
  from 2(2) obtain n where n: "h = Some b" "map_of cs b = Some (y, n)" "chain cs n bs ys" by auto
  show ?case
  proof (cases bs)
    case Nil
    with n(3) have "n = None" "ys = []" by (cases ys; auto)+
    with n 2 Nil show ?thesis by (auto simp: map_of_set_next)
  next
    case (Cons c ds)
    then have l: "last (b # bs) = last bs" "bs \<noteq> []" by simp_all
    have "b \<noteq> last bs" using 2(4) Cons by (metis distinct.simps(2) last_in_set list.distinct(1))
    moreover have "chain (set_next (last bs) (Some a) ((a, x, None) # cs)) n (bs @ [a]) (ys @ [x])"
      using 2 n l by auto
    ultimately show ?thesis using n 2 l by (auto simp: map_of_set_next)
  qed
qed auto

lemma lq_push_rep:
  assumes "lq_rep q xs" "lq_free q a"
  shows "lq_rep (lq_push a x q) (xs @ [x])"
proof -
  obtain as where as: "distinct as" "chain (lq_cells q) (lq_head q) as xs"
    "lq_tail q = (if as = [] then None else Some (last as))"
    using assms(1) by (auto simp: lq_rep_def)
  have a: "a \<notin> fst ` set (lq_cells q)" "a \<notin> set as"
    using assms(2) chain_cells [OF as(2)] by (auto simp: lq_free_def)
  show ?thesis
  proof (cases "as = []")
    case True
    with as have "xs = []" using chain_length [OF as(2)] by simp
    with True as show ?thesis
      unfolding lq_rep_def by (intro exI [of _ "[a]"]) (simp add: lq_push_def Let_def)
  next
    case False
    have "chain (set_next (last as) (Some a) ((a, x, None) # lq_cells q)) (lq_head q) (as @ [a]) (xs @ [x])"
      using as a False by (intro chain_snoc)
    with False as a show ?thesis
      unfolding lq_rep_def by (intro exI [of _ "as @ [a]"]) (simp add: lq_push_def Let_def)
  qed
qed

lemma lq_pop_Nil: "lq_rep q [] \<Longrightarrow> lq_pop q = None"
proof -
  assume "lq_rep q []"
  then obtain as where "chain (lq_cells q) (lq_head q) as []" by (auto simp: lq_rep_def)
  then have "lq_head q = None" by (cases as) auto
  then show ?thesis by (simp add: lq_pop_def)
qed

lemma lq_pop_Cons:
  assumes "lq_rep q (x # xs)"
  shows "\<exists>q'. lq_pop q = Some (x, q') \<and> lq_rep q' xs"
proof -
  obtain as where as: "distinct as" "chain (lq_cells q) (lq_head q) as (x # xs)"
    "lq_tail q = (if as = [] then None else Some (last as))"
    using assms by (auto simp: lq_rep_def)
  then obtain a bs n where a: "as = a # bs" "lq_head q = Some a" "map_of (lq_cells q) a = Some (x, n)"
    "chain (lq_cells q) n bs xs" by (cases as) auto
  let ?cs = "filter (\<lambda>c. fst c \<noteq> a) (lq_cells q)"
  let ?q = "q\<lparr>lq_head := n, lq_tail := (if n = None then None else lq_tail q), lq_cells := ?cs\<rparr>"
  have "chain ?cs n bs xs" using a(4) as(1) a(1) by (intro chain_without) auto
  moreover have "(n = None) = (bs = [])" using a(4) by (cases bs; cases xs) auto
  ultimately have "lq_rep ?q xs"
    unfolding lq_rep_def using as a by (intro exI [of _ bs]) auto
  with a show ?thesis by (auto simp: lq_pop_def)
qed

interpretation lqf: fifo lq_rep lq_free lq_push lq_pop
  by unfold_locales (rule lq_push_rep lq_pop_Nil lq_pop_Cons; assumption)+

lemma lq_empty_rep [simp]: "lq_rep lq_empty []"
  unfolding lq_rep_def by (intro exI [of _ "[]"]) (simp add: lq_empty_def)

lemma lq_walk_chain: "chain cs h as xs \<Longrightarrow> distinct as \<Longrightarrow> lq_walk h cs = xs"
proof (induction xs arbitrary: cs h as)
  case Nil
  then show ?case by (cases as) (auto simp: lq_walk.simps)
next
  case (Cons x xs)
  then obtain a bs n where a: "as = a # bs" "h = Some a" "map_of cs a = Some (x, n)" "chain cs n bs xs"
    by (cases as) auto
  have "chain (filter (\<lambda>c. fst c \<noteq> a) cs) n bs xs"
    using a(4) Cons.prems(2) a(1) by (intro chain_without) auto
  with Cons.IH Cons.prems a show ?case by (subst lq_walk.simps) simp
qed

lemma lq_take_all_rep: "lq_rep q xs \<Longrightarrow> lq_take_all q = xs"
  by (auto simp: lq_rep_def lq_take_all_def lq_walk_chain)

text \<open>C27: The hand-written linked queues of the worker are first in, first out: appending a fresh cell
  adds at the end of the list the queue stands for, taking one gives the oldest element and leaves
  the rest, an empty queue gives none, and following the pointers of a whole queue gives its
  elements once each, in order; the tail pointer is never left dangling.\<close>

theorem linked_queue_is_fifo:
  assumes "lq_rep q xs" "lq_free q a"
  shows "lq_rep (lq_push a x q) (xs @ [x])
     \<and> lq_take_all (lq_push a x q) = xs @ [x]
     \<and> (case lq_pop q of None \<Rightarrow> xs = [] | Some (y, q') \<Rightarrow> \<exists>ys. xs = y # ys \<and> lq_rep q' ys)
     \<and> (lq_tail q = None \<longleftrightarrow> lq_head q = None)"
proof -
  have p: "lq_rep (lq_push a x q) (xs @ [x])" using assms by (rule lqf.rep_enq)
  obtain as where "chain (lq_cells q) (lq_head q) as xs"
    "lq_tail q = (if as = [] then None else Some (last as))"
    using assms(1) by (auto simp: lq_rep_def)
  then have "lq_tail q = None \<longleftrightarrow> lq_head q = None" by (cases as; cases xs) auto
  with p show ?thesis using lqf.deq_rep [OF assms(1)] lq_take_all_rep [OF p] by simp
qed

theorem linked_queue_is_fifo_witness:
  "lq_take_all (lq_push 8 ''second'' (lq_push 4 ''first'' lq_empty)) = [''first'', ''second'']"
proof -
  have e: "lq_rep lq_empty []" by simp
  have f: "lq_free lq_empty 4" by (simp add: lq_free_def lq_empty_def)
  have r: "lq_rep (lq_push 4 ''first'' lq_empty) [''first'']" using lqf.rep_enq [OF e f] by simp
  have g: "lq_free (lq_push 4 ''first'' lq_empty) 8" by (simp add: lq_free_def lq_push_def lq_empty_def)
  show ?thesis using linked_queue_is_fifo [OF r g] by simp
qed

end
