(* ===== verification/WsWorker.thy ===== *)
theory WsWorker
  imports Realtime WsCall LinkedQueue
begin

text \<open>
  src/ws_worker.c: the background worker that runs WebSocket calls. The main thread puts jobs into a
  queue and collects the finished replies; up to two threads take jobs, call the plugin and append
  the reply to the second queue. Where a thread is in \<open>worker_loop\<close> is part of the state
  (\<open>wk_pcs\<close>); one step of a thread is one critical section of \<open>g_mutex\<close>, the wait for a connection
  lock, or the code between two of them, so every interleaving that the locks allow is a sequence of
  steps. Both queues are the linked queues of \<open>LinkedQueue\<close>, at the addresses that \<open>calloc\<close> gave
  (\<open>wk_fresh\<close> is the next one).
\<close>

definition WS_WORKER_MAX_QUEUE :: int where "WS_WORKER_MAX_QUEUE = 64"
definition WS_WORKER_MAX_PER_CONN :: int where "WS_WORKER_MAX_PER_CONN = 16"
definition WS_WORKER_THREADS :: nat where "WS_WORKER_THREADS = 2"
definition WS_CONN_LOCKS :: nat where "WS_CONN_LOCKS = 16"

record ws_job =
  wj_conn_id :: u64
  wj_id :: string
  wj_lib :: string
  wj_symbol :: string
  wj_args :: string
  wj_timeout_ms :: int
  wj_submit_ms :: u64

record ws_worker_stats_t =
  st_total :: u64
  st_ok :: u64
  st_failed :: u64
  st_timeouts :: u64
  st_busy :: u64
  st_total_us :: u64
  st_max_us :: u64

definition no_stats :: ws_worker_stats_t where
  "no_stats = \<lparr>st_total = 0, st_ok = 0, st_failed = 0, st_timeouts = 0, st_busy = 0, st_total_us = 0,
     st_max_us = 0\<rparr>"

text \<open>The executor \<open>g_exec\<close>: the plugin caller, or a function that was injected.\<close>

datatype exec_fn = Exec_libffi | Exec_injected "string \<Rightarrow> string \<Rightarrow> string \<Rightarrow> int \<times> string option"

text \<open>
  A thread at the top of the loop; with the job it took; waiting for the connection's lock; in the
  plugin call, holding that lock; with the result of the call; with the reply delivered; about to
  release the job's place; ended.
\<close>

datatype wk_pc =
    Idle
  | Taken ws_job
  | Locking ws_job u64 string
  | Calling ws_job u64 string
  | Called ws_job u64 int bool "string option"
  | Replied ws_job int u64 bool
  | Finishing ws_job
  | Exited

record wk_world = rt_world +
  wk_jobs :: "ws_job lqueue"
  wk_done :: "(u64 \<times> string) lqueue"
  wk_queue_len :: int
  wk_running :: bool
  wk_inited :: bool
  wk_thread_count :: nat
  wk_exec :: "exec_fn option"
  wk_stats :: ws_worker_stats_t
  wk_pending :: "int list"
  wk_pcs :: "wk_pc list"
  wk_fresh :: nat

definition conn_slot :: "u64 \<Rightarrow> nat" where
  "conn_slot conn_id = unat conn_id mod WS_CONN_LOCKS"

definition set_pc :: "nat \<Rightarrow> wk_pc \<Rightarrow> 'a wk_world_scheme \<Rightarrow> 'a wk_world_scheme" where
  "set_pc t pc w = w\<lparr>wk_pcs := (wk_pcs w)[t := pc]\<rparr>"

section \<open>The main thread\<close>

text \<open>The loop of \<open>ws_worker_init\<close> over the threads still to create; it ends at the first failure.\<close>

fun create_threads :: "'d env \<Rightarrow> nat \<Rightarrow> 'a wk_world_scheme \<Rightarrow> 'a wk_world_scheme" where
  "create_threads E 0 w = w"
| "create_threads E (Suc n) w =
     (case ask (env_pthread E) w of (ok, w1) \<Rightarrow>
        if \<not> ok then w1
        else create_threads E n
               (w1\<lparr>wk_thread_count := wk_thread_count w1 + 1, wk_pcs := wk_pcs w1 @ [Idle]\<rparr>))"

definition ws_worker_init :: "'d env \<Rightarrow> 'a wk_world_scheme \<Rightarrow> int \<times> 'a wk_world_scheme" where
  "ws_worker_init E w =
     (if wk_inited w then (0, w)
      else
        (let w1 = create_threads E WS_WORKER_THREADS
               (w\<lparr>wk_running := True, wk_inited := True, wk_stats := no_stats\<rparr>)
         in if wk_thread_count w1 = 0 then (-1, w1\<lparr>wk_running := False, wk_inited := False\<rparr>)
            else (0, w1)))"

definition ws_worker_set_exec :: "exec_fn option \<Rightarrow> 'a wk_world_scheme \<Rightarrow> 'a wk_world_scheme" where
  "ws_worker_set_exec fn w = w\<lparr>wk_exec := fn\<rparr>"

text \<open>The job, its four copies and the time of its submission; a copy that failed leaves no job.\<close>

definition new_job ::
  "'d env \<Rightarrow> u64 \<Rightarrow> string \<Rightarrow> string \<Rightarrow> string \<Rightarrow> string option \<Rightarrow> int \<Rightarrow> 'a wk_world_scheme
     \<Rightarrow> ws_job option \<times> 'a wk_world_scheme" where
  "new_job E conn_id rid lib symbol args timeout_ms w =
     (case ask (env_malloc E) w of (got, w1) \<Rightarrow>
        if \<not> got then (None, w1)
        else (case ask2 (env_malloc E) w1 of (a1, a2, w2) \<Rightarrow>
          (case ask2 (env_malloc E) w2 of (a3, a4, w3) \<Rightarrow>
            (case ask (env_monotonic E) w3 of (now, w4) \<Rightarrow>
              (if a1 \<and> a2 \<and> a3 \<and> a4
               then Some \<lparr>wj_conn_id = conn_id, wj_id = rid, wj_lib = lib, wj_symbol = symbol,
                      wj_args = (case args of Some a \<Rightarrow> a | None \<Rightarrow> ''{}''), wj_timeout_ms = timeout_ms,
                      wj_submit_ms = now\<rparr>
               else None, w4)))))"

text \<open>The critical section of \<open>ws_worker_submit\<close>.\<close>

definition enqueue_job :: "ws_job \<Rightarrow> 'a wk_world_scheme \<Rightarrow> int \<times> 'a wk_world_scheme" where
  "enqueue_job job w =
     (let slot = conn_slot (wj_conn_id job)
      in if WS_WORKER_MAX_QUEUE \<le> wk_queue_len w \<or> WS_WORKER_MAX_PER_CONN \<le> wk_pending w ! slot
         then (-1, w\<lparr>wk_stats := (wk_stats w)\<lparr>st_busy := st_busy (wk_stats w) + 1\<rparr>\<rparr>)
         else (0, w\<lparr>wk_jobs := lq_push (wk_fresh w) job (wk_jobs w), wk_fresh := Suc (wk_fresh w),
                wk_queue_len := wk_queue_len w + 1,
                wk_pending := (wk_pending w)[slot := wk_pending w ! slot + 1],
                wk_stats := (wk_stats w)\<lparr>st_total := st_total (wk_stats w) + 1\<rparr>\<rparr>))"

definition ws_worker_submit ::
  "'d env \<Rightarrow> u64 \<Rightarrow> string option \<Rightarrow> string option \<Rightarrow> string option \<Rightarrow> string option \<Rightarrow> int
     \<Rightarrow> 'a wk_world_scheme \<Rightarrow> int \<times> 'a wk_world_scheme" where
  "ws_worker_submit E conn_id rid lib symbol args timeout_ms w =
     (case (rid, lib, symbol) of
        (Some i, Some l, Some s) \<Rightarrow>
          (case ws_worker_init E w of (rc, w1) \<Rightarrow>
             if rc \<noteq> 0 then (-1, w1)
             else (case new_job E conn_id i l s args timeout_ms w1 of
                     (None, w2) \<Rightarrow> (-1, w2)
                   | (Some job, w2) \<Rightarrow> enqueue_job job w2))
      | _ \<Rightarrow> (-1, w))"

text \<open>The queue of finished calls is detached and each is handed to the callback.\<close>

definition ws_worker_drain ::
  "(u64 \<Rightarrow> string \<Rightarrow> 'a wk_world_scheme \<Rightarrow> 'a wk_world_scheme) option \<Rightarrow> 'a wk_world_scheme
     \<Rightarrow> int \<times> 'a wk_world_scheme" where
  "ws_worker_drain cb w =
     (case cb of
        None \<Rightarrow> (0, w)
      | Some f \<Rightarrow>
          (let ds = lq_take_all (wk_done w)
           in (int (length ds), fold (\<lambda>(c, json) v. f c json v) ds (w\<lparr>wk_done := lq_empty\<rparr>))))"

definition ws_worker_stats :: "'a wk_world_scheme \<Rightarrow> ws_worker_stats_t" where
  "ws_worker_stats w = wk_stats w"

text \<open>
  \<open>ws_worker_shutdown\<close> up to \<open>pthread_join\<close>, and what it does once every thread has ended; \<open>None\<close>
  while it waits.
\<close>

definition shutdown_begin :: "'a wk_world_scheme \<Rightarrow> 'a wk_world_scheme" where
  "shutdown_begin w = (if wk_inited w then w\<lparr>wk_running := False\<rparr> else w)"

definition shutdown_end :: "'a wk_world_scheme \<Rightarrow> 'a wk_world_scheme option" where
  "shutdown_end w =
     (if list_all (\<lambda>pc. pc = Exited) (wk_pcs w)
      then Some (w\<lparr>wk_thread_count := 0, wk_pcs := [], wk_jobs := lq_empty, wk_queue_len := 0,
             wk_pending := replicate WS_CONN_LOCKS 0, wk_done := lq_empty, wk_inited := False\<rparr>)
      else None)"

section \<open>A worker thread\<close>

text \<open>The first critical section: \<open>None\<close> while there is nothing to do and the worker runs.\<close>

definition worker_take :: "nat \<Rightarrow> 'a wk_world_scheme \<Rightarrow> 'a wk_world_scheme option" where
  "worker_take t w =
     (case lq_pop (wk_jobs w) of
        Some (job, q) \<Rightarrow>
          Some (set_pc t (Taken job) (w\<lparr>wk_jobs := q, wk_queue_len := wk_queue_len w - 1\<rparr>))
      | None \<Rightarrow> if wk_running w then None else Some (set_pc t Exited w))"

definition waited_ms :: "u64 \<Rightarrow> ws_job \<Rightarrow> int" where
  "waited_ms start job = sint (start - wj_submit_ms job)"

text \<open>Timed out in the queue, or the library's path; the search never leaves the buffer unwritten for
  a name that is not empty.\<close>

definition worker_start :: "'d env \<Rightarrow> nat \<Rightarrow> ws_job \<Rightarrow> 'a wk_world_scheme \<Rightarrow> 'a wk_world_scheme" where
  "worker_start E t job w =
     (case ask (env_monotonic E) w of (start, w1) \<Rightarrow>
        if 0 < wj_timeout_ms job \<and> wj_timeout_ms job < waited_ms start job
        then set_pc t (Called job start (-7) True None) w1
        else (case ask (env_fs E) w1 of (f, w2) \<Rightarrow>
          (case plugin_resolve_path (env_platform E) f (Some (wj_lib job)) (Some 512) of (_, path) \<Rightarrow>
            set_pc t (Locking job start (or_empty path)) w2)))"

definition slot_held :: "nat \<Rightarrow> wk_pc list \<Rightarrow> bool" where
  "slot_held slot pcs \<longleftrightarrow>
     list_ex (\<lambda>pc. case pc of Calling job _ _ \<Rightarrow> conn_slot (wj_conn_id job) = slot | _ \<Rightarrow> False) pcs"

definition worker_lock :: "nat \<Rightarrow> ws_job \<Rightarrow> u64 \<Rightarrow> string \<Rightarrow> 'a wk_world_scheme \<Rightarrow> 'a wk_world_scheme option" where
  "worker_lock t job start path w =
     (if slot_held (conn_slot (wj_conn_id job)) (wk_pcs w) then None
      else Some (set_pc t (Calling job start path) w))"

definition run_exec :: "'d env \<Rightarrow> string \<Rightarrow> ws_job \<Rightarrow> 'a wk_world_scheme
     \<Rightarrow> (int \<times> string option) \<times> 'a wk_world_scheme" where
  "run_exec E path job w =
     (case wk_exec w of
        None \<Rightarrow> ((-1, None), w)
      | Some Exec_libffi \<Rightarrow>
          call_local_dyn_libffi E (Some path) (Some (wj_symbol job)) (Some (wj_args job)) w
      | Some (Exec_injected f) \<Rightarrow> (f path (wj_symbol job) (wj_args job), w))"

definition worker_call :: "'d env \<Rightarrow> nat \<Rightarrow> ws_job \<Rightarrow> u64 \<Rightarrow> string \<Rightarrow> 'a wk_world_scheme \<Rightarrow> 'a wk_world_scheme" where
  "worker_call E t job start path w =
     (case run_exec E path job w of ((rc, out), w1) \<Rightarrow> set_pc t (Called job start rc False out) w1)"

definition failure_text :: "bool \<Rightarrow> int \<Rightarrow> string" where
  "failure_text timed_out rc =
     snprintf_buf 128 (if timed_out then ''call timed out in queue'' else ''ffi rc='' @ int_str rc)"

text \<open>The reply: up to four allocations and the time of day.\<close>

definition build_reply ::
  "'d env \<Rightarrow> ws_job \<Rightarrow> int \<Rightarrow> int \<Rightarrow> bool \<Rightarrow> u64 \<Rightarrow> string option \<Rightarrow> 'a wk_world_scheme
     \<Rightarrow> string option \<times> 'a wk_world_scheme" where
  "build_reply E job mapped rc timed_out elapsed out w =
     (let alloc = (\<lambda>k. env_malloc E (w_tick w + k)); now = env_time E (w_tick w + 5);
          resp = (if mapped = WS_CALL_OK
            then ws_call_build_ok alloc (Some (wj_id job)) (Some (wj_lib job)) (Some (wj_symbol job)) elapsed out now
            else ws_call_build_error alloc (Some (wj_id job)) mapped (Some (failure_text timed_out rc)) now)
      in (rs_json (snd resp), w\<lparr>w_tick := w_tick w + 6\<rparr>))"

definition push_done :: "'d env \<Rightarrow> u64 \<Rightarrow> string \<Rightarrow> 'a wk_world_scheme \<Rightarrow> 'a wk_world_scheme" where
  "push_done E conn_id json w =
     (case ask (env_malloc E) w of (got, w1) \<Rightarrow>
        if \<not> got then w1
        else w1\<lparr>wk_done := lq_push (wk_fresh w1) (conn_id, json) (wk_done w1), wk_fresh := Suc (wk_fresh w1)\<rparr>)"

definition worker_reply ::
  "'d env \<Rightarrow> nat \<Rightarrow> ws_job \<Rightarrow> u64 \<Rightarrow> int \<Rightarrow> bool \<Rightarrow> string option \<Rightarrow> 'a wk_world_scheme \<Rightarrow> 'a wk_world_scheme" where
  "worker_reply E t job start rc timed_out out w =
     (case ask (env_monotonic E) w of (now, w1) \<Rightarrow>
        (let elapsed = now - start; mapped = (if timed_out then -7 else ws_call_map_rc rc)
         in case build_reply E job mapped rc timed_out elapsed out w1 of
              (None, w2) \<Rightarrow> set_pc t (Finishing job) w2
            | (Some json, w2) \<Rightarrow>
                set_pc t (Replied job mapped elapsed timed_out) (push_done E (wj_conn_id job) json w2)))"

definition record_result :: "int \<Rightarrow> u64 \<Rightarrow> bool \<Rightarrow> 'a wk_world_scheme \<Rightarrow> 'a wk_world_scheme" where
  "record_result mapped elapsed timed_out w =
     (let s = wk_stats w;
          s1 = (if mapped = WS_CALL_OK then s\<lparr>st_ok := st_ok s + 1\<rparr>
                else s\<lparr>st_failed := st_failed s + 1,
                       st_timeouts := (if timed_out then st_timeouts s + 1 else st_timeouts s)\<rparr>)
      in w\<lparr>wk_stats := s1\<lparr>st_total_us := st_total_us s1 + elapsed,
                          st_max_us := (if st_max_us s1 < elapsed then elapsed else st_max_us s1)\<rparr>\<rparr>)"

definition release_slot :: "nat \<Rightarrow> 'a wk_world_scheme \<Rightarrow> 'a wk_world_scheme" where
  "release_slot slot w =
     (if 0 < wk_pending w ! slot then w\<lparr>wk_pending := (wk_pending w)[slot := wk_pending w ! slot - 1]\<rparr> else w)"

text \<open>One step of the thread t; \<open>None\<close> when it has to wait or has ended.\<close>

definition worker_step :: "'d env \<Rightarrow> nat \<Rightarrow> 'a wk_world_scheme \<Rightarrow> 'a wk_world_scheme option" where
  "worker_step E t w =
     (if t < length (wk_pcs w) then
        (case wk_pcs w ! t of
           Idle \<Rightarrow> worker_take t w
         | Taken job \<Rightarrow> Some (worker_start E t job w)
         | Locking job start path \<Rightarrow> worker_lock t job start path w
         | Calling job start path \<Rightarrow> Some (worker_call E t job start path w)
         | Called job start rc timed_out out \<Rightarrow> Some (worker_reply E t job start rc timed_out out w)
         | Replied job mapped elapsed timed_out \<Rightarrow>
             Some (set_pc t (Finishing job) (record_result mapped elapsed timed_out w))
         | Finishing job \<Rightarrow> Some (set_pc t Idle (release_slot (conn_slot (wj_conn_id job)) w))
         | Exited \<Rightarrow> None)
      else None)"

text \<open>A thread running alone for at most n steps.\<close>

fun worker_run :: "'d env \<Rightarrow> nat \<Rightarrow> nat \<Rightarrow> 'a wk_world_scheme \<Rightarrow> 'a wk_world_scheme" where
  "worker_run E t 0 w = w"
| "worker_run E t (Suc n) w = (case worker_step E t w of None \<Rightarrow> w | Some w1 \<Rightarrow> worker_run E t n w1)"

section \<open>All threads\<close>

text \<open>The worker's variables are the same: what the rest of the program may do meanwhile.\<close>

definition wk_same :: "'a wk_world_scheme \<Rightarrow> 'a wk_world_scheme \<Rightarrow> bool" where
  "wk_same w w' \<longleftrightarrow> wk_jobs w' = wk_jobs w \<and> wk_done w' = wk_done w \<and> wk_queue_len w' = wk_queue_len w
     \<and> wk_running w' = wk_running w \<and> wk_inited w' = wk_inited w \<and> wk_thread_count w' = wk_thread_count w
     \<and> wk_exec w' = wk_exec w \<and> wk_stats w' = wk_stats w \<and> wk_pending w' = wk_pending w
     \<and> wk_pcs w' = wk_pcs w \<and> wk_fresh w' = wk_fresh w"

inductive wk_step :: "'d env \<Rightarrow> 'a wk_world_scheme \<Rightarrow> 'a wk_world_scheme \<Rightarrow> bool" for E where
  thread: "worker_step E t w = Some w' \<Longrightarrow> wk_step E w w'"
| init: "ws_worker_init E w = (rc, w') \<Longrightarrow> wk_step E w w'"
| submit: "ws_worker_submit E c i l s a tmo w = (rc, w') \<Longrightarrow> wk_step E w w'"
| drain: "wk_step E w (w\<lparr>wk_done := lq_empty\<rparr>)"
| stop: "wk_step E w (shutdown_begin w)"
| join: "wk_inited w \<Longrightarrow> \<not> wk_running w \<Longrightarrow> shutdown_end w = Some w' \<Longrightarrow> wk_step E w w'"
| set_exec: "wk_step E w (ws_worker_set_exec f w)"
| elsewhere: "wk_same w w' \<Longrightarrow> wk_step E w w'"

definition wk_start :: "'a wk_world_scheme \<Rightarrow> bool" where
  "wk_start w \<longleftrightarrow> wk_jobs w = lq_empty \<and> wk_done w = lq_empty \<and> wk_queue_len w = 0 \<and> \<not> wk_inited w
     \<and> \<not> wk_running w \<and> wk_thread_count w = 0 \<and> wk_exec w = Some Exec_libffi \<and> wk_stats w = no_stats
     \<and> wk_pending w = replicate WS_CONN_LOCKS 0 \<and> wk_pcs w = []"

inductive wk_reachable :: "'d env \<Rightarrow> 'a wk_world_scheme \<Rightarrow> bool" for E where
  start: "wk_start w \<Longrightarrow> wk_reachable E w"
| step: "wk_reachable E w \<Longrightarrow> wk_step E w w' \<Longrightarrow> wk_reachable E w'"

end
