(* ===== verification/WorkerProofs.thy ===== *)
theory WorkerProofs
  imports WsWorker
begin

text \<open>
  What the worker guarantees: the invariant of its queues, counters and threads over every
  interleaving (\<open>worker_bookkeeping\<close>), the conservation of replies (\<open>calls_answered_once\<close>) and the
  service of the queue (\<open>worker_serves_queue\<close>). The lemmas go by the steps of a thread; the queues
  are used only through the interface \<open>fifo\<close>.
\<close>

section \<open>The invariant\<close>

text \<open>The job a thread has in hand, from the moment it takes it to the release of its place.\<close>

fun pc_job :: "wk_pc \<Rightarrow> ws_job option" where
  "pc_job Idle = None"
| "pc_job (Taken j) = Some j"
| "pc_job (Locking j s p) = Some j"
| "pc_job (Calling j s p) = Some j"
| "pc_job (Called j s r b ot) = Some j"
| "pc_job (Replied j m e b) = Some j"
| "pc_job (Finishing j) = Some j"
| "pc_job Exited = None"

definition job_slot :: "ws_job \<Rightarrow> nat" where
  "job_slot j = conn_slot (wj_conn_id j)"

definition works_for :: "nat \<Rightarrow> wk_pc \<Rightarrow> bool" where
  "works_for s pc \<longleftrightarrow> map_option job_slot (pc_job pc) = Some s"

fun calls_for :: "nat \<Rightarrow> wk_pc \<Rightarrow> bool" where
  "calls_for s (Calling j start path) \<longleftrightarrow> job_slot j = s"
| "calls_for s pc \<longleftrightarrow> False"

text \<open>How many jobs of a slot are queued or in hand.\<close>

definition load :: "nat \<Rightarrow> ws_job list \<Rightarrow> wk_pc list \<Rightarrow> nat" where
  "load s js pcs = length (filter (\<lambda>j. job_slot j = s) js) + length (filter (works_for s) pcs)"

definition lq_below :: "'x lqueue \<Rightarrow> nat \<Rightarrow> bool" where
  "lq_below q n \<longleftrightarrow> (\<forall>a \<ge> n. lq_free q a)"

definition wk_inv :: "'a wk_world_scheme \<Rightarrow> ws_job list \<Rightarrow> (u64 \<times> string) list \<Rightarrow> bool" where
  "wk_inv w js ds \<longleftrightarrow>
     lq_rep (wk_jobs w) js \<and> lq_rep (wk_done w) ds
   \<and> lq_below (wk_jobs w) (wk_fresh w) \<and> lq_below (wk_done w) (wk_fresh w)
   \<and> wk_queue_len w = int (length js) \<and> int (length js) \<le> WS_WORKER_MAX_QUEUE
   \<and> length (wk_pending w) = WS_CONN_LOCKS
   \<and> (\<forall>s < WS_CONN_LOCKS. wk_pending w ! s = int (load s js (wk_pcs w)) 
        \<and> int (load s js (wk_pcs w)) \<le> WS_WORKER_MAX_PER_CONN)
   \<and> length (wk_pcs w) = wk_thread_count w \<and> wk_thread_count w \<le> WS_WORKER_THREADS
   \<and> (\<not> wk_inited w \<longrightarrow> js = [] \<and> wk_pcs w = [])
   \<and> (\<forall>s. length (filter (calls_for s) (wk_pcs w)) \<le> 1)"

lemma count_update:
  "t < length xs \<Longrightarrow>
   length (filter P (xs[t := y])) + (if P (xs ! t) then 1 else 0) = length (filter P xs) + (if P y then 1 else 0)"
proof (induction xs arbitrary: t)
  case Nil
  then show ?case by simp
next
  case (Cons x xs)
  then show ?case by (cases t) auto
qed

lemma conn_slot_less [simp]: "conn_slot c < WS_CONN_LOCKS" "job_slot j < WS_CONN_LOCKS"
  by (simp_all add: conn_slot_def job_slot_def WS_CONN_LOCKS_def)

lemma slot_held_calls: "slot_held s pcs \<longleftrightarrow> filter (calls_for s) pcs \<noteq> []"
proof -
  have "(\<lambda>pc. case pc of Calling job _ _ \<Rightarrow> conn_slot (wj_conn_id job) = s | _ \<Rightarrow> False) = calls_for s"
    by (rule ext) (simp add: job_slot_def split: wk_pc.split)
  then show ?thesis by (simp add: slot_held_def list_ex_iff filter_empty_conv)
qed

lemma set_next_cells: "fst ` set (set_next t n cs) = fst ` set cs"
  by (force simp: set_next_def)

lemma lq_below_push: "lq_below q n \<Longrightarrow> lq_below (lq_push n x q) (Suc n)"
  by (simp add: lq_below_def lq_free_def lq_push_def Let_def set_next_cells split: option.splits)

lemma lq_pop_cells: "lq_pop q = Some (x, q') \<Longrightarrow> set (lq_cells q') \<subseteq> set (lq_cells q)"
  by (auto simp: lq_pop_def split: option.splits)

lemma lq_below_pop: "lq_below q n \<Longrightarrow> lq_pop q = Some (x, q') \<Longrightarrow> lq_below q' n"
  using image_mono [OF lq_pop_cells, of q x q' fst] unfolding lq_below_def lq_free_def by blast

lemma lq_below_mono: "lq_below q n \<Longrightarrow> n \<le> m \<Longrightarrow> lq_below q m"
  by (simp add: lq_below_def)

lemma lq_below_empty [simp]: "lq_below lq_empty n"
  by (simp add: lq_below_def lq_free_def lq_empty_def)

lemma wk_same_inv: "wk_same w w' \<Longrightarrow> wk_inv w' js ds \<longleftrightarrow> wk_inv w js ds"
  by (simp add: wk_same_def wk_inv_def)

lemma more_wk:
  "rt_world.more w' = rt_world.more w \<Longrightarrow> wk_same w w'"
  by (cases w; cases w') (simp add: wk_same_def)

lemma wk_same_tick [simp]: "wk_same w (w\<lparr>w_tick := n\<rparr>)"
  by (simp add: wk_same_def)

lemma wk_same_refl [simp]: "wk_same w w"
  by (simp add: wk_same_def)

lemma wk_same_call: "wk_same w (snd (call_local_dyn_libffi E p f j w))"
  by (rule more_wk) (rule dl_keeps_rt(6) [OF dl_keeps_call])

lemma wk_same_exec: "wk_same w (snd (run_exec E path job w))"
  by (auto simp: run_exec_def wk_same_call split: option.splits exec_fn.splits)

lemma inv_tick [simp]: "wk_inv (w\<lparr>w_tick := n\<rparr>) js ds \<longleftrightarrow> wk_inv w js ds"
  by (rule wk_same_inv) simp

lemma inv_stats [simp]: "wk_inv (w\<lparr>wk_stats := s\<rparr>) js ds \<longleftrightarrow> wk_inv w js ds"
  by (simp add: wk_inv_def)

text \<open>A step that keeps the job in hand; entering a call needs the slot to be free.\<close>

lemma inv_set_pc:
  assumes "wk_inv w js ds" "t < length (wk_pcs w)" "pc_job pc = pc_job (wk_pcs w ! t)"
    and "\<And>s. calls_for s pc \<Longrightarrow> \<not> slot_held s (wk_pcs w)"
  shows "wk_inv (set_pc t pc w) js ds"
proof -
  have "length (filter (works_for s) ((wk_pcs w)[t := pc])) = length (filter (works_for s) (wk_pcs w))" for s
    using count_update [OF assms(2), of "works_for s" pc] assms(3) by (simp add: works_for_def split: if_splits)
  moreover have "length (filter (calls_for s) ((wk_pcs w)[t := pc])) \<le> 1" for s
  proof -
    have "length (filter (calls_for s) (wk_pcs w)) \<le> 1" using assms(1) by (simp add: wk_inv_def)
    with count_update [OF assms(2), of "calls_for s" pc] assms(4) [of s] show ?thesis
      by (auto simp: slot_held_calls split: if_splits)
  qed
  ultimately show ?thesis using assms(1) by (simp add: wk_inv_def set_pc_def load_def)
qed

lemma inv_take:
  assumes "wk_inv w js ds" "t < length (wk_pcs w)" "wk_pcs w ! t = Idle" "worker_take t w = Some w'"
  shows "(js = [] \<and> wk_inv w' [] ds) \<or> (\<exists>j js'. js = j # js' \<and> wk_inv w' js' ds \<and> wk_pcs w' ! t = Taken j)"
proof (cases "lq_pop (wk_jobs w)")
  case None
  with assms have "js = []" "w' = set_pc t Exited w"
    using lqf.deq_rep [of "wk_jobs w" js] by (auto simp: worker_take_def wk_inv_def split: if_splits)
  with assms(1-3) show ?thesis using inv_set_pc [of w js ds t Exited] by simp
next
  case (Some r)
  then obtain j q where p: "lq_pop (wk_jobs w) = Some (j, q)" by (cases r) auto
  then obtain js' where js: "js = j # js'" "lq_rep q js'"
    using lqf.deq_rep [of "wk_jobs w" js] assms(1) by (auto simp: wk_inv_def)
  have w': "w' = set_pc t (Taken j) (w\<lparr>wk_jobs := q, wk_queue_len := wk_queue_len w - 1\<rparr>)"
    using assms(4) p by (simp add: worker_take_def)
  have "load s (j # js') (wk_pcs w) = load s js' ((wk_pcs w)[t := Taken j])" for s
    using count_update [OF assms(2), of "works_for s" "Taken j"] assms(3)
    by (simp add: load_def works_for_def)
  moreover have "length (filter (calls_for s) ((wk_pcs w)[t := Taken j])) = length (filter (calls_for s) (wk_pcs w))" for s
    using count_update [OF assms(2), of "calls_for s" "Taken j"] assms(3) by simp
  moreover have "lq_below q (wk_fresh w)" using p assms(1) lq_below_pop by (fastforce simp: wk_inv_def)
  ultimately have "wk_inv w' js' ds"
    using assms(1) js unfolding w' by (simp add: wk_inv_def set_pc_def)
  with js w' assms(2) show ?thesis by (simp add: set_pc_def)
qed

lemma wk_same_set_pc: "wk_same w w1 \<Longrightarrow> wk_same (set_pc t pc w) (set_pc t pc w1)"
  by (simp add: wk_same_def set_pc_def)

lemma inv_set_pc_same:
  assumes "wk_inv w js ds" "wk_same w w1" "t < length (wk_pcs w)" "pc_job pc = pc_job (wk_pcs w ! t)"
    and "\<And>s. \<not> calls_for s pc"
  shows "wk_inv (set_pc t pc w1) js ds"
  using inv_set_pc [OF assms(1,3,4)] assms(5) wk_same_inv [OF wk_same_set_pc [OF assms(2)]] by blast

lemma inv_start:
  assumes "wk_inv w js ds" "t < length (wk_pcs w)" "wk_pcs w ! t = Taken j"
  shows "wk_inv (worker_start E t j w) js ds"
  using assms by (auto simp: worker_start_def ask_def split: prod.splits intro!: inv_set_pc_same)

lemma inv_lock:
  assumes "wk_inv w js ds" "t < length (wk_pcs w)" "wk_pcs w ! t = Locking j st p"
    "worker_lock t j st p w = Some w'"
  shows "wk_inv w' js ds"
  using assms by (auto simp: worker_lock_def job_slot_def split: if_splits intro!: inv_set_pc)

lemma inv_call:
  assumes "wk_inv w js ds" "t < length (wk_pcs w)" "wk_pcs w ! t = Calling j st p"
  shows "wk_inv (worker_call E t j st p w) js ds"
  using assms wk_same_exec [of w E p j]
  by (auto simp: worker_call_def split: prod.splits intro!: inv_set_pc_same)

lemma inv_push_done:
  assumes "wk_inv w js ds"
  shows "\<exists>es. wk_inv (push_done E c json w) js (ds @ es) \<and> es \<in> {[], [(c, json)]}
    \<and> (env_malloc E (w_tick w) \<longrightarrow> es = [(c, json)])"
proof (cases "env_malloc E (w_tick w)")
  case False
  with assms show ?thesis by (intro exI [of _ "[]"]) (simp add: push_done_def ask_def)
next
  case True
  have "lq_rep (lq_push (wk_fresh w) (c, json) (wk_done w)) (ds @ [(c, json)])"
    using assms by (intro lqf.rep_enq) (auto simp: wk_inv_def lq_below_def)
  with assms True have "wk_inv (push_done E c json w) js (ds @ [(c, json)])"
    by (auto simp: push_done_def ask_def wk_inv_def intro: lq_below_push lq_below_mono)
  with True show ?thesis by (intro exI [of _ "[(c, json)]"]) simp
qed

lemma push_done_pcs [simp]: "wk_pcs (push_done E c json w) = wk_pcs w"
  by (simp add: push_done_def ask_def)

lemma worker_reply_cases:
  obtains (fails) n where "worker_reply E t j st rc b ot w = set_pc t (Finishing j) (w\<lparr>w_tick := n\<rparr>)"
  | (replies) n m e json where "worker_reply E t j st rc b ot w
      = set_pc t (Replied j m e b) (push_done E (wj_conn_id j) json (w\<lparr>w_tick := n\<rparr>))"
proof -
  let ?w = "w\<lparr>w_tick := Suc (w_tick w)\<rparr>"
  let ?m = "if b then - 7 else ws_call_map_rc rc" and ?e = "env_monotonic E (w_tick w) - st"
  obtain r where r: "build_reply E j ?m rc b ?e ot ?w = (r, w\<lparr>w_tick := Suc (w_tick w) + 6\<rparr>)"
    by (simp add: build_reply_def Let_def)
  then show thesis
    using that by (cases r) (simp_all add: worker_reply_def ask_def)
qed

lemma inv_reply:
  assumes "wk_inv w js ds" "t < length (wk_pcs w)" "wk_pcs w ! t = Called j st rc b ot"
  shows "\<exists>es. wk_inv (worker_reply E t j st rc b ot w) js (ds @ es) \<and> map fst es \<in> {[], [wj_conn_id j]}"
proof -
  have f: "wk_inv (set_pc t (Finishing j) (w\<lparr>w_tick := n\<rparr>)) js ds" for n
    using assms by (intro inv_set_pc_same) auto
  have r: "\<exists>es. wk_inv (set_pc t (Replied j m e b) (push_done E c json (w\<lparr>w_tick := n\<rparr>))) js (ds @ es)
      \<and> es \<in> {[], [(c, json)]}" for m e c json n
  proof -
    obtain es where es: "wk_inv (push_done E c json (w\<lparr>w_tick := n\<rparr>)) js (ds @ es)" "es \<in> {[], [(c, json)]}"
      using inv_push_done [of "w\<lparr>w_tick := n\<rparr>" js ds E c json] assms(1) by auto
    then have "wk_inv (set_pc t (Replied j m e b) (push_done E c json (w\<lparr>w_tick := n\<rparr>))) js (ds @ es)"
      using assms(2,3) by (intro inv_set_pc) auto
    with es(2) show ?thesis by blast
  qed
  show ?thesis
  proof (cases rule: worker_reply_cases [of E t j st rc b ot w])
    case (fails n)
    with f show ?thesis by (intro exI [of _ "[]"]) simp
  next
    case (replies n m e json)
    with r [of m e "wj_conn_id j" json n] show ?thesis by auto
  qed
qed

lemma inv_release:
  assumes "wk_inv w js ds" "t < length (wk_pcs w)" "wk_pcs w ! t = Finishing j"
  shows "wk_inv (set_pc t Idle (release_slot (job_slot j) w)) js ds"
proof -
  have n: "length (filter (works_for s) ((wk_pcs w)[t := Idle])) + (if job_slot j = s then 1 else 0)
      = length (filter (works_for s) (wk_pcs w))" for s
    using count_update [OF assms(2), of "works_for s" Idle] assms(3) by (simp add: works_for_def)
  have c: "length (filter (calls_for s) ((wk_pcs w)[t := Idle])) = length (filter (calls_for s) (wk_pcs w))" for s
    using count_update [OF assms(2), of "calls_for s" Idle] assms(3) by simp
  have l: "load s js ((wk_pcs w)[t := Idle]) + (if job_slot j = s then 1 else 0) = load s js (wk_pcs w)" for s
    using n [of s] by (simp add: load_def)
  have "0 < load (job_slot j) js (wk_pcs w)" using l [of "job_slot j"] by simp
  then have p: "0 < wk_pending w ! job_slot j" using assms(1) by (simp add: wk_inv_def)
  have "(wk_pending w)[job_slot j := wk_pending w ! job_slot j - 1] ! s = int (load s js ((wk_pcs w)[t := Idle]))
      \<and> int (load s js ((wk_pcs w)[t := Idle])) \<le> WS_WORKER_MAX_PER_CONN" if "s < WS_CONN_LOCKS" for s
    using assms(1) that l [of s] by (auto simp: wk_inv_def nth_list_update split: if_splits)
  with assms(1) p c show ?thesis by (simp add: wk_inv_def set_pc_def release_slot_def)
qed

lemma inv_record [simp]: "wk_inv (record_result m e b w) js ds \<longleftrightarrow> wk_inv w js ds"
  by (simp add: record_result_def Let_def)

lemma record_pcs [simp]: "wk_pcs (record_result m e b w) = wk_pcs w"
  by (simp add: record_result_def Let_def)

text \<open>
  Every step of a thread keeps the invariant; it takes at most the oldest job and adds at most one
  reply.
\<close>

lemma inv_worker_step:
  assumes inv: "wk_inv w js ds" and step: "worker_step E t w = Some w'"
  shows "\<exists>js' es. wk_inv w' js' (ds @ es)"
proof -
  have t: "t < length (wk_pcs w)" using step by (simp add: worker_step_def split: if_splits)
  have keep: "\<exists>js' es. wk_inv v js' (ds @ es)" if "wk_inv v js ds" for v
    using that by (intro exI [of _ js] exI [of _ "[]"]) simp
  show ?thesis
  proof (cases "wk_pcs w ! t")
    case Idle
    with step t have "worker_take t w = Some w'" by (simp add: worker_step_def)
    with inv_take [OF inv t Idle] show ?thesis by (metis append_Nil2)
  next
    case (Taken j)
    with step t inv_start [OF inv t Taken, of E] show ?thesis by (intro keep) (simp add: worker_step_def)
  next
    case (Locking j st p)
    with step t have "worker_lock t j st p w = Some w'" by (simp add: worker_step_def)
    from inv_lock [OF inv t Locking this] show ?thesis by (rule keep)
  next
    case (Calling j st p)
    with step t inv_call [OF inv t Calling, of E] show ?thesis by (intro keep) (simp add: worker_step_def)
  next
    case (Called j st rc b ot)
    with step t inv_reply [OF inv t Called] show ?thesis by (fastforce simp: worker_step_def)
  next
    case (Replied j m e b)
    have "wk_inv (set_pc t (Finishing j) (record_result m e b w)) js ds"
      using inv t Replied by (intro inv_set_pc) simp_all
    with Replied step t show ?thesis by (intro keep) (simp add: worker_step_def)
  next
    case (Finishing j)
    with step t inv_release [OF inv t Finishing] show ?thesis
      by (intro keep) (simp add: worker_step_def job_slot_def)
  next
    case Exited
    with step t show ?thesis by (simp add: worker_step_def)
  qed
qed

lemma filter_replicate_none: "(\<And>x. x \<in> set xs \<Longrightarrow> \<not> P x) \<Longrightarrow> length (filter P (pcs @ xs)) = length (filter P pcs)"
  by (simp add: filter_empty_conv)

lemma create_threads_effect:
  "\<exists>k \<le> n. \<exists>m. create_threads E n w = w\<lparr>w_tick := m, wk_thread_count := wk_thread_count w + k,
     wk_pcs := wk_pcs w @ replicate k Idle\<rparr>"
proof (induction n arbitrary: w)
  case 0
  then show ?case by (intro exI [of _ 0] conjI exI [of _ "w_tick w"]) simp_all
next
  case (Suc n)
  show ?case
  proof (cases "env_pthread E (w_tick w)")
    case False
    then show ?thesis by (intro exI [of _ 0] conjI exI [of _ "Suc (w_tick w)"]) (simp_all add: ask_def)
  next
    case True
    let ?w = "w\<lparr>w_tick := Suc (w_tick w), wk_thread_count := wk_thread_count w + 1, wk_pcs := wk_pcs w @ [Idle]\<rparr>"
    obtain k m where "k \<le> n" "create_threads E n ?w = ?w\<lparr>w_tick := m, wk_thread_count := wk_thread_count ?w + k,
        wk_pcs := wk_pcs ?w @ replicate k Idle\<rparr>" using Suc.IH by blast
    with True show ?thesis
      by (intro exI [of _ "Suc k"] conjI exI [of _ m]) (simp_all add: ask_def replicate_append_same)
  qed
qed

lemma inv_init:
  assumes "wk_inv w js ds"
  shows "wk_inv (snd (ws_worker_init E w)) js ds"
proof (cases "wk_inited w")
  case True
  with assms show ?thesis by (simp add: ws_worker_init_def)
next
  case False
  let ?w = "w\<lparr>wk_running := True, wk_inited := True, wk_stats := no_stats\<rparr>"
  from False assms have e: "js = []" "wk_pcs w = []" "wk_thread_count w = 0" by (auto simp: wk_inv_def)
  obtain k m where k: "k \<le> WS_WORKER_THREADS"
    "create_threads E WS_WORKER_THREADS ?w = ?w\<lparr>w_tick := m, wk_thread_count := k, wk_pcs := replicate k Idle\<rparr>"
    using create_threads_effect [of WS_WORKER_THREADS E ?w] e by auto
  have "filter (works_for s) (replicate k Idle) = []" "filter (calls_for s) (replicate k Idle) = []" for s
    by (simp_all add: works_for_def filter_empty_conv)
  with assms e k False show ?thesis
    by (auto simp: ws_worker_init_def Let_def wk_inv_def load_def)
qed

lemma inv_enqueue:
  assumes "wk_inv w js ds" "wk_inited w"
  shows "wk_inv (snd (enqueue_job job w)) (if fst (enqueue_job job w) = 0 then js @ [job] else js) ds"
proof (cases "WS_WORKER_MAX_QUEUE \<le> wk_queue_len w \<or> WS_WORKER_MAX_PER_CONN \<le> wk_pending w ! conn_slot (wj_conn_id job)")
  case True
  with assms(1) show ?thesis by (simp add: enqueue_job_def Let_def)
next
  case False
  have l: "load s (js @ [job]) pcs = load s js pcs + (if job_slot job = s then 1 else 0)" for s pcs
    by (simp add: load_def)
  have "lq_rep (lq_push (wk_fresh w) job (wk_jobs w)) (js @ [job])"
    using assms(1) by (intro lqf.rep_enq) (auto simp: wk_inv_def lq_below_def)
  moreover have "(wk_pending w)[job_slot job := wk_pending w ! job_slot job + 1] ! s = int (load s (js @ [job]) (wk_pcs w))
      \<and> int (load s (js @ [job]) (wk_pcs w)) \<le> WS_WORKER_MAX_PER_CONN" if "s < WS_CONN_LOCKS" for s
    using assms(1) that False unfolding l by (auto simp: wk_inv_def nth_list_update job_slot_def)
  moreover have "lq_below (lq_push (wk_fresh w) job (wk_jobs w)) (Suc (wk_fresh w))"
    "lq_below (wk_done w) (Suc (wk_fresh w))"
    using assms(1) by (auto simp: wk_inv_def intro: lq_below_push lq_below_mono)
  ultimately show ?thesis
    using assms False by (simp add: enqueue_job_def Let_def wk_inv_def job_slot_def)
qed

lemma new_job_tick: "\<exists>n. snd (new_job E c i l s a tmo w) = w\<lparr>w_tick := n\<rparr>"
  by (auto simp: new_job_def ask_def ask2_def)

lemma init_inited:
  assumes "ws_worker_init E w = (0, w')"
  shows "wk_inited w'"
proof (cases "wk_inited w")
  case False
  let ?w = "w\<lparr>wk_running := True, wk_inited := True, wk_stats := no_stats\<rparr>"
  obtain k m where c: "create_threads E WS_WORKER_THREADS ?w = ?w\<lparr>w_tick := m,
      wk_thread_count := wk_thread_count ?w + k, wk_pcs := wk_pcs ?w @ replicate k Idle\<rparr>"
    using create_threads_effect [of WS_WORKER_THREADS E ?w] by blast
  from assms False have "w' = create_threads E WS_WORKER_THREADS ?w"
    by (auto simp: ws_worker_init_def Let_def split: if_splits)
  then show ?thesis by (simp add: c)
qed (use assms in \<open>simp add: ws_worker_init_def\<close>)

text \<open>
  What a submission does: refused with the queue as it was, or one job more at the end.
\<close>

lemma inv_submit:
  assumes "wk_inv w js ds" "ws_worker_submit E c i l s a tmo w = (rc, w')"
  shows "(rc = -1 \<and> wk_inv w' js ds) \<or>
    (rc = 0 \<and> (\<exists>job. wk_inv w' (js @ [job]) ds \<and> wj_conn_id job = c \<and> Some (wj_id job) = i
       \<and> Some (wj_lib job) = l \<and> Some (wj_symbol job) = s \<and> wj_timeout_ms job = tmo))"
proof (cases "i = None \<or> l = None \<or> s = None")
  case True
  with assms show ?thesis by (auto simp: ws_worker_submit_def split: option.splits)
next
  case False
  then obtain i' l' s' where some: "i = Some i'" "l = Some l'" "s = Some s'" by auto
  obtain rc1 w1 where init: "ws_worker_init E w = (rc1, w1)" by (cases "ws_worker_init E w")
  have inv1: "wk_inv w1 js ds" using inv_init [OF assms(1), of E] init by simp
  show ?thesis
  proof (cases "rc1 = 0")
    case False
    with assms(2) some init inv1 show ?thesis by (simp add: ws_worker_submit_def)
  next
    case True
    obtain jo w2 where new: "new_job E c i' l' s' a tmo w1 = (jo, w2)" by (cases "new_job E c i' l' s' a tmo w1")
    obtain n where w2: "w2 = w1\<lparr>w_tick := n\<rparr>" using new_job_tick [of E c i' l' s' a tmo w1] new by auto
    show ?thesis
    proof (cases jo)
      case None
      with assms(2) some init True new have "rc = -1" "w' = w2" by (simp_all add: ws_worker_submit_def)
      with inv1 w2 show ?thesis by simp
    next
      case (Some job)
      have job: "wj_conn_id job = c \<and> wj_id job = i' \<and> wj_lib job = l' \<and> wj_symbol job = s' \<and> wj_timeout_ms job = tmo"
        using new Some by (auto simp: new_job_def ask_def ask2_def split: if_splits)
      have e: "enqueue_job job w2 = (rc, w')"
        using assms(2) some init True new Some by (simp add: ws_worker_submit_def)
      have "wk_inv w2 js ds" "wk_inited w2" using inv1 w2 init_inited [of E w w1] init True by simp_all
      from inv_enqueue [OF this, of job] e have "wk_inv w' (if rc = 0 then js @ [job] else js) ds" by simp
      moreover have "rc = 0 \<or> rc = -1" using e by (auto simp: enqueue_job_def Let_def split: if_splits)
      ultimately show ?thesis using job some by auto
    qed
  qed
qed

lemma inv_join:
  assumes "wk_inv w js ds" "shutdown_end w = Some w'"
  shows "wk_inv w' [] []"
  using assms
  by (auto simp: shutdown_end_def wk_inv_def load_def WS_WORKER_MAX_PER_CONN_def WS_WORKER_MAX_QUEUE_def
      split: if_splits)

lemma inv_step:
  assumes "wk_step E w w'" "wk_inv w js ds"
  shows "\<exists>js' ds'. wk_inv w' js' ds'"
  using assms
proof (cases rule: wk_step.cases)
  case (thread t)
  with assms(2) show ?thesis using inv_worker_step by blast
next
  case (init rc)
  with inv_init [OF assms(2), of E] show ?thesis by auto
next
  case (submit c i l s a tmo rc)
  with inv_submit [OF assms(2), of E c i l s a tmo] show ?thesis by blast
next
  case drain
  with assms(2) have "wk_inv w' js []" by (simp add: wk_inv_def)
  then show ?thesis by blast
next
  case stop
  have "wk_inv w' js ds"
  proof (cases "wk_inited w")
    case True
    with assms(2) stop show ?thesis by (simp add: shutdown_begin_def wk_inv_def)
  next
    case False
    with assms(2) stop show ?thesis by (simp add: shutdown_begin_def)
  qed
  then show ?thesis by blast
next
  case join
  with inv_join [OF assms(2)] show ?thesis by blast
next
  case (set_exec f)
  with assms(2) have "wk_inv w' js ds" by (simp add: ws_worker_set_exec_def wk_inv_def)
  then show ?thesis by blast
next
  case elsewhere
  with wk_same_inv assms(2) show ?thesis by blast
qed

lemma inv_start_state: "wk_start w \<Longrightarrow> wk_inv w [] []"
  by (simp add: wk_start_def wk_inv_def load_def WS_WORKER_MAX_PER_CONN_def WS_WORKER_MAX_QUEUE_def)

lemma reachable_inv: "wk_reachable E w \<Longrightarrow> \<exists>js ds. wk_inv w js ds"
proof (induction rule: wk_reachable.induct)
  case (start w)
  then show ?case using inv_start_state by blast
next
  case (step w w')
  then show ?case using inv_step by blast
qed

lemma filter_at_most_one:
  assumes "length (filter P xs) \<le> 1" "i < length xs" "j < length xs" "P (xs ! i)" "P (xs ! j)"
  shows "i = j"
  using assms
proof (induction xs arbitrary: i j)
  case Nil
  then show ?case by simp
next
  case (Cons x xs)
  have e: "length (filter P xs) = 0 \<Longrightarrow> k < length xs \<Longrightarrow> \<not> P (xs ! k)" for k
    by (auto simp: filter_empty_conv)
  from Cons show ?case by (cases i; cases j) (auto simp: e split: if_splits)
qed

text \<open>C14: Whatever two worker threads and the main thread do in whatever order, the worker's bookkeeping
  stays right. In every reachable state both linked queues are well formed, the counted length of
  the job queue is its real length and at most 64, the counter of every connection slot is exactly
  the number of its jobs that are queued or in a thread's hands and at most 16, there are at most two
  threads, and no two of them are inside a plugin call for the same slot.\<close>

theorem worker_bookkeeping:
  assumes "wk_reachable E w"
  shows "\<exists>js ds. lq_rep (wk_jobs w) js \<and> lq_rep (wk_done w) ds
     \<and> wk_queue_len w = int (length js) \<and> length js \<le> 64
     \<and> (\<forall>s < 16. wk_pending w ! s = int (load s js (wk_pcs w)) \<and> wk_pending w ! s \<le> 16)
     \<and> length (wk_pcs w) \<le> 2
     \<and> (\<forall>t u j k st st' p q. t < length (wk_pcs w) \<longrightarrow> u < length (wk_pcs w) \<longrightarrow>
          wk_pcs w ! t = Calling j st p \<longrightarrow> wk_pcs w ! u = Calling k st' q \<longrightarrow> job_slot j = job_slot k \<longrightarrow> t = u)"
proof -
  obtain js ds where inv: "wk_inv w js ds" using reachable_inv [OF assms] by blast
  have "t = u" if "t < length (wk_pcs w)" "u < length (wk_pcs w)" "wk_pcs w ! t = Calling j st p"
      "wk_pcs w ! u = Calling k st' q" "job_slot j = job_slot k" for t u j k st st' p q
    using inv that by (intro filter_at_most_one [of "calls_for (job_slot j)" "wk_pcs w"]) (simp_all add: wk_inv_def)
  with inv show ?thesis
    by (intro exI [of _ js] exI [of _ ds])
       (auto simp: wk_inv_def WS_WORKER_MAX_QUEUE_def WS_CONN_LOCKS_def WS_WORKER_MAX_PER_CONN_def
          WS_WORKER_THREADS_def)
qed

definition demo_wk :: wk_world where
  "demo_wk = rt_world.extend (demo_rt []) (wk_world.fields lq_empty lq_empty 0 False False 0
     (Some Exec_libffi) no_stats (replicate WS_CONN_LOCKS 0) [] 1)"

lemmas wk_demo = demo_wk_def rt_world.defs wk_world.defs

lemma demo_start: "wk_start demo_wk"
  by (simp add: wk_start_def wk_demo)

definition demo_submitted :: wk_world where
  "demo_submitted = snd (ws_worker_submit calm_env 7 (Some ''r1'') (Some ''imgtool'') (Some ''run'') None 0 demo_wk)"

lemma demo_submit_rc: "fst (ws_worker_submit calm_env 7 (Some ''r1'') (Some ''imgtool'') (Some ''run'') None 0 demo_wk) = 0"
  by code_simp

lemma demo_submit:
  "ws_worker_submit calm_env 7 (Some ''r1'') (Some ''imgtool'') (Some ''run'') None 0 demo_wk = (0, demo_submitted)"
  using demo_submit_rc unfolding demo_submitted_def by (metis prod.collapse)

lemma demo_reachable: "wk_reachable calm_env demo_submitted"
  using wk_reachable.start [OF demo_start] demo_submit by (blast intro: wk_reachable.step wk_step.submit)

lemma demo_pending: "wk_pending demo_submitted ! 7 = 1 \<and> wk_queue_len demo_submitted = 1 \<and> wk_pcs demo_submitted = [Idle, Idle]"
  by code_simp

theorem worker_bookkeeping_witness:
  "\<exists>js. lq_rep (wk_jobs demo_submitted) js \<and> length js \<le> 64 \<and> length (wk_pcs demo_submitted) \<le> 2
     \<and> wk_pending demo_submitted ! 7 \<le> 16"
proof -
  have "(7::nat) < 16" by simp
  then show ?thesis using worker_bookkeeping [OF demo_reachable] by metis
qed

section \<open>Every accepted call is answered once\<close>

text \<open>The connections that are still owed a reply by a thread, and by the worker.\<close>

fun owes :: "wk_pc \<Rightarrow> u64 multiset" where
  "owes (Taken j) = {#wj_conn_id j#}"
| "owes (Locking j s p) = {#wj_conn_id j#}"
| "owes (Calling j s p) = {#wj_conn_id j#}"
| "owes (Called j s r b ot) = {#wj_conn_id j#}"
| "owes pc = {#}"

definition owed :: "ws_job list \<Rightarrow> wk_pc list \<Rightarrow> u64 multiset" where
  "owed js pcs = mset (map wj_conn_id js) + sum_list (map owes pcs)"

lemma sum_list_update:
  fixes f :: "'b \<Rightarrow> 'c::cancel_comm_monoid_add"
  assumes "t < length xs"
  shows "sum_list (map f (xs[t := y])) + f (xs ! t) = sum_list (map f xs) + f y"
  using assms
proof (induction xs arbitrary: t)
  case Nil
  then show ?case by simp
next
  case (Cons x xs)
  then show ?case by (cases t) (auto simp: ac_simps)
qed

lemma owed_set_pc:
  assumes "t < length (wk_pcs w)"
  shows "owed js (wk_pcs (set_pc t pc w)) + owes (wk_pcs w ! t) = owed js (wk_pcs w) + owes pc"
  using sum_list_update [OF assms, of owes pc] by (simp add: owed_def set_pc_def add.assoc)

lemma set_pc_pcs [simp]: "wk_pcs (set_pc t pc w) = (wk_pcs w)[t := pc]"
  by (simp add: set_pc_def)

text \<open>Memory never runs out.\<close>

definition mem_ok :: "'d env \<Rightarrow> bool" where
  "mem_ok E \<longleftrightarrow> (\<forall>k. env_malloc E k)"

lemma build_reply_ok:
  assumes "mem_ok E"
  shows "\<exists>json. build_reply E j m rc b e ot w = (Some json, w\<lparr>w_tick := w_tick w + 6\<rparr>)"
  using assms by (simp add: mem_ok_def build_reply_def ws_call_build_ok_def ws_call_build_error_def Let_def)

lemma exec_pcs: "run_exec E path j w = (r, w1) \<Longrightarrow> wk_pcs w1 = wk_pcs w"
  using wk_same_exec [of w E path j] by (simp add: wk_same_def)

lemma reply_effect:
  assumes "wk_inv w js ds" "t < length (wk_pcs w)" "wk_pcs w ! t = Called j st rc b ot"
  shows "\<exists>es pc. wk_inv (worker_reply E t j st rc b ot w) js (ds @ es) \<and> map fst es \<in> {[], [wj_conn_id j]}
     \<and> wk_pcs (worker_reply E t j st rc b ot w) = (wk_pcs w)[t := pc]
     \<and> (pc = Finishing j \<or> (\<exists>m e b. pc = Replied j m e b))
     \<and> (mem_ok E \<longrightarrow> map fst es = [wj_conn_id j])"
proof -
  obtain es where es: "wk_inv (worker_reply E t j st rc b ot w) js (ds @ es)" "map fst es \<in> {[], [wj_conn_id j]}"
    using inv_reply [OF assms, of E] by (elim exE conjE) (rule that)
  show ?thesis
  proof (cases "mem_ok E")
    case False
    obtain pc where "wk_pcs (worker_reply E t j st rc b ot w) = (wk_pcs w)[t := pc]"
      "pc = Finishing j \<or> (\<exists>m e b. pc = Replied j m e b)"
      by (cases rule: worker_reply_cases [of E t j st rc b ot w]) auto
    with es False show ?thesis by (intro exI [of _ es] exI [of _ pc]) auto
  next
    case True
    let ?m = "if b then - 7 else ws_call_map_rc rc" and ?e = "env_monotonic E (w_tick w) - st"
    let ?w = "w\<lparr>w_tick := Suc (w_tick w) + 6\<rparr>"
    obtain json where json: "build_reply E j ?m rc b ?e ot (w\<lparr>w_tick := Suc (w_tick w)\<rparr>) = (Some json, ?w)"
      using build_reply_ok [OF True, of j ?m rc b ?e ot "w\<lparr>w_tick := Suc (w_tick w)\<rparr>"] by auto
    have r: "worker_reply E t j st rc b ot w = set_pc t (Replied j ?m ?e b) (push_done E (wj_conn_id j) json ?w)"
      by (simp only: worker_reply_def ask_def Let_def json prod.case option.case)
    obtain es' where es': "wk_inv (push_done E (wj_conn_id j) json ?w) js (ds @ es')" "es' = [(wj_conn_id j, json)]"
      using inv_push_done [of ?w js ds E "wj_conn_id j" json] assms(1) True by (auto simp: mem_ok_def)
    then have "wk_inv (worker_reply E t j st rc b ot w) js (ds @ es')"
      unfolding r using assms(2,3) by (intro inv_set_pc) auto
    with es'(2) r show ?thesis by (intro exI [of _ es'] exI [of _ "Replied j ?m ?e b"]) simp
  qed
qed

lemma owed_update:
  assumes "t < length pcs"
  shows "owed js (pcs[t := pc]) + owes (pcs ! t) = owed js pcs + owes pc"
  using sum_list_update [OF assms, of owes pc] by (simp add: owed_def add.assoc)

text \<open>A step of a thread: nothing changes in what is owed and answered together.\<close>

lemma thread_balance:
  assumes inv: "wk_inv w js ds" and step: "worker_step E t w = Some w'"
  shows "\<exists>js' ds'. wk_inv w' js' ds'
    \<and> owed js' (wk_pcs w') + mset (map fst ds') \<subseteq># owed js (wk_pcs w) + mset (map fst ds)
    \<and> (mem_ok E \<longrightarrow>
         owed js' (wk_pcs w') + mset (map fst ds') = owed js (wk_pcs w) + mset (map fst ds))"
proof -
  have t: "t < length (wk_pcs w)" using step by (simp add: worker_step_def split: if_splits)
  have keep: ?thesis
    if "wk_inv w' js ds" "wk_pcs w' = (wk_pcs w)[t := pc]" "owes pc = owes (wk_pcs w ! t)" for pc
    using that owed_update [OF t, of js pc] by (intro exI [of _ js] exI [of _ ds]) simp
  show ?thesis
  proof (cases "wk_pcs w ! t")
    case Idle
    with step t have tk: "worker_take t w = Some w'" by (simp add: worker_step_def)
    from inv_take [OF inv t Idle tk] show ?thesis
    proof (elim disjE exE conjE)
      assume "js = []" and i: "wk_inv w' [] ds"
      then have "w' = set_pc t Exited w"
        using tk inv lqf.deq_rep [of "wk_jobs w" js] by (auto simp: worker_take_def wk_inv_def split: option.splits if_splits)
      with i \<open>js = []\<close> Idle show ?thesis by (intro keep [of Exited]) simp_all
    next
      fix j js' assume js: "js = j # js'" and i: "wk_inv w' js' ds" and "wk_pcs w' ! t = Taken j"
      with tk t have p: "wk_pcs w' = (wk_pcs w)[t := Taken j]"
        by (auto simp: worker_take_def split: option.splits if_splits)
      have "owed js' (wk_pcs w') = owed js (wk_pcs w)"
        using owed_update [OF t, of js' "Taken j"] Idle unfolding p js by (simp add: owed_def)
      with i show ?thesis by (intro exI [of _ js'] exI [of _ ds]) simp
    qed
  next
    case (Taken j)
    then obtain pc where "wk_pcs w' = (wk_pcs w)[t := pc]" "owes pc = {#wj_conn_id j#}"
      using step t by (auto simp: worker_step_def worker_start_def ask_def split: prod.splits if_splits)
    moreover have "wk_inv w' js ds" using inv_start [OF inv t Taken, of E] step t Taken by (simp add: worker_step_def)
    ultimately show ?thesis using Taken by (intro keep [of pc]) simp_all
  next
    case (Locking j st p)
    with step t have l: "worker_lock t j st p w = Some w'" by (simp add: worker_step_def)
    with inv_lock [OF inv t Locking l] Locking show ?thesis
      by (intro keep [of "Calling j st p"]) (auto simp: worker_lock_def split: if_splits)
  next
    case (Calling j st p)
    then obtain rc ot where "wk_pcs w' = (wk_pcs w)[t := Called j st rc False ot]"
      using step t exec_pcs [of E p j w] by (auto simp: worker_step_def worker_call_def split: prod.splits)
    moreover have "wk_inv w' js ds" using inv_call [OF inv t Calling, of E] step t Calling by (simp add: worker_step_def)
    ultimately show ?thesis using Calling by (intro keep [of "Called j st rc False ot"]) simp_all
  next
    case (Called j st rc b ot)
    then have w': "w' = worker_reply E t j st rc b ot w" using step t by (simp add: worker_step_def)
    obtain es pc where es: "wk_inv w' js (ds @ es)" "map fst es \<in> {[], [wj_conn_id j]}"
      "wk_pcs w' = (wk_pcs w)[t := pc]" "owes pc = {#}" "mem_ok E \<longrightarrow> map fst es = [wj_conn_id j]"
      using reply_effect [OF inv t Called, of E] unfolding w' by fastforce
    have "owed js (wk_pcs w') + {#wj_conn_id j#} = owed js (wk_pcs w)"
      using owed_update [OF t, of js pc] es(3,4) Called by simp
    then have o: "owed js (wk_pcs w) = add_mset (wj_conn_id j) (owed js (wk_pcs w'))" by simp
    show ?thesis
      unfolding o using es(1,2,5) by (intro exI [of _ js] exI [of _ "ds @ es"]) auto
  next
    case (Replied j m e b)
    then have w': "w' = set_pc t (Finishing j) (record_result m e b w)" using step t by (simp add: worker_step_def)
    have "wk_inv w' js ds" unfolding w' using inv t Replied by (intro inv_set_pc) simp_all
    with w' Replied show ?thesis by (intro keep [of "Finishing j"]) simp_all
  next
    case (Finishing j)
    then have w': "w' = set_pc t Idle (release_slot (job_slot j) w)" using step t by (simp add: worker_step_def job_slot_def)
    with inv_release [OF inv t Finishing] Finishing show ?thesis
      by (intro keep [of Idle]) (simp_all add: release_slot_def)
  next
    case Exited
    with step t show ?thesis by (simp add: worker_step_def)
  qed
qed

text \<open>
  An execution of the program that does not shut the worker down, with the connections of the calls
  that were accepted so far and of the replies that the main thread collected.
\<close>

inductive wk_history :: "'d env \<Rightarrow> 'a wk_world_scheme \<Rightarrow> u64 multiset \<Rightarrow> u64 multiset \<Rightarrow> bool" for E where
  hist_start: "wk_start w \<Longrightarrow> wk_history E w {#} {#}"
| hist_thread: "wk_history E w acc got \<Longrightarrow> worker_step E t w = Some w' \<Longrightarrow> wk_history E w' acc got"
| hist_accept: "wk_history E w acc got \<Longrightarrow> ws_worker_submit E c i l s a tmo w = (0, w') \<Longrightarrow>
     wk_history E w' (add_mset c acc) got"
| hist_refuse: "wk_history E w acc got \<Longrightarrow> ws_worker_submit E c i l s a tmo w = (-1, w') \<Longrightarrow>
     wk_history E w' acc got"
| hist_drain: "wk_history E w acc got \<Longrightarrow>
     wk_history E (w\<lparr>wk_done := lq_empty\<rparr>) acc (got + mset (map fst (lq_take_all (wk_done w))))"
| hist_init: "wk_history E w acc got \<Longrightarrow> wk_history E (snd (ws_worker_init E w)) acc got"
| hist_elsewhere: "wk_history E w acc got \<Longrightarrow> wk_same w w' \<Longrightarrow> wk_history E w' acc got"

lemma init_pcs_owed: "sum_list (map owes (wk_pcs (snd (ws_worker_init E w)))) = sum_list (map owes (wk_pcs w))"
proof -
  let ?w = "w\<lparr>wk_running := True, wk_inited := True, wk_stats := no_stats\<rparr>"
  obtain k m where "create_threads E WS_WORKER_THREADS ?w = ?w\<lparr>w_tick := m,
      wk_thread_count := wk_thread_count ?w + k, wk_pcs := wk_pcs ?w @ replicate k Idle\<rparr>"
    using create_threads_effect [of WS_WORKER_THREADS E ?w] by blast
  moreover have "sum_list (map owes (replicate k Idle)) = {#}" by (induction k) simp_all
  ultimately show ?thesis by (simp add: ws_worker_init_def Let_def del: map_replicate)
qed

lemma submit_pcs_owed:
  assumes "wk_inv w js ds" "ws_worker_submit E c i l s a tmo w = (rc, w')"
  shows "sum_list (map owes (wk_pcs w')) = sum_list (map owes (wk_pcs w))"
proof -
  have enq: "wk_pcs (snd (enqueue_job j v)) = wk_pcs v" for j and v :: "'a wk_world_scheme"
    by (simp add: enqueue_job_def Let_def)
  have new: "wk_pcs (snd (new_job E c i' l' s' a tmo v)) = wk_pcs v" for i' l' s' and v :: "'a wk_world_scheme"
    using new_job_tick [of E c i' l' s' a tmo v] by auto
  show ?thesis
  proof (cases "i = None \<or> l = None \<or> s = None")
    case True
    with assms(2) show ?thesis by (auto simp: ws_worker_submit_def split: option.splits)
  next
    case False
    then obtain i' l' s' where some: "i = Some i'" "l = Some l'" "s = Some s'" by auto
    obtain rc1 w1 where w1: "ws_worker_init E w = (rc1, w1)" by (cases "ws_worker_init E w")
    obtain jo w2 where w2: "new_job E c i' l' s' a tmo w1 = (jo, w2)" by (cases "new_job E c i' l' s' a tmo w1")
    have "wk_pcs w' = wk_pcs w1"
      using assms(2) some w1 w2 new [of i' l' s' w1] enq [of _ w2]
      by (cases jo) (auto simp: ws_worker_submit_def split: if_splits, metis snd_conv)
    with init_pcs_owed [of E w] w1 show ?thesis by simp
  qed
qed

lemma history_balance:
  assumes "wk_history E w acc got"
  shows "\<exists>js ds. wk_inv w js ds \<and> got + mset (map fst ds) + owed js (wk_pcs w) \<subseteq># acc
     \<and> (mem_ok E \<longrightarrow> got + mset (map fst ds) + owed js (wk_pcs w) = acc)"
  using assms
proof (induction rule: wk_history.induct)
  case (hist_start w)
  then have "wk_inv w [] []" "wk_pcs w = []" using inv_start_state by (auto simp: wk_start_def)
  then show ?case by (intro exI [of _ "[]"]) (simp add: owed_def)
next
  case (hist_thread w acc got t w')
  then obtain js ds where inv: "wk_inv w js ds" and le: "got + mset (map fst ds) + owed js (wk_pcs w) \<subseteq># acc"
    and eq: "mem_ok E \<longrightarrow> got + mset (map fst ds) + owed js (wk_pcs w) = acc" by blast
  obtain js' ds' where n: "wk_inv w' js' ds'"
    "owed js' (wk_pcs w') + mset (map fst ds') \<subseteq># owed js (wk_pcs w) + mset (map fst ds)"
    "mem_ok E \<longrightarrow> owed js' (wk_pcs w') + mset (map fst ds') = owed js (wk_pcs w) + mset (map fst ds)"
    using thread_balance [OF inv hist_thread.hyps(2)] by blast
  have a: "got + mset (map fst ds) + owed js (wk_pcs w) = got + (owed js (wk_pcs w) + mset (map fst ds))" for ds js w
    by (simp add: ac_simps)
  have "got + (owed js' (wk_pcs w') + mset (map fst ds')) \<subseteq># got + (owed js (wk_pcs w) + mset (map fst ds))"
    using n(2) by (rule subset_mset.add_left_mono)
  then have "got + (owed js' (wk_pcs w') + mset (map fst ds')) \<subseteq># acc"
    using le unfolding a by (rule subset_mset.order_trans)
  with n eq show ?case unfolding a by (intro exI [of _ js'] exI [of _ ds']) simp
next
  case (hist_accept w acc got c i l s a tmo w')
  then obtain js ds where inv: "wk_inv w js ds" and le: "got + mset (map fst ds) + owed js (wk_pcs w) \<subseteq># acc"
    and eq: "mem_ok E \<longrightarrow> got + mset (map fst ds) + owed js (wk_pcs w) = acc" by blast
  obtain job where job: "wk_inv w' (js @ [job]) ds" "wj_conn_id job = c"
    using inv_submit [OF inv hist_accept.hyps(2)] by auto
  have "owed (js @ [job]) (wk_pcs w') = add_mset c (owed js (wk_pcs w))"
    using submit_pcs_owed [OF inv hist_accept.hyps(2)] job(2) by (simp add: owed_def)
  with job(1) le eq show ?case by (intro exI [of _ "js @ [job]"] exI [of _ ds]) (simp add: add.assoc)
next
  case (hist_refuse w acc got c i l s a tmo w')
  then obtain js ds where inv: "wk_inv w js ds" and le: "got + mset (map fst ds) + owed js (wk_pcs w) \<subseteq># acc"
    and eq: "mem_ok E \<longrightarrow> got + mset (map fst ds) + owed js (wk_pcs w) = acc" by blast
  have "wk_inv w' js ds" using inv_submit [OF inv hist_refuse.hyps(2)] by auto
  moreover have "owed js (wk_pcs w') = owed js (wk_pcs w)"
    using submit_pcs_owed [OF inv hist_refuse.hyps(2)] by (simp add: owed_def)
  ultimately show ?case using le eq by (intro exI [of _ js] exI [of _ ds]) simp
next
  case (hist_drain w acc got)
  then obtain js ds where inv: "wk_inv w js ds" and le: "got + mset (map fst ds) + owed js (wk_pcs w) \<subseteq># acc"
    and eq: "mem_ok E \<longrightarrow> got + mset (map fst ds) + owed js (wk_pcs w) = acc" by blast
  have "lq_take_all (wk_done w) = ds" using inv by (intro lq_take_all_rep) (simp add: wk_inv_def)
  moreover have "wk_inv (w\<lparr>wk_done := lq_empty\<rparr>) js []" using inv by (simp add: wk_inv_def)
  ultimately show ?case using le eq by (intro exI [of _ js] exI [of _ "[]"]) simp
next
  case (hist_init w acc got)
  then obtain js ds where "wk_inv w js ds" "got + mset (map fst ds) + owed js (wk_pcs w) \<subseteq># acc"
    "mem_ok E \<longrightarrow> got + mset (map fst ds) + owed js (wk_pcs w) = acc" by blast
  then show ?case using inv_init [of w js ds E] init_pcs_owed [of E w] by (auto simp: owed_def)
next
  case (hist_elsewhere w acc got w')
  then show ?case using wk_same_inv [OF hist_elsewhere.hyps(2)] by (auto simp: wk_same_def)
qed

text \<open>C13: Replies are conserved. In every execution in which the worker is not shut down, with any
  interleaving of its threads and the main thread, the replies collected, those waiting in the
  finished queue and the calls still being worked on are together never more than the calls
  accepted, connection by connection: no call is answered twice and no connection gets a reply it did
  not ask for. If memory never runs out they are exactly the calls accepted: none is lost.\<close>

theorem calls_answered_once:
  assumes "wk_history E w accepted collected"
  shows "\<exists>js ds. lq_rep (wk_jobs w) js \<and> lq_rep (wk_done w) ds
     \<and> collected + mset (map fst ds) + owed js (wk_pcs w) \<subseteq># accepted
     \<and> (mem_ok E \<longrightarrow> collected + mset (map fst ds) + owed js (wk_pcs w) = accepted)"
  using history_balance [OF assms] by (auto simp: wk_inv_def)

theorem calls_answered_once_witness:
  "\<exists>js ds. lq_rep (wk_jobs demo_submitted) js
     \<and> mset (map fst (ds :: (u64 \<times> string) list)) + owed js (wk_pcs demo_submitted) = {#7#}"
proof -
  obtain js and ds :: "(u64 \<times> string) list" where "lq_rep (wk_jobs demo_submitted) js"
    "mem_ok calm_env \<longrightarrow> {#} + mset (map fst ds) + owed js (wk_pcs demo_submitted) = {#7#}"
    using calls_answered_once [OF hist_accept [OF hist_start [OF demo_start] demo_submit]]
    by (elim exE conjE) (rule that, assumption+)
  moreover have "mem_ok calm_env" by (simp add: mem_ok_def calm_env_def)
  ultimately show ?thesis by (intro exI [of _ js] exI [of _ ds]) simp
qed

section \<open>No call waits forever\<close>

text \<open>
  \<open>serves E t d w js ds cs\<close>: running alone for at most d steps, the thread t gets back to the top of
  its loop, and what it adds to the finished calls are replies to cs (if memory does not run out).
\<close>

definition serves ::
  "'d env \<Rightarrow> nat \<Rightarrow> nat \<Rightarrow> 'a wk_world_scheme \<Rightarrow> ws_job list \<Rightarrow> (u64 \<times> string) list \<Rightarrow> u64 list \<Rightarrow> bool" where
  "serves E t d w js ds cs \<longleftrightarrow>
     (\<exists>n \<le> d. \<exists>es. wk_inv (worker_run E t n w) js (ds @ es)
        \<and> wk_pcs (worker_run E t n w) = (wk_pcs w)[t := Idle] \<and> (mem_ok E \<longrightarrow> map fst es = cs))"

lemma serves_step:
  assumes "worker_step E t w = Some w1" "wk_pcs w1 = (wk_pcs w)[t := pc]" "serves E t d w1 js (ds @ es) cs"
    and "mem_ok E \<longrightarrow> map fst es = bs"
  shows "serves E t (Suc d) w js ds (bs @ cs)"
proof -
  obtain n fs where n: "n \<le> d" "wk_inv (worker_run E t n w1) js ((ds @ es) @ fs)"
    "wk_pcs (worker_run E t n w1) = (wk_pcs w1)[t := Idle]" "mem_ok E \<longrightarrow> map fst fs = cs"
    using assms(3) by (auto simp: serves_def)
  with assms(1,2,4) show ?thesis
    unfolding serves_def by (intro exI [of _ "Suc n"] conjI exI [of _ "es @ fs"]) simp_all
qed

lemma serves_step0:
  assumes "worker_step E t w = Some w1" "wk_pcs w1 = (wk_pcs w)[t := pc]" "serves E t d w1 js ds cs"
  shows "serves E t (Suc d) w js ds cs"
  using serves_step [OF assms(1,2), of d js ds "[]" cs "[]"] assms(3) by simp

lemma serves_mono:
  assumes "serves E t d w js ds cs" "d \<le> d'"
  shows "serves E t d' w js ds cs"
proof -
  obtain n es where "n \<le> d" "wk_inv (worker_run E t n w) js (ds @ es)"
    "wk_pcs (worker_run E t n w) = (wk_pcs w)[t := Idle]" "mem_ok E \<longrightarrow> map fst es = cs"
    using assms(1) unfolding serves_def by (elim exE conjE) (rule that)
  with assms(2) show ?thesis unfolding serves_def by (intro exI [of _ n] conjI exI [of _ es]) simp_all
qed

lemma serves_Finishing:
  assumes "wk_inv w js ds" "t < length (wk_pcs w)" "wk_pcs w ! t = Finishing j"
  shows "serves E t 1 w js ds []"
proof -
  have "worker_step E t w = Some (set_pc t Idle (release_slot (job_slot j) w))"
    using assms(2,3) by (simp add: worker_step_def job_slot_def)
  with inv_release [OF assms] show ?thesis
    unfolding serves_def by (intro exI [of _ 1] conjI exI [of _ "[]"]) (simp_all add: release_slot_def)
qed

lemma serves_Replied:
  assumes "wk_inv w js ds" "t < length (wk_pcs w)" "wk_pcs w ! t = Replied j m e b"
  shows "serves E t 2 w js ds []"
proof -
  let ?w = "set_pc t (Finishing j) (record_result m e b w)"
  have "wk_inv ?w js ds" using assms by (intro inv_set_pc) simp_all
  then have "serves E t 1 ?w js ds []" using assms(2) by (intro serves_Finishing [of _ _ _ _ j]) simp_all
  moreover have "worker_step E t w = Some ?w" using assms(2,3) by (simp add: worker_step_def)
  ultimately have "serves E t (Suc 1) w js ds []" by (intro serves_step0 [of E t w ?w "Finishing j"]) simp_all
  then show ?thesis by (simp add: numeral_2_eq_2)
qed

lemma serves_Called:
  assumes "wk_inv w js ds" "t < length (wk_pcs w)" "wk_pcs w ! t = Called j st rc b ot"
  shows "serves E t 3 w js ds [wj_conn_id j]"
proof -
  let ?w = "worker_reply E t j st rc b ot w"
  obtain es pc where es: "wk_inv ?w js (ds @ es)" "wk_pcs ?w = (wk_pcs w)[t := pc]"
    "pc = Finishing j \<or> (\<exists>m e b. pc = Replied j m e b)" "mem_ok E \<longrightarrow> map fst es = [wj_conn_id j]"
    using reply_effect [OF assms, of E] by (elim exE conjE) (rule that)
  have "serves E t 2 ?w js (ds @ es) []"
    using es(3)
  proof (elim disjE exE)
    assume "pc = Finishing j"
    with es(1,2) assms(2) have "serves E t 1 ?w js (ds @ es) []"
      by (intro serves_Finishing [of _ _ _ _ j]) simp_all
    then show ?thesis by (rule serves_mono) simp
  next
    fix m e b assume "pc = Replied j m e b"
    with es(1,2) assms(2) show ?thesis by (intro serves_Replied [of _ _ _ _ j m e b]) simp_all
  qed
  moreover have "worker_step E t w = Some ?w" using assms(2,3) by (simp add: worker_step_def)
  ultimately have "serves E t (Suc 2) w js ds ([wj_conn_id j] @ [])"
    using es(2,4) by (intro serves_step [of E t w ?w pc])
  then show ?thesis by (simp add: numeral_3_eq_3 numeral_2_eq_2)
qed

lemma serves_Calling:
  assumes "wk_inv w js ds" "t < length (wk_pcs w)" "wk_pcs w ! t = Calling j st p"
  shows "serves E t 4 w js ds [wj_conn_id j]"
proof -
  let ?w = "worker_call E t j st p w"
  obtain rc ot w1 where x: "run_exec E p j w = ((rc, ot), w1)" by (metis prod.collapse)
  then have p: "wk_pcs ?w = (wk_pcs w)[t := Called j st rc False ot]"
    using exec_pcs [OF x] by (simp add: worker_call_def)
  have "serves E t 3 ?w js ds [wj_conn_id j]"
    using inv_call [OF assms, of E] p assms(2) by (intro serves_Called [of _ _ _ _ j st rc False ot]) simp_all
  moreover have "worker_step E t w = Some ?w" using assms(2,3) by (simp add: worker_step_def)
  ultimately have "serves E t (Suc 3) w js ds [wj_conn_id j]" using p by (intro serves_step0)
  then show ?thesis by simp
qed

lemma serves_Locking:
  assumes "wk_inv w js ds" "t < length (wk_pcs w)" "wk_pcs w ! t = Locking j st p"
    and "\<not> slot_held (job_slot j) (wk_pcs w)"
  shows "serves E t 5 w js ds [wj_conn_id j]"
proof -
  let ?w = "set_pc t (Calling j st p) w"
  have l: "worker_lock t j st p w = Some ?w" using assms(4) by (simp add: worker_lock_def job_slot_def)
  have "serves E t 4 ?w js ds [wj_conn_id j]"
    using inv_lock [OF assms(1-3) l] assms(2) by (intro serves_Calling [of _ _ _ _ j st p]) simp_all
  moreover have "worker_step E t w = Some ?w" using assms(2,3) l by (simp add: worker_step_def)
  ultimately have "serves E t (Suc 4) w js ds [wj_conn_id j]"
    by (intro serves_step0 [of E t w ?w "Calling j st p"]) simp_all
  then show ?thesis by simp
qed

lemma slot_held_update:
  assumes "slot_held s (pcs[t := pc])"
  shows "slot_held s pcs \<or> calls_for s pc"
  using assms set_update_subset_insert [of pcs t pc] by (auto simp: slot_held_calls filter_empty_conv)

definition no_call :: "wk_pc list \<Rightarrow> bool" where
  "no_call pcs \<longleftrightarrow> (\<forall>s. \<not> slot_held s pcs)"

lemma serves_Taken:
  assumes "wk_inv w js ds" "t < length (wk_pcs w)" "wk_pcs w ! t = Taken j" "no_call (wk_pcs w)"
  shows "serves E t 6 w js ds [wj_conn_id j]"
proof -
  let ?w = "worker_start E t j w"
  have inv: "wk_inv ?w js ds" using assms(1-3) by (rule inv_start)
  have s: "worker_step E t w = Some ?w" using assms(2,3) by (simp add: worker_step_def)
  have "(\<exists>st. wk_pcs ?w = (wk_pcs w)[t := Called j st (-7) True None])
      \<or> (\<exists>st p. wk_pcs ?w = (wk_pcs w)[t := Locking j st p])"
    by (auto simp: worker_start_def ask_def split: prod.split)
  then consider (late) st where "wk_pcs ?w = (wk_pcs w)[t := Called j st (-7) True None]"
    | (path) st p where "wk_pcs ?w = (wk_pcs w)[t := Locking j st p]" by blast
  then show ?thesis
  proof cases
    case late
    have "serves E t 3 ?w js ds [wj_conn_id j]"
      using inv late assms(2) by (intro serves_Called [of _ _ _ _ j st "-7" True None]) simp_all
    with s late have "serves E t (Suc 3) w js ds [wj_conn_id j]" by (intro serves_step0)
    then show ?thesis by (rule serves_mono) simp
  next
    case path
    have "\<not> slot_held s (wk_pcs ?w)" for s
      using assms(4) slot_held_update [of s "wk_pcs w" t "Locking j st p"] unfolding path no_call_def by auto
    then have "serves E t 5 ?w js ds [wj_conn_id j]"
      using inv path assms(2) by (intro serves_Locking [of _ _ _ _ j st p]) simp_all
    with s path have "serves E t (Suc 5) w js ds [wj_conn_id j]" by (intro serves_step0)
    then show ?thesis by simp
  qed
qed

lemma serves_Idle:
  assumes "wk_inv w (j # js) ds" "t < length (wk_pcs w)" "wk_pcs w ! t = Idle" "no_call (wk_pcs w)"
  shows "serves E t 7 w js ds [wj_conn_id j]"
proof -
  obtain q where p: "lq_pop (wk_jobs w) = Some (j, q)"
    using lqf.deq_rep [of "wk_jobs w" "j # js"] assms(1) by (auto simp: wk_inv_def split: option.splits)
  let ?w = "set_pc t (Taken j) (w\<lparr>wk_jobs := q, wk_queue_len := wk_queue_len w - 1\<rparr>)"
  have tk: "worker_take t w = Some ?w" using p by (simp add: worker_take_def)
  then have inv: "wk_inv ?w js ds" using inv_take [OF assms(1-3) tk] by auto
  have "no_call (wk_pcs ?w)"
    using assms(4) slot_held_update [of _ "wk_pcs w" t "Taken j"] by (auto simp: no_call_def)
  then have "serves E t 6 ?w js ds [wj_conn_id j]" using inv assms(2) by (intro serves_Taken) simp_all
  moreover have "worker_step E t w = Some ?w" using tk assms(2,3) by (simp add: worker_step_def)
  ultimately have "serves E t (Suc 6) w js ds [wj_conn_id j]"
    by (intro serves_step0 [of E t w ?w "Taken j"]) simp_all
  then show ?thesis by simp
qed

lemma worker_run_add: "worker_run E t (m + n) w = worker_run E t n (worker_run E t m w)"
proof (induction m arbitrary: w)
  case 0
  then show ?case by simp
next
  case (Suc m)
  have stuck: "worker_step E t w = None \<Longrightarrow> worker_run E t n w = w" by (cases n) simp_all
  with Suc show ?case by (simp split: option.splits)
qed

lemma serves_all:
  assumes "wk_inv w js ds" "t < length (wk_pcs w)" "wk_pcs w ! t = Idle" "no_call (wk_pcs w)"
  shows "\<exists>n \<le> 7 * length js. \<exists>es. wk_inv (worker_run E t n w) [] (ds @ es)
    \<and> wk_pcs (worker_run E t n w) = wk_pcs w \<and> (mem_ok E \<longrightarrow> map fst es = map wj_conn_id js)"
  using assms
proof (induction js arbitrary: w ds)
  case Nil
  then show ?case by (intro exI [of _ 0] conjI exI [of _ "[]"]) simp_all
next
  case (Cons j js)
  have id: "(wk_pcs w)[t := Idle] = wk_pcs w" using Cons.prems(2,3) by (metis list_update_id)
  have "serves E t 7 w js ds [wj_conn_id j]" using Cons.prems by (rule serves_Idle)
  then obtain n es where n: "n \<le> 7" "wk_inv (worker_run E t n w) js (ds @ es)"
    "wk_pcs (worker_run E t n w) = wk_pcs w" "mem_ok E \<longrightarrow> map fst es = [wj_conn_id j]"
    unfolding serves_def id by (elim exE conjE) (rule that, assumption+)
  have "\<exists>m \<le> 7 * length js. \<exists>fs. wk_inv (worker_run E t m (worker_run E t n w)) [] ((ds @ es) @ fs)
    \<and> wk_pcs (worker_run E t m (worker_run E t n w)) = wk_pcs (worker_run E t n w)
    \<and> (mem_ok E \<longrightarrow> map fst fs = map wj_conn_id js)"
    using Cons.prems n by (intro Cons.IH) simp_all
  then obtain m fs where m: "m \<le> 7 * length js"
    "wk_inv (worker_run E t m (worker_run E t n w)) [] ((ds @ es) @ fs)"
    "wk_pcs (worker_run E t m (worker_run E t n w)) = wk_pcs (worker_run E t n w)"
    "mem_ok E \<longrightarrow> map fst fs = map wj_conn_id js" by (elim exE conjE) (rule that, assumption+)
  with n show ?case
    by (intro exI [of _ "n + m"] conjI exI [of _ "es @ fs"]) (simp_all add: worker_run_add)
qed

text \<open>C15: No call waits forever. From every state the worker can reach in which a thread is at the top
  of its loop and nobody is inside a plugin call, that thread alone works off the whole queue, oldest
  call first, in at most seven steps a call, and is then back at the top of its loop; if memory does
  not run out, it has added one reply for each of the calls, in their order. This covers timeouts,
  failing plugins and a worker without an executor. (That a plugin's function returns is the
  environment's part.)\<close>

theorem worker_serves_queue:
  assumes "wk_reachable E w" "t < length (wk_pcs w)" "wk_pcs w ! t = Idle" "no_call (wk_pcs w)"
  shows "\<exists>js ds n es. lq_rep (wk_jobs w) js \<and> lq_rep (wk_done w) ds \<and> n \<le> 7 * length js
     \<and> wk_queue_len (worker_run E t n w) = 0 \<and> lq_rep (wk_jobs (worker_run E t n w)) []
     \<and> wk_pcs (worker_run E t n w) = wk_pcs w \<and> lq_rep (wk_done (worker_run E t n w)) (ds @ es)
     \<and> (mem_ok E \<longrightarrow> map fst es = map wj_conn_id js)"
proof -
  obtain js ds where inv: "wk_inv w js ds" using reachable_inv [OF assms(1)] by blast
  obtain n es where "n \<le> 7 * length js" "wk_inv (worker_run E t n w) [] (ds @ es)"
    "wk_pcs (worker_run E t n w) = wk_pcs w" "mem_ok E \<longrightarrow> map fst es = map wj_conn_id js"
    using serves_all [OF inv assms(2-4), of E] by (elim exE conjE) (rule that, assumption+)
  with inv show ?thesis
    by (intro exI [of _ js] exI [of _ ds] exI [of _ n] exI [of _ es]) (simp add: wk_inv_def)
qed

theorem worker_serves_queue_witness:
  "\<exists>n es. wk_queue_len (worker_run calm_env 0 n demo_submitted) = 0
     \<and> lq_rep (wk_done (worker_run calm_env 0 n demo_submitted)) es \<and> es \<noteq> []"
proof -
  have pcs: "wk_pcs demo_submitted = [Idle, Idle]" using demo_pending by blast
  then have "0 < length (wk_pcs demo_submitted)" "wk_pcs demo_submitted ! 0 = Idle" "no_call (wk_pcs demo_submitted)"
    by (simp_all add: no_call_def slot_held_def)
  from worker_serves_queue [OF demo_reachable this]
  obtain js ds n es where r: "lq_rep (wk_jobs demo_submitted) js" "wk_queue_len (worker_run calm_env 0 n demo_submitted) = 0"
    "lq_rep (wk_done (worker_run calm_env 0 n demo_submitted)) (ds @ es)"
    "mem_ok calm_env \<longrightarrow> map fst es = map wj_conn_id js" by (elim exE conjE) (rule that, assumption+)
  have "mem_ok calm_env" by (simp add: mem_ok_def calm_env_def)
  moreover have "js \<noteq> []"
  proof
    assume "js = []"
    with r(1) have "lq_head (wk_jobs demo_submitted) = None"
      using lqf.deq_Nil [of "wk_jobs demo_submitted"] lq_pop_Nil by (auto simp: lq_rep_def elim: chain.elims)
    moreover have "lq_head (wk_jobs demo_submitted) = Some 1" by code_simp
    ultimately show False by simp
  qed
  ultimately show ?thesis using r by (intro exI [of _ n] exI [of _ "ds @ es"]) auto
qed
end
