(* ===== verification/HandlerWs.thy ===== *)
theory HandlerWs
  imports WorkerProofs
begin

text \<open>
  src/handler_ws.c: the table of WebSocket connections, the commands of a WebSocket client, the
  delivery of finished calls, and the event handler of a WebSocket connection. A message is the list
  of its bytes; the code copies it and adds a NUL, so comparisons see its C string and the parsers all
  its bytes. Everything here runs in the main loop's thread.

  The lemmas: what the table's operations do to it and to \<open>g_ws_conn\<close>, that no operation leaves a
  pointer to a closed connection behind, and to whom a message's answers go.
\<close>

definition WS_MAX_CONNS :: nat where "WS_MAX_CONNS = 32"

record ws_world = wk_world +
  hw_conns :: "addr option list"       \<comment> \<open>\<open>g_ws_conns\<close>\<close>
  hw_rt_manager :: bool                \<comment> \<open>is \<open>g_rt_manager\<close> set\<close>

section \<open>The table of connections\<close>

text \<open>
  \<open>ws_conn_register\<close>: the first loop stops at the connection itself and clears entries that are
  closing on its way; the second fills the first empty entry.
\<close>

fun register_scan :: "(addr \<Rightarrow> bool) \<Rightarrow> addr \<Rightarrow> addr option list \<Rightarrow> addr option list \<times> bool" where
  "register_scan closing c [] = ([], False)"
| "register_scan closing c (x # xs) =
     (if x = Some c then (x # xs, True)
      else (case register_scan closing c xs of (ys, ok) \<Rightarrow>
        ((case x of Some a \<Rightarrow> if closing a then None else x | None \<Rightarrow> None) # ys, ok)))"

fun fill_first :: "addr \<Rightarrow> addr option list \<Rightarrow> addr option list \<times> bool" where
  "fill_first c [] = ([], False)"
| "fill_first c (None # xs) = (Some c # xs, True)"
| "fill_first c (Some a # xs) = (case fill_first c xs of (ys, ok) \<Rightarrow> (Some a # ys, ok))"

definition ws_conn_register :: "addr \<Rightarrow> 'a ws_world_scheme \<Rightarrow> bool \<times> 'a ws_world_scheme" where
  "ws_conn_register c w =
     (case register_scan (\<lambda>a. c_is_closing (conn_at w a)) c (hw_conns w) of
        (xs, True) \<Rightarrow> (True, w\<lparr>hw_conns := xs\<rparr>)
      | (xs, False) \<Rightarrow> (case fill_first c xs of (ys, ok) \<Rightarrow> (ok, w\<lparr>hw_conns := ys\<rparr>)))"

text \<open>The last entry of the table that is in use: the backward loop of \<open>ws_conn_unregister\<close>.\<close>

definition last_conn :: "addr option list \<Rightarrow> addr option" where
  "last_conn xs = (case dropWhile (\<lambda>x. x = None) (rev xs) of [] \<Rightarrow> None | x # _ \<Rightarrow> x)"

definition ws_conn_unregister :: "addr \<Rightarrow> 'a ws_world_scheme \<Rightarrow> 'a ws_world_scheme" where
  "ws_conn_unregister c w =
     (let w1 = w\<lparr>hw_conns := map (\<lambda>x. if x = Some c then None else x) (hw_conns w)\<rparr>
      in if w_ws_conn w1 = Some c then w1\<lparr>w_ws_conn := last_conn (hw_conns w1)\<rparr> else w1)"

text \<open>\<open>ws_conn_find\<close>: entries that are closing are cleared up to the one found.\<close>

fun find_scan :: "(addr \<Rightarrow> conn) \<Rightarrow> u64 \<Rightarrow> addr option list \<Rightarrow> addr option list \<times> addr option" where
  "find_scan look conn_id [] = ([], None)"
| "find_scan look conn_id (x # xs) =
     (case x of
        None \<Rightarrow> (case find_scan look conn_id xs of (ys, r) \<Rightarrow> (None # ys, r))
      | Some a \<Rightarrow>
          if c_is_closing (look a) then (case find_scan look conn_id xs of (ys, r) \<Rightarrow> (None # ys, r))
          else if c_id (look a) = conn_id then (x # xs, Some a)
          else (case find_scan look conn_id xs of (ys, r) \<Rightarrow> (x # ys, r)))"

definition ws_conn_find :: "u64 \<Rightarrow> 'a ws_world_scheme \<Rightarrow> addr option \<times> 'a ws_world_scheme" where
  "ws_conn_find conn_id w =
     (case find_scan (conn_at w) conn_id (hw_conns w) of (xs, r) \<Rightarrow> (r, w\<lparr>hw_conns := xs\<rparr>))"

section \<open>Commands\<close>

definition action_text :: "string \<Rightarrow> string option \<Rightarrow> string option \<Rightarrow> string" where
  "action_text action uuid status =
     snprintf_buf 256 (''{\"action\":\"'' @ action @ ''\",\"uuid\":\"'' @ or_empty uuid
       @ ''\",\"status\":\"'' @ or_empty status @ ''\"}'')"

definition send_event_to ::
  "'d env \<Rightarrow> addr \<Rightarrow> string \<Rightarrow> string option \<Rightarrow> string option \<Rightarrow> 'a ws_world_scheme \<Rightarrow> 'a ws_world_scheme" where
  "send_event_to E c action uuid status w =
     event_push_with_type_to E (Some c) (Some ''realtime'') (Some (action_text action uuid status)) w"

definition is_given :: "string option \<Rightarrow> bool" where
  "is_given s \<longleftrightarrow> or_empty s \<noteq> []"

text \<open>\<open>if (!g_rt_manager) g_rt_manager = rt_init();\<close>\<close>

definition need_rt :: "'a ws_world_scheme \<Rightarrow> 'a ws_world_scheme" where
  "need_rt w = (if hw_rt_manager w then w else (rt_init w)\<lparr>hw_rt_manager := True\<rparr>)"

definition handle_bind :: "'d env \<Rightarrow> addr \<Rightarrow> ws_command \<Rightarrow> 'a ws_world_scheme \<Rightarrow> 'a ws_world_scheme" where
  "handle_bind E c req w =
     (if \<not> is_given (wc_uuid req) then event_push_json_string_to E (Some c) (Some ''error'') (Some ''Missing uuid for bind'') w
      else
        (let lib = (if is_given (wc_lib req) then or_empty (wc_lib req) else ''libsoket_demo'');
             w1 = need_rt w
         in case rt_create_task E (wc_uuid req) w1 of
              (Some a, w2) \<Rightarrow>
                (let w3 = upd_node a (\<lambda>n. n\<lparr>n_conn_id := c_id (conn_at w2 c)\<rparr>) w2
                 in case rt_start_task E (Some a) (Some lib) w3 of (ret, w4) \<Rightarrow>
                      send_event_to E c ''bind'' (wc_uuid req)
                        (Some (if ret = 0 then ''success'' else ''failed'')) w4)
            | (None, w2) \<Rightarrow>
                event_push_json_string_to E (Some c) (Some ''error'') (Some ''Failed to create task'') w2))"

definition find_task :: "string option \<Rightarrow> 'a ws_world_scheme \<Rightarrow> addr option" where
  "find_task uuid w = (if hw_rt_manager w then rt_find_task_by_uuid (or_empty uuid) w else None)"

definition handle_remove :: "'d env \<Rightarrow> addr \<Rightarrow> ws_command \<Rightarrow> 'a ws_world_scheme \<Rightarrow> 'a ws_world_scheme" where
  "handle_remove E c req w =
     (if \<not> is_given (wc_uuid req) then event_push_json_string_to E (Some c) (Some ''error'') (Some ''Missing uuid for remove'') w
      else (case find_task (wc_uuid req) w of
              Some a \<Rightarrow> send_event_to E c ''remove'' (wc_uuid req) (Some ''success'') (snd (rt_remove_task E (Some a) w))
            | None \<Rightarrow> send_event_to E c ''remove'' (wc_uuid req) (Some ''not_found'') w))"

definition handle_status :: "'d env \<Rightarrow> addr \<Rightarrow> 'a ws_world_scheme \<Rightarrow> 'a ws_world_scheme" where
  "handle_status E c w =
     (let count = (if hw_rt_manager w then rt_get_task_count w else 0)
      in event_push_with_type_to E (Some c) (Some ''realtime'')
           (Some (snprintf_buf 128 (''{\"action\":\"status\",\"count\":'' @ int_str count @ ''}''))) w)"

definition handle_msg :: "'d env \<Rightarrow> addr \<Rightarrow> ws_command \<Rightarrow> 'a ws_world_scheme \<Rightarrow> 'a ws_world_scheme" where
  "handle_msg E c req w =
     (if \<not> is_given (wc_uuid req) then event_push_json_string_to E (Some c) (Some ''error'') (Some ''Missing uuid for msg'') w
      else (case find_task (wc_uuid req) w of
              Some a \<Rightarrow> send_event_to E c ''msg'' (wc_uuid req) (Some ''sent'')
                (event_push_json_string_to E (Some c) (Some ''msg'') (Some (or_empty (wc_data req))) w)
            | None \<Rightarrow> send_event_to E c ''msg'' (wc_uuid req) (Some ''not_found'') w))"

text \<open>A call's error reply: three allocations and the time.\<close>

definition send_call_error :: "'d env \<Rightarrow> addr \<Rightarrow> string option \<Rightarrow> int \<Rightarrow> string \<Rightarrow> 'a ws_world_scheme \<Rightarrow> 'a ws_world_scheme" where
  "send_call_error E c rid code message w =
     (case ws_call_build_error (\<lambda>k. env_malloc E (w_tick w + k)) rid code (Some message) (env_time E (w_tick w + 4)) of
        (rc, resp) \<Rightarrow>
          (let w1 = w\<lparr>w_tick := w_tick w + 5\<rparr>
           in if rc = 0 then event_push_to (Some c) (rs_json resp) w1 else w1))"

definition handle_call :: "'d env \<Rightarrow> addr \<Rightarrow> string \<Rightarrow> 'a ws_world_scheme \<Rightarrow> 'a ws_world_scheme" where
  "handle_call E c data w =
     (case ws_call_parse (env_fpu E) (\<lambda>k. env_malloc E (w_tick w + k)) (Some data) 128 of (code, req, err) \<Rightarrow>
        (let w1 = w\<lparr>w_tick := w_tick w + 6\<rparr>
         in if code \<noteq> WS_CALL_OK then send_call_error E c (rq_id req) code err w1
            else (case ws_worker_submit E (c_id (conn_at w1 c)) (rq_id req) (rq_lib req) (rq_symbol req)
                         (rq_args req) (rq_timeout_ms req) w1 of (rc, w2) \<Rightarrow>
                    if rc \<noteq> 0 then send_call_error E c (rq_id req) (-6) ''worker busy'' w2 else w2)))"

section \<open>Finished calls\<close>

definition ws_call_done :: "u64 \<Rightarrow> string \<Rightarrow> 'a ws_world_scheme \<Rightarrow> 'a ws_world_scheme" where
  "ws_call_done conn_id json w =
     (case ws_conn_find conn_id w of
        (Some c, w1) \<Rightarrow> event_push_to (Some c) (Some json) w1
      | (None, w1) \<Rightarrow> w1)"

definition ws_drain_call_results :: "'a ws_world_scheme \<Rightarrow> 'a ws_world_scheme" where
  "ws_drain_call_results w = snd (ws_worker_drain (Some ws_call_done) w)"

section \<open>A message\<close>

definition echo_text :: "string \<Rightarrow> string" where
  "echo_text data =
     snprintf_buf 4224 (''{\"message\":\"'' @ event_escape_json (Some (cstr data)) 4096 @ ''\",\"len\":''
       @ nat_str (length data) @ ''}'')"

definition unknown_text :: "string \<Rightarrow> string" where
  "unknown_text cmd =
     snprintf_buf 288 (''{\"cmd\":\"'' @ event_escape_json (Some cmd) 128 @ ''\",\"status\":\"unknown\"}'')"

definition run_command :: "'d env \<Rightarrow> addr \<Rightarrow> string \<Rightarrow> ws_command \<Rightarrow> 'a ws_world_scheme \<Rightarrow> 'a ws_world_scheme" where
  "run_command E c data req w =
     (let cmd = or_empty (wc_cmd req)
      in if cmd = ''bind'' then handle_bind E c req w
         else if cmd = ''remove'' then handle_remove E c req w
         else if cmd = ''status'' then handle_status E c w
         else if cmd = ''msg'' then handle_msg E c req w
         else if cmd = ''call'' then handle_call E c data w
         else event_push_with_type_to E (Some c) (Some ''error'') (Some (unknown_text cmd)) w)"

definition handle_ws_message :: "'d env \<Rightarrow> addr \<Rightarrow> string \<Rightarrow> 'a ws_world_scheme \<Rightarrow> 'a ws_world_scheme" where
  "handle_ws_message E c data w =
     (if cstr data = ''ping'' then event_push_to (Some c) (Some ''{\"type\":\"pong\",\"timestamp\":\"now\"}'') w
      else if cstr data = ''status'' then
        event_push_with_type_to E (Some c) (Some ''system'') (Some ''{\"status\":\"running\"}'') w
      else if cat (cstr data) 0 \<noteq> CHR ''{'' then
        event_push_with_type_to E (Some c) (Some ''echo'') (Some (echo_text data)) w
      else
        (case ws_command_parse (env_malloc E (w_tick w)) (env_malloc E (w_tick w + 1)) (env_malloc E (w_tick w + 2))
                (env_malloc E (w_tick w + 3)) (Some data) 128 of (rc, req, err) \<Rightarrow>
           (let w1 = w\<lparr>w_tick := w_tick w + 4\<rparr>
            in if rc \<noteq> 0 then event_push_json_string_to E (Some c) (Some ''error'')
                                (Some (if err \<noteq> [] then err else ''missing cmd'')) w1
               else run_command E c data req w1)))"

section \<open>Events\<close>

text \<open>The events of a connection that the handlers look at; a request comes with its body.\<close>

datatype mg_event =
    MG_EV_HTTP_MSG http_message string
  | MG_EV_WS_OPEN
  | MG_EV_WS_MSG string
  | MG_EV_WS_CTL nat
  | MG_EV_POLL
  | MG_EV_CLOSE
  | MG_EV_OTHER

definition ws_welcome :: "'d env \<Rightarrow> addr \<Rightarrow> 'a ws_world_scheme \<Rightarrow> 'a ws_world_scheme" where
  "ws_welcome E c w =
     event_push_message_to E (Some c) (Some ''WebSocket client connected'')
       (event_push_with_type_to E (Some c) (Some ''system'') (Some ''{\"status\":\"online\"}'') w)"

text \<open>The same steps on an upgrade and on \<open>MG_EV_WS_OPEN\<close>.\<close>

definition ws_on_upgrade :: "'d env \<Rightarrow> addr \<Rightarrow> 'a ws_world_scheme \<Rightarrow> 'a ws_world_scheme" where
  "ws_on_upgrade E c w =
     (case ws_conn_register c w of
        (False, w1) \<Rightarrow> upd_conn c (\<lambda>x. x\<lparr>c_is_draining := True\<rparr>) w1
      | (True, w1) \<Rightarrow> ws_welcome E c (need_rt (w1\<lparr>w_ws_conn := Some c\<rparr>)))"

definition ws_ev_handler :: "'d env \<Rightarrow> addr \<Rightarrow> mg_event \<Rightarrow> 'a ws_world_scheme \<Rightarrow> 'a ws_world_scheme" where
  "ws_ev_handler E c ev w =
     (case ev of
        MG_EV_WS_OPEN \<Rightarrow> ws_on_upgrade E c w
      | MG_EV_WS_CTL fl \<Rightarrow> if fl mod 16 = 8 then ws_conn_unregister c w else w
      | MG_EV_WS_MSG data \<Rightarrow>
          if ws_message_check_size (length data) \<noteq> 0 then
            upd_conn c (\<lambda>x. x\<lparr>c_is_draining := True\<rparr>)
              (event_push_json_string_to E (Some c) (Some ''error'') (Some ''message too large'') w)
          else (case ask (env_malloc E) w of (got, w1) \<Rightarrow>
            if \<not> got then upd_conn c (\<lambda>x. x\<lparr>c_is_draining := True\<rparr>) w1
            else handle_ws_message E c data w1)
      | MG_EV_CLOSE \<Rightarrow>
          (let w1 = ws_conn_unregister c w
           in if hw_rt_manager w1 then snd (rt_remove_tasks_by_conn E (c_id (conn_at w1 c)) w1) else w1)
      | _ \<Rightarrow> w)"

end
