(* ===== verification/HandlerSse.thy ===== *)
theory HandlerSse
  imports HandlerLibary HandlerWs
begin

text \<open>
  src/handler_sse.c: the table of event-stream clients, the format of an event, fetching the next event
  from a plugin, polling, and the handler that opens a stream. Everything runs in the main
  loop's thread; a client's slot is its index in the table.
\<close>

definition SSE_MAX_CLIENTS :: nat where "SSE_MAX_CLIENTS = 32"
definition SSE_DEFAULT_INTERVAL_MS :: int where "SSE_DEFAULT_INTERVAL_MS = 200"
definition SSE_MIN_INTERVAL_MS :: int where "SSE_MIN_INTERVAL_MS = 50"
definition SSE_MAX_INTERVAL_MS :: int where "SSE_MAX_INTERVAL_MS = 5000"
definition SSE_KEEPALIVE_MS :: u64 where "SSE_KEEPALIVE_MS = 15000"
definition SSE_DATA_MAX :: nat where "SSE_DATA_MAX = 4096"
definition SSE_EVENT_BUF :: nat where "SSE_EVENT_BUF = 8192"
definition SSE_ARGS_MAX :: nat where "SSE_ARGS_MAX = 1024"
definition SSE_LIB_MAX :: nat where "SSE_LIB_MAX = 64"
definition SSE_SYMBOL_MAX :: nat where "SSE_SYMBOL_MAX = 128"

record sse_client =
  sc_c :: "addr option"
  sc_last_id :: int
  sc_last_poll_ms :: u64
  sc_last_ping_ms :: u64
  sc_interval_ms :: int
  sc_active :: bool
  sc_custom :: bool
  sc_once :: bool
  sc_done :: bool
  sc_seq :: int
  sc_lib :: string
  sc_symbol :: string
  sc_args :: string

text \<open>A slot after \<open>memset\<close>.\<close>

definition no_client :: sse_client where
  "no_client = \<lparr>sc_c = None, sc_last_id = 0, sc_last_poll_ms = 0, sc_last_ping_ms = 0, sc_interval_ms = 0,
     sc_active = False, sc_custom = False, sc_once = False, sc_done = False, sc_seq = 0, sc_lib = [],
     sc_symbol = [], sc_args = []\<rparr>"

record sse_world = ws_world +
  sse_clients :: "sse_client list"

definition upd_client :: "nat \<Rightarrow> (sse_client \<Rightarrow> sse_client) \<Rightarrow> 'a sse_world_scheme \<Rightarrow> 'a sse_world_scheme" where
  "upd_client i f w = w\<lparr>sse_clients := (sse_clients w)[i := f (sse_clients w ! i)]\<rparr>"

section \<open>Names and paths\<close>

definition sse_safe_name :: "string option \<Rightarrow> bool" where
  "sse_safe_name s =
     (case s of
        None \<Rightarrow> False
      | Some n \<Rightarrow> n \<noteq> [] \<and> list_all (\<lambda>c. isalnum c \<or> c = CHR ''_'' \<or> c = CHR ''-'') n)"

definition sse_lib_path :: "platform \<Rightarrow> fs \<Rightarrow> string \<Rightarrow> nat \<Rightarrow> string" where
  "sse_lib_path p f lib out_size =
     (case plugin_resolve_path p f (Some lib) (Some out_size) of (rc, path) \<Rightarrow>
        if rc \<noteq> 0 then snprintf_buf out_size (LIBARY_DIR p @ PATH_SEP p @ lib @ FFI_EXT p)
        else or_empty path)"

definition sse_plugin_path :: "platform \<Rightarrow> fs \<Rightarrow> nat \<Rightarrow> string" where
  "sse_plugin_path p f out_size = sse_lib_path p f ''sse_demo'' out_size"

section \<open>The table\<close>

fun find_slot :: "(sse_client \<Rightarrow> bool) \<Rightarrow> nat \<Rightarrow> sse_client list \<Rightarrow> nat option" where
  "find_slot P i [] = None"
| "find_slot P i (x # xs) = (if P x then Some i else find_slot P (Suc i) xs)"

definition sse_find :: "addr \<Rightarrow> 'a sse_world_scheme \<Rightarrow> nat option" where
  "sse_find c w = find_slot (\<lambda>x. sc_active x \<and> sc_c x = Some c) 0 (sse_clients w)"

section \<open>Events\<close>

text \<open>The return value and what \<open>out\<close> holds; \<open>out_size = None\<close> is a NULL buffer.\<close>

definition event_text :: "int \<Rightarrow> string \<Rightarrow> string \<Rightarrow> string" where
  "event_text id_val event data =
     ''id: '' @ int_str id_val @ [LF] @ ''event: '' @ event @ [LF] @ ''data: '' @ data @ [LF, LF]"

definition sse_format_event :: "nat option \<Rightarrow> int \<Rightarrow> string option \<Rightarrow> string option \<Rightarrow> int \<times> string" where
  "sse_format_event out_size id_val event data =
     (case out_size of
        None \<Rightarrow> (-1, [])
      | Some n \<Rightarrow>
          if n = 0 then (-1, [])
          else
            (let ev = (if or_empty event = [] then ''message'' else or_empty event);
                 dt = (case data of Some d \<Rightarrow> d | None \<Rightarrow> ''null'');
                 text = event_text id_val ev dt
             in if n \<le> length text then (-1, snprintf_buf n text) else (int (length text), text)))"

text \<open>An event from the plugin function that the client named.\<close>

definition sse_send_custom :: "'d env \<Rightarrow> nat \<Rightarrow> 'a sse_world_scheme \<Rightarrow> int \<times> 'a sse_world_scheme" where
  "sse_send_custom E i w =
     (let cl = sse_clients w ! i
      in case ask (env_fs E) w of (f, w1) \<Rightarrow>
        (case call_local_dyn_libffi E (Some (sse_lib_path (env_platform E) f (sc_lib cl) 512)) (Some (sc_symbol cl))
                (if sc_args cl \<noteq> [] then Some (sc_args cl) else None) w1 of ((rc, out), w2) \<Rightarrow>
           (case out of
              None \<Rightarrow> (-1, w2)
            | Some json_out \<Rightarrow>
                if rc \<noteq> 0 then (-1, w2)
                else
                  (let id_val = sc_seq cl + 1;
                       w3 = upd_client i (\<lambda>x. x\<lparr>sc_seq := id_val\<rparr>) w2
                   in case sse_format_event (Some SSE_EVENT_BUF) id_val (Some (sc_symbol cl))
                             (Some (take (SSE_DATA_MAX - 1) json_out)) of (n, buf) \<Rightarrow>
                        if 0 < n
                        then (n, (if sc_once cl then upd_client i (\<lambda>x. x\<lparr>sc_done := True\<rparr>) else id)
                                   (mg_send (the (sc_c cl)) buf w3))
                        else (-1, w3)))))"

text \<open>The data of a demo event: the token as it stands, at most 4095 bytes, \<open>null\<close> when there is none.\<close>

definition demo_data :: "string \<Rightarrow> string" where
  "demo_data out =
     (let d = take (SSE_DATA_MAX - 1) (or_empty (mg_json_get_tok out ''$.data''))
      in if d = [] then ''null'' else d)"

definition sse_send_event :: "'d env \<Rightarrow> nat \<Rightarrow> 'a sse_world_scheme \<Rightarrow> int \<times> 'a sse_world_scheme" where
  "sse_send_event E i w =
     (let cl = sse_clients w ! i
      in if sc_done cl then (0, w)
         else if sc_custom cl then sse_send_custom E i w
         else (case ask (env_fs E) w of (f, w1) \<Rightarrow>
           (case call_local_dyn_libffi E (Some (sse_plugin_path (env_platform E) f 512)) (Some ''sse_next'')
                   (Some (snprintf_buf 64 (''{\"after_id\":'' @ int_str (sc_last_id cl) @ ''}''))) w1 of ((rc, out), w2) \<Rightarrow>
              (case out of
                 None \<Rightarrow> (-1, w2)
               | Some json_out \<Rightarrow>
                   if rc \<noteq> 0 then (-1, w2)
                   else
                     (let id_val = mg_json_get_long (env_fpu E) json_out ''$.id'' 0
                      in if id_val \<le> sc_last_id cl then (0, w2)
                         else (case ask (env_malloc E) w2 of (got, w3) \<Rightarrow>
                           (let event = mg_json_get_str got json_out ''$.event''
                            in case sse_format_event (Some SSE_EVENT_BUF) id_val
                                      (Some (case event of Some e \<Rightarrow> e | None \<Rightarrow> ''message''))
                                      (Some (demo_data json_out)) of (n, buf) \<Rightarrow>
                                 if 0 < n
                                 then (n, upd_client i (\<lambda>x. x\<lparr>sc_last_id := id_val\<rparr>) (mg_send (the (sc_c cl)) buf w3))
                                 else (-1, w3))))))))"

section \<open>Polling and closing\<close>

definition sse_ping :: string where
  "sse_ping = take 7 ('': ping'' @ [LF, LF])"

definition sse_on_poll :: "'d env \<Rightarrow> addr \<Rightarrow> 'a sse_world_scheme \<Rightarrow> 'a sse_world_scheme" where
  "sse_on_poll E c w =
     (case sse_find c w of
        None \<Rightarrow> w
      | Some i \<Rightarrow>
          (case ask (env_millis E) w of (now, w1) \<Rightarrow>
             (let cl = sse_clients w ! i;
                  w2 = (if of_int (sc_interval_ms cl) \<le> now - sc_last_poll_ms cl
                        then snd (sse_send_event E i (upd_client i (\<lambda>x. x\<lparr>sc_last_poll_ms := now\<rparr>) w1))
                        else w1)
              in if SSE_KEEPALIVE_MS \<le> now - sc_last_ping_ms (sse_clients w2 ! i)
                 then mg_send c sse_ping (upd_client i (\<lambda>x. x\<lparr>sc_last_ping_ms := now\<rparr>) w2)
                 else w2)))"

definition sse_on_close :: "addr \<Rightarrow> 'a sse_world_scheme \<Rightarrow> 'a sse_world_scheme" where
  "sse_on_close c w =
     (case sse_find c w of None \<Rightarrow> w | Some i \<Rightarrow> upd_client i (\<lambda>_. no_client) w)"

section \<open>Opening a stream\<close>

text \<open>A variable of the query, with a default; the buffer is \<open>tmp\<close>, the destination smaller.\<close>

definition query_text :: "http_message \<Rightarrow> string \<Rightarrow> nat \<Rightarrow> string \<Rightarrow> string" where
  "query_text hm name n dflt =
     (case mg_http_get_var (hm_query hm) name SSE_ARGS_MAX of (rc, tmp) \<Rightarrow>
        if 0 < rc then snprintf_buf n (cstr tmp) else dflt)"

definition query_int :: "http_message \<Rightarrow> string \<Rightarrow> nat \<Rightarrow> int option" where
  "query_int hm name n =
     (case mg_http_get_var (hm_query hm) name n of (rc, buf) \<Rightarrow>
        if 0 < rc then Some (atoi (cstr buf)) else None)"

definition wanted_interval :: "http_message \<Rightarrow> int" where
  "wanted_interval hm =
     (case query_int hm ''interval_ms'' 32 of
        None \<Rightarrow> SSE_DEFAULT_INTERVAL_MS
      | Some v \<Rightarrow>
          (let v1 = (if v < SSE_MIN_INTERVAL_MS then SSE_MIN_INTERVAL_MS else v)
           in if SSE_MAX_INTERVAL_MS < v1 then SSE_MAX_INTERVAL_MS else v1))"

definition resume_id :: "http_message \<Rightarrow> int" where
  "resume_id hm =
     (case mg_http_get_header (hm_headers hm) ''Last-Event-ID'' of
        None \<Rightarrow> 0
      | Some h \<Rightarrow> if h = [] then 0
                  else (let v = fst (strtol10 (cbuf 32 h)) in if v < 0 then 0 else v))"

definition SSE_HEAD :: string where
  "SSE_HEAD =
     ''HTTP/1.1 200 OK'' @ CRLF @ ''Content-Type: text/event-stream'' @ CRLF @ ''Cache-Control: no-cache'' @ CRLF
     @ ''Connection: keep-alive'' @ CRLF @ ''X-Accel-Buffering: no'' @ CRLF
     @ ''Access-Control-Allow-Origin: *'' @ CRLF @ CRLF"

definition new_client :: "addr \<Rightarrow> http_message \<Rightarrow> string \<Rightarrow> string \<Rightarrow> u64 \<Rightarrow> u64 \<Rightarrow> sse_client" where
  "new_client c hm lib symbol poll_ms ping_ms =
     \<lparr>sc_c = Some c, sc_last_id = resume_id hm, sc_last_poll_ms = poll_ms, sc_last_ping_ms = ping_ms,
      sc_interval_ms = wanted_interval hm, sc_active = True,
      sc_custom = (\<not> (lib = ''sse_demo'' \<and> symbol = ''sse_next'')),
      sc_once = (case query_int hm ''once'' 8 of Some v \<Rightarrow> v \<noteq> 0 | None \<Rightarrow> False),
      sc_done = False, sc_seq = 0, sc_lib = lib, sc_symbol = symbol,
      sc_args = query_text hm ''args'' SSE_ARGS_MAX []\<rparr>"

definition sse_open :: "'d env \<Rightarrow> addr \<Rightarrow> http_message \<Rightarrow> 'a sse_world_scheme \<Rightarrow> 'a sse_world_scheme" where
  "sse_open E c hm w =
     (let lib = query_text hm ''lib'' SSE_LIB_MAX ''sse_demo'';
          symbol = query_text hm ''symbol'' SSE_SYMBOL_MAX ''sse_next''
      in if hm_method hm \<noteq> ''GET'' then reply_json c 405 (error_json 405 ''Method Not Allowed'') w
         else if \<not> sse_safe_name (Some lib) \<or> \<not> sse_safe_name (Some symbol)
         then reply_json c 400 (error_json 400 ''Invalid lib or symbol'') w
         else (case ask (env_fs E) w of (f, w1) \<Rightarrow>
           (case ask (env_fopen E) w1 of (fo, w2) \<Rightarrow>
             if \<not> fo (sse_lib_path (env_platform E) f lib 512)
             then reply_json c 503 (error_json 503 ''SSE plugin unavailable'') w2
             else (case find_slot (\<lambda>x. \<not> sc_active x) 0 (sse_clients w2) of
                     None \<Rightarrow> reply_json c 503 (error_json 503 ''Too many SSE clients'') w2
                   | Some slot \<Rightarrow>
                       (case ask2 (env_millis E) (mg_send c SSE_HEAD w2) of (poll_ms, ping_ms, w3) \<Rightarrow>
                          snd (sse_send_event E slot
                                (upd_client slot (\<lambda>_. new_client c hm lib symbol poll_ms ping_ms) w3)))))))"

definition ev_handler_sse :: "'d env \<Rightarrow> addr \<Rightarrow> mg_event \<Rightarrow> 'a sse_world_scheme \<Rightarrow> 'a sse_world_scheme" where
  "ev_handler_sse E c ev w =
     (case ev of
        MG_EV_HTTP_MSG hm body \<Rightarrow> sse_open E c hm w
      | MG_EV_POLL \<Rightarrow> sse_on_poll E c w
      | MG_EV_CLOSE \<Rightarrow> sse_on_close c w
      | _ \<Rightarrow> w)"

end
