(* ===== verification/HandlerWsProofs.thy ===== *)
theory HandlerWsProofs
  imports HandlerWs
begin

text \<open>
  Lemmas about src/handler_ws.c: to whom each operation of the server sends something (\<open>touches\<close>), what
  the connection table holds (\<open>table_ok\<close>), and the properties of the WebSocket handler.
\<close>

section \<open>Who receives something\<close>

text \<open>
  \<open>touches S w w'\<close>: from w to w' only connections of S were sent anything; no connection appears,
  disappears or changes its flags, and the table, \<open>g_ws_conn\<close> and the variables of later components are
  as before.
\<close>

definition touches :: "addr set \<Rightarrow> 'a ws_world_scheme \<Rightarrow> 'a ws_world_scheme \<Rightarrow> bool" where
  "touches S w w' \<longleftrightarrow> dom (w_conns w') = dom (w_conns w) \<and> w_ws_conn w' = w_ws_conn w
     \<and> hw_conns w' = hw_conns w \<and> ws_world.more w' = ws_world.more w \<and> (\<forall>a. flags (conn_at w' a) = flags (conn_at w a))
     \<and> (\<forall>a. a \<notin> S \<longrightarrow> sent w' a = sent w a)"

text \<open>Neither the connections nor the table nor \<open>g_ws_conn\<close> changed at all.\<close>

definition same_net :: "'a ws_world_scheme \<Rightarrow> 'a ws_world_scheme \<Rightarrow> bool" where
  "same_net w w' \<longleftrightarrow> w_conns w' = w_conns w \<and> w_ws_conn w' = w_ws_conn w \<and> hw_conns w' = hw_conns w
     \<and> ws_world.more w' = ws_world.more w"

lemma touches_refl [simp]: "touches S w w"
  by (simp add: touches_def)

lemma touches_trans: "touches S w v \<Longrightarrow> touches S v u \<Longrightarrow> touches S w u"
  by (simp add: touches_def)

lemma touches_same: "same_net w w' \<Longrightarrow> touches S w w'"
  by (simp add: touches_def same_net_def conn_at_def sent_def)

lemma touches_tick [simp]: "touches S w (w\<lparr>w_tick := n\<rparr>)"
  by (rule touches_same) (simp add: same_net_def)

lemma more_hw:
  "rt_world.more w' = rt_world.more w \<Longrightarrow> hw_conns w' = hw_conns w \<and> ws_world.more w' = ws_world.more w"
  by (cases w; cases w') simp

lemma touches_keeps:
  assumes "keeps w w'" "\<And>a. a \<notin> S \<Longrightarrow> sent w' a = sent w a"
  shows "touches S w w'"
  using assms more_hw [of w' w] keeps_rt(7) [OF assms(1)] by (simp add: touches_def keeps_def)

lemma push_ws_others: "a \<noteq> c \<Longrightarrow> sent (push_ws c d w) a = sent w a"
  using push_ws_sent(2) by blast

lemma touches_push_to: "touches {c} w (event_push_to (Some c) d w)"
  by (rule touches_keeps [OF keeps_event_push_to]) (simp add: event_push_to_def push_ws_others split: option.splits)

lemma touches_push:
  assumes "set_option (w_ws_conn w) \<subseteq> S"
  shows "touches S w (event_push E d w)"
proof (rule touches_keeps [OF keeps_event_push])
  fix a assume "a \<notin> S"
  with assms have "w_ws_conn w = Some c \<Longrightarrow> a \<noteq> c" for c by auto
  then show "sent (event_push E d w) a = sent w a"
    by (simp add: event_push_def Let_def push_ws_others split: option.splits)
qed

lemma touches_formatted_to: "touches {c} w (formatted r (event_push_to (Some c)) (w\<lparr>w_tick := n\<rparr>))"
proof -
  have "touches {c} w (event_push_to (Some c) d (w\<lparr>w_tick := n\<rparr>))" for d
    by (rule touches_trans [OF touches_tick touches_push_to])
  then show ?thesis by (simp add: formatted_def split: prod.splits option.splits)
qed

lemma touches_pushes_to:
  "touches {c} w (event_push_with_type_to E (Some c) ty d w)"
  "touches {c} w (event_push_message_to E (Some c) d w)"
  "touches {c} w (event_push_json_string_to E (Some c) ty d w)"
  by (simp_all add: event_push_with_type_to_def event_push_message_to_def event_push_json_string_to_def
      ask_def ask2_def ask3_def touches_formatted_to)

lemma touches_push_with_type:
  assumes "set_option (w_ws_conn w) \<subseteq> S"
  shows "touches S w (event_push_with_type E ty d w)"
proof -
  have "touches S w (event_push E x (w\<lparr>w_tick := n\<rparr>))" for x n
    using assms by (intro touches_trans [OF touches_tick touches_push]) simp
  then show ?thesis
    by (simp add: event_push_with_type_def ask_def ask2_def formatted_def split: prod.splits option.splits)
qed

lemma touches_rt_event:
  assumes "set_option (w_ws_conn w) \<subseteq> S"
  shows "touches S w (send_rt_event E a u s w)"
  using touches_push_with_type [OF assms] by (simp add: send_rt_event_def)

section \<open>What the operations of the other components touch\<close>

lemma touches_then_event:
  assumes "touches S w v" "set_option (w_ws_conn w) \<subseteq> S"
  shows "touches S w (send_rt_event E a u s v)"
  using assms by (intro touches_trans [OF assms(1) touches_rt_event]) (simp add: touches_def)

lemma touches_same_event:
  assumes "same_net w v" "set_option (w_ws_conn w) \<subseteq> S"
  shows "touches S w (send_rt_event E a u s v)"
  using touches_then_event [OF touches_same [OF assms(1)] assms(2)] .

lemma touches_create_task:
  assumes "set_option (w_ws_conn w) \<subseteq> S"
  shows "touches S w (snd (rt_create_task E u w))"
  unfolding rt_create_task_def gen_id_def ask_def ask2_def Let_def
  by (simp add: same_net_def touches_same touches_same_event assms split: option.splits)

lemma touches_start_socket: "touches S w (snd (start_socket E a n w))"
  by (rule touches_same)
     (auto simp: same_net_def start_socket_def nng_pub0_open_def nng_listen_def nng_close_def ask_def upd_node_def Let_def
       split: prod.splits)

lemma touches_dl:
  assumes "dl_keeps w w'"
  shows "touches S w w'"
  using more_hw [of w' w] dl_keeps_rt(6) [OF assms] dl_keepsD(1,3) [OF assms]
  by (intro touches_same) (simp add: same_net_def)

lemma touches_upd_node: "touches S w (upd_node a f w)"
  by (rule touches_same) (simp add: same_net_def upd_node_def)

lemma touches_start_task:
  assumes "set_option (w_ws_conn w) \<subseteq> S"
  shows "touches S w (snd (rt_start_task E t l w))"
proof -
  have sock: "touches S w w1" if "start_socket E a n w = (ok, w1)" for a n ok w1
    using touches_start_socket [of S w E a n] that by simp
  have dl: "touches S v v'" if "call_local_dyn_socklibffi E x y v = (r, v')" for x y v r v'
  proof -
    have "touches S v (snd (call_local_dyn_socklibffi E x y v))" by (rule touches_dl [OF dl_keeps_sock])
    with that show ?thesis by simp
  qed
  show ?thesis
    by (auto simp: rt_start_task_def ask_def split: option.splits prod.splits
        intro!: touches_then_event assms touches_trans [OF _ touches_upd_node] touches_trans [OF _ touches_tick]
        intro: touches_trans [OF sock dl] sock)
qed

lemma touches_remove_task:
  assumes "set_option (w_ws_conn w) \<subseteq> S"
  shows "touches S w (snd (rt_remove_task E t w))"
proof -
  have r: "touches S w (v\<lparr>rt_called := cs\<rparr>)" if "touches S w v" for v cs
    using touches_trans [OF that touches_same, of "v\<lparr>rt_called := cs\<rparr>"] by (simp add: same_net_def)
  have n: "touches S w (nng_close s (w\<lparr>rt_tasks := ts, rt_count := c\<rparr>))" "touches S w (w\<lparr>rt_tasks := ts, rt_count := c\<rparr>)" for s ts c
    by (rule touches_same, simp add: same_net_def nng_close_def)+
  show ?thesis
    by (auto simp: rt_remove_task_def close_node_def Let_def split: option.splits
        intro!: r touches_then_event assms n)
qed

lemma touches_remove_victims:
  assumes "set_option (w_ws_conn w) \<subseteq> S"
  shows "touches S w (snd (remove_victims E vs w))"
  using assms
proof (induction vs arbitrary: w)
  case Nil
  then show ?case by simp
next
  case (Cons a vs)
  obtain rc w1 where r: "rt_remove_task E (Some a) w = (rc, w1)" by (cases "rt_remove_task E (Some a) w")
  then have t: "touches S w w1" using touches_remove_task [OF Cons.prems, of E "Some a"] by simp
  then have "w_ws_conn w1 = w_ws_conn w" by (simp add: touches_def)
  with Cons.IH [of w1] Cons.prems t have "touches S w (snd (remove_victims E vs w1))"
    by (auto intro: touches_trans)
  with r show ?case by (cases "remove_victims E vs w1") simp
qed

lemma touches_remove_by_conn:
  assumes "set_option (w_ws_conn w) \<subseteq> S"
  shows "touches S w (snd (rt_remove_tasks_by_conn E cid w))"
proof -
  obtain vs n where v: "collect_victims E cid (rt_tasks w) 0 0 w = (vs, w\<lparr>w_tick := n\<rparr>)"
    using collect_victims_tick [of E cid "rt_tasks w" 0 0 w] by (metis prod.collapse)
  have "touches S (w\<lparr>w_tick := n\<rparr>) (snd (remove_victims E vs (w\<lparr>w_tick := n\<rparr>)))"
    using assms by (intro touches_remove_victims) simp
  with v show ?thesis using touches_trans [OF touches_tick] by (simp add: rt_remove_tasks_by_conn_def)
qed

lemma same_net_refl [simp]: "same_net w w"
  by (simp add: same_net_def)

lemma same_net_submit: "same_net w (snd (ws_worker_submit E c i l s a tmo w))"
proof -
  have i: "same_net w (snd (ws_worker_init E w))" for w :: "'a ws_world_scheme"
  proof -
    let ?w = "w\<lparr>wk_running := True, wk_inited := True, wk_stats := no_stats\<rparr>"
    obtain k m where "create_threads E WS_WORKER_THREADS ?w = ?w\<lparr>w_tick := m,
        wk_thread_count := wk_thread_count ?w + k, wk_pcs := wk_pcs ?w @ replicate k Idle\<rparr>"
      using create_threads_effect [of WS_WORKER_THREADS E ?w] by blast
    then show ?thesis by (simp add: ws_worker_init_def Let_def same_net_def)
  qed
  have n: "same_net w (snd (new_job E c i' l' s' a tmo w))" for i' l' s' and w :: "'a ws_world_scheme"
    using new_job_tick [of E c i' l' s' a tmo w] by (auto simp: same_net_def)
  have q: "same_net w (snd (enqueue_job j w))" for j and w :: "'a ws_world_scheme"
    by (simp add: enqueue_job_def Let_def same_net_def)
  show ?thesis
  proof (cases "i = None \<or> l = None \<or> s = None")
    case True
    then show ?thesis by (auto simp: ws_worker_submit_def split: option.splits)
  next
    case False
    then obtain i' l' s' where some: "i = Some i'" "l = Some l'" "s = Some s'" by auto
    obtain rc1 w1 where w1: "ws_worker_init E w = (rc1, w1)" by (cases "ws_worker_init E w")
    obtain jo w2 where w2: "new_job E c i' l' s' a tmo w1 = (jo, w2)" by (cases "new_job E c i' l' s' a tmo w1")
    have "same_net w w1" "same_net w1 w2" using i [of w] w1 n [of w1 i' l' s'] w2 by simp_all
    with q [of w2] some w1 w2 show ?thesis
      by (cases jo) (simp_all add: ws_worker_submit_def same_net_def)
  qed
qed

lemma touches_mono: "touches S w w' \<Longrightarrow> S \<subseteq> T \<Longrightarrow> touches T w w'"
  by (auto simp: touches_def)

section \<open>What a message touches\<close>

text \<open>The connection itself and the one that receives the broadcasts.\<close>

definition audience :: "addr \<Rightarrow> 'a ws_world_scheme \<Rightarrow> addr set" where
  "audience c w = insert c (set_option (w_ws_conn w))"

lemma audience_same: "touches S w w' \<Longrightarrow> audience c w' = audience c w"
  by (simp add: touches_def audience_def)

lemma touches_to:
  assumes "touches {c} w w'"
  shows "touches (audience c v) w w'"
  using assms by (rule touches_mono) (simp add: audience_def)

lemma touches_event_to: "touches {c} w (send_event_to E c a u s w)"
  by (simp add: send_event_to_def touches_pushes_to)

lemma touches_need_rt: "touches S w (need_rt w)"
  by (rule touches_same) (simp add: same_net_def need_rt_def rt_init_def)

lemma touches_then_to:
  assumes "touches (audience c w) w v"
  shows "touches (audience c w) w (send_event_to E c a u s v)"
    and "touches (audience c w) w (event_push_json_string_to E (Some c) ty d v)"
    and "touches (audience c w) w (event_push_with_type_to E (Some c) ty d v)"
  by (rule touches_trans [OF assms touches_to], rule touches_event_to touches_pushes_to)+

lemma touches_bind: "touches (audience c w) w (handle_bind E c req w)"
proof -
  have S: "set_option (w_ws_conn v) \<subseteq> audience c w" if "touches T w v" for T v
    using that by (auto simp: touches_def audience_def)
  let ?w1 = "need_rt w"
  obtain t w2 where c: "rt_create_task E (wc_uuid req) ?w1 = (t, w2)" by (cases "rt_create_task E (wc_uuid req) ?w1")
  have "touches (audience c w) ?w1 w2"
    using touches_create_task [OF S [OF touches_need_rt], of E "wc_uuid req"] c by simp
  then have w2: "touches (audience c w) w w2" by (rule touches_trans [OF touches_need_rt])
  have start: "touches (audience c w) w w4" if "rt_start_task E t l (upd_node a f w2) = (ret, w4)" for t l a f ret w4
  proof -
    have u: "touches (audience c w) w (upd_node a f w2)" by (rule touches_trans [OF w2 touches_upd_node])
    from touches_start_task [OF S [OF u], of E t l] that have "touches (audience c w) (upd_node a f w2) w4" by simp
    then show ?thesis by (rule touches_trans [OF u])
  qed
  show ?thesis
    using w2 start
    by (auto simp: handle_bind_def c Let_def split: option.split prod.split intro!: touches_then_to)
qed

lemma touches_remove: "touches (audience c w) w (handle_remove E c req w)"
proof -
  have "touches (audience c w) w (snd (rt_remove_task E t w))" for t
    by (rule touches_remove_task) (auto simp: audience_def)
  then show ?thesis
    by (auto simp: handle_remove_def split: option.split intro!: touches_then_to)
qed

lemma touches_status: "touches (audience c w) w (handle_status E c w)"
  by (simp add: handle_status_def Let_def touches_then_to)

lemma touches_msg: "touches (audience c w) w (handle_msg E c req w)"
  by (auto simp: handle_msg_def split: option.split intro!: touches_then_to)

lemma touches_call_error: "touches {c} w (send_call_error E c rid code msg w)"
proof -
  have "touches {c} w (event_push_to (Some c) d (w\<lparr>w_tick := n\<rparr>))" for d n
    by (rule touches_trans [OF touches_tick touches_push_to])
  then show ?thesis by (simp add: send_call_error_def Let_def split: prod.split)
qed

lemma touches_call: "touches {c} w (handle_call E c data w)"
proof -
  have sub: "touches {c} w v"
    if "ws_worker_submit E i a b s x y (w\<lparr>w_tick := n\<rparr>) = (rc, v)" for i a b s x y n rc v
    using touches_trans [OF touches_tick touches_same [OF same_net_submit [of "w\<lparr>w_tick := n\<rparr>" E i a b s x y]]] that
    by simp
  show ?thesis
    by (auto simp: handle_call_def Let_def split: prod.split intro!: touches_trans [OF _ touches_call_error] dest: sub)
qed

lemma touches_message: "touches (audience c w) w (handle_ws_message E c data w)"
proof -
  have run: "touches (audience c w) (w\<lparr>w_tick := n\<rparr>) (run_command E c data req (w\<lparr>w_tick := n\<rparr>))" for n req
  proof -
    have a: "audience c (w\<lparr>w_tick := n\<rparr>) = audience c w" by (simp add: audience_def)
    note touches_bind [of c "w\<lparr>w_tick := n\<rparr>" E req] touches_remove [of c "w\<lparr>w_tick := n\<rparr>" E req]
      touches_status [of c "w\<lparr>w_tick := n\<rparr>" E] touches_msg [of c "w\<lparr>w_tick := n\<rparr>" E req]
      touches_to [OF touches_call, of c w "w\<lparr>w_tick := n\<rparr>" E data]
      touches_to [OF touches_pushes_to(1), of c w "w\<lparr>w_tick := n\<rparr>" E]
    then show ?thesis by (simp add: run_command_def Let_def a)
  qed
  have push: "touches (audience c w) w (event_push_to (Some c) d w)" for d
    by (rule touches_to) (rule touches_push_to)
  show ?thesis
    using touches_trans [OF touches_tick run] push
    by (auto simp: handle_ws_message_def Let_def split: prod.split intro!: touches_then_to)
qed

section \<open>The table\<close>

definition used :: "addr option list \<Rightarrow> addr set" where
  "used xs = {a. Some a \<in> set xs}"

definition table_ok :: "'a ws_world_scheme \<Rightarrow> bool" where
  "table_ok w \<longleftrightarrow> length (hw_conns w) = WS_MAX_CONNS \<and> distinct (filter (\<lambda>x. x \<noteq> None) (hw_conns w))
     \<and> used (hw_conns w) \<subseteq> dom (w_conns w) \<and> set_option (w_ws_conn w) \<subseteq> dom (w_conns w)"

lemma used_simps [simp]:
  "used [] = {}" "used (None # xs) = used xs" "used (Some a # xs) = insert a (used xs)"
  by (auto simp: used_def)

lemma in_used: "Some a \<in> set xs \<longleftrightarrow> a \<in> used xs"
  by (simp add: used_def)

lemma distinct_used_Cons:
  "distinct (filter (\<lambda>x. x \<noteq> None) (Some a # xs)) \<longleftrightarrow> a \<notin> used xs \<and> distinct (filter (\<lambda>x. x \<noteq> None) xs)"
  by (auto simp: used_def)

lemma register_scan_props:
  assumes "register_scan closing c xs = (ys, ok)" "distinct (filter (\<lambda>x. x \<noteq> None) xs)"
  shows "length ys = length xs \<and> used ys \<subseteq> used xs \<and> distinct (filter (\<lambda>x. x \<noteq> None) ys)
    \<and> (ok \<longleftrightarrow> c \<in> used xs) \<and> (ok \<longrightarrow> c \<in> used ys) \<and> {a \<in> used xs. \<not> closing a} \<subseteq> used ys
    \<and> (\<not> ok \<longrightarrow> (\<forall>a \<in> used ys. \<not> closing a))"
  using assms
proof (induction xs arbitrary: ys ok)
  case Nil
  then show ?case by simp
next
  case (Cons x xs)
  obtain zs ok1 where r: "register_scan closing c xs = (zs, ok1)" by (cases "register_scan closing c xs")
  show ?case
  proof (cases x)
    case None
    with Cons r show ?thesis by (auto split: if_splits)
  next
    case (Some a)
    with Cons.prems(2) have d: "a \<notin> used xs" "distinct (filter (\<lambda>x. x \<noteq> None) xs)"
      unfolding Some distinct_used_Cons by simp_all
    note IH = Cons.IH [OF r d(2)]
    show ?thesis
    proof (cases "a = c")
      case True
      with Some Cons.prems show ?thesis by auto
    next
      case False
      with Cons.prems(1) r Some IH d(1) show ?thesis
        by (auto simp: in_used split: if_splits)
    qed
  qed
qed

lemma fill_first_props:
  assumes "fill_first c xs = (ys, ok)" "c \<notin> used xs" "distinct (filter (\<lambda>x. x \<noteq> None) xs)"
  shows "length ys = length xs \<and> distinct (filter (\<lambda>x. x \<noteq> None) ys) \<and> (ok \<longleftrightarrow> None \<in> set xs)
    \<and> used ys = (if ok then insert c (used xs) else used xs)"
  using assms
proof (induction c xs arbitrary: ys ok rule: fill_first.induct)
  case (3 c a xs)
  obtain zs ok1 where r: "fill_first c xs = (zs, ok1)" by (cases "fill_first c xs")
  have d: "a \<notin> used xs" "distinct (filter (\<lambda>x. x \<noteq> None) xs)" "c \<notin> used xs" "c \<noteq> a"
    using "3.prems"(2,3) unfolding distinct_used_Cons by simp_all
  have "ys = Some a # zs" "ok = ok1" using "3.prems"(1) r by simp_all
  with "3.IH" [OF r d(3,2)] d show ?case by (simp add: in_used) blast
qed (simp_all add: in_used)

lemma register_props:
  assumes "table_ok w" "ws_conn_register c w = (ok, w')"
  shows "\<exists>ys. w' = w\<lparr>hw_conns := ys\<rparr> \<and> length ys = WS_MAX_CONNS \<and> distinct (filter (\<lambda>x. x \<noteq> None) ys)
    \<and> used ys \<subseteq> insert c (used (hw_conns w)) \<and> (ok \<longleftrightarrow> c \<in> used ys)
    \<and> {a \<in> used (hw_conns w). \<not> c_is_closing (conn_at w a)} \<subseteq> used ys
    \<and> (c \<in> used (hw_conns w) \<longrightarrow> ok)
    \<and> (\<not> ok \<longrightarrow> None \<notin> set ys \<and> (\<forall>a \<in> used ys. \<not> c_is_closing (conn_at w a)) \<and> used ys \<subseteq> used (hw_conns w))"
proof -
  let ?cl = "\<lambda>a. c_is_closing (conn_at w a)"
  obtain xs ok1 where r: "register_scan ?cl c (hw_conns w) = (xs, ok1)" by (cases "register_scan ?cl c (hw_conns w)")
  have d: "distinct (filter (\<lambda>x. x \<noteq> None) (hw_conns w))" "length (hw_conns w) = WS_MAX_CONNS"
    using assms(1) unfolding table_ok_def by blast+
  note P = register_scan_props [OF r d(1)]
  show ?thesis
  proof (cases ok1)
    case True
    with assms(2) r have "w' = w\<lparr>hw_conns := xs\<rparr>" ok by (simp_all add: ws_conn_register_def)
    with P True d(2) show ?thesis by (intro exI [of _ xs]) auto
  next
    case False
    obtain ys ok2 where f: "fill_first c xs = (ys, ok2)" by (cases "fill_first c xs")
    with assms(2) r False have w': "w' = w\<lparr>hw_conns := ys\<rparr>" "ok = ok2" by (simp_all add: ws_conn_register_def)
    have "c \<notin> used xs" "distinct (filter (\<lambda>x. x \<noteq> None) xs)" using P False by auto
    note F = fill_first_props [OF f this]
    have "\<not> ok2 \<Longrightarrow> ys = xs"
    proof -
      assume "\<not> ok2"
      have "\<not> snd (fill_first c xs) \<Longrightarrow> fst (fill_first c xs) = xs"
        by (induction c xs rule: fill_first.induct) (auto split: prod.splits)
      with f \<open>\<not> ok2\<close> show ?thesis by simp
    qed
    with P F False w' d(2) show ?thesis by (intro exI [of _ ys]) (auto split: if_splits)
  qed
qed

lemma table_ok_touches: "touches S w w' \<Longrightarrow> table_ok w' \<longleftrightarrow> table_ok w"
  by (simp add: touches_def table_ok_def)

lemma table_ok_same_net: "same_net w w' \<Longrightarrow> table_ok w' \<longleftrightarrow> table_ok w"
  by (simp add: same_net_def table_ok_def)

lemma table_ok_flag [simp]: "table_ok (upd_conn c f w) \<longleftrightarrow> table_ok w"
proof -
  have "hw_conns (upd_conn c f w) = hw_conns w" by (simp add: upd_conn_def)
  then show ?thesis by (simp add: table_ok_def)
qed

lemma table_ok_set_conn:
  "table_ok w \<Longrightarrow> c \<in> dom (w_conns w) \<Longrightarrow> table_ok (w\<lparr>w_ws_conn := Some c\<rparr>)"
  by (simp add: table_ok_def)

lemma table_ok_register:
  assumes "table_ok w" "c \<in> dom (w_conns w)" "ws_conn_register c w = (ok, w')"
  shows "table_ok w'" "w_conns w' = w_conns w"
proof -
  obtain ys where ys: "w' = w\<lparr>hw_conns := ys\<rparr>" "length ys = WS_MAX_CONNS" "distinct (filter (\<lambda>x. x \<noteq> None) ys)"
    "used ys \<subseteq> insert c (used (hw_conns w))" using register_props [OF assms(1,3)] by blast
  have "used ys \<subseteq> dom (w_conns w)" using ys(4) assms(1,2) unfolding table_ok_def by blast
  with ys assms(1) show "table_ok w'" "w_conns w' = w_conns w" by (simp_all add: table_ok_def)
qed

lemma used_map_remove: "used (map (\<lambda>x. if x = Some c then None else x) xs) = used xs - {c}"
  by (auto simp: used_def image_iff)

lemma distinct_map_remove:
  "distinct (filter (\<lambda>x. x \<noteq> None) xs) \<Longrightarrow>
   distinct (filter (\<lambda>x. x \<noteq> None) (map (\<lambda>x. if x = Some c then None else x) xs))"
  by (induction xs) (auto simp: image_iff)

lemma last_conn_used:
  assumes "last_conn xs = Some a"
  shows "a \<in> used xs"
proof -
  obtain ys where "dropWhile (\<lambda>x. x = None) (rev xs) = Some a # ys"
    using assms by (auto simp: last_conn_def split: list.splits)
  then have "Some a \<in> set (dropWhile (\<lambda>x. x = None) (rev xs))" by simp
  then show ?thesis unfolding used_def by (auto dest: set_dropWhileD)
qed

lemma table_ok_unregister:
  assumes "table_ok w"
  shows "table_ok (ws_conn_unregister c w) \<and> c \<notin> used (hw_conns (ws_conn_unregister c w))
    \<and> w_ws_conn (ws_conn_unregister c w) \<noteq> Some c \<and> w_conns (ws_conn_unregister c w) = w_conns w
    \<and> used (hw_conns (ws_conn_unregister c w)) = used (hw_conns w) - {c}
    \<and> (w_ws_conn w \<noteq> Some c \<longrightarrow> w_ws_conn (ws_conn_unregister c w) = w_ws_conn w)
    \<and> set_option (w_ws_conn (ws_conn_unregister c w)) \<subseteq> set_option (w_ws_conn w) \<union> used (hw_conns w)"
proof -
  let ?xs = "map (\<lambda>x. if x = Some c then None else x) (hw_conns w)"
  have u: "used ?xs = used (hw_conns w) - {c}" by (rule used_map_remove)
  have l: "last_conn ?xs = Some a \<Longrightarrow> a \<in> used (hw_conns w) - {c}" for a
    using last_conn_used [of ?xs a] unfolding u by blast
  have "distinct (filter (\<lambda>x. x \<noteq> None) ?xs)"
    using assms by (intro distinct_map_remove) (simp add: table_ok_def)
  with assms u l show ?thesis
    by (cases "last_conn ?xs") (auto simp: ws_conn_unregister_def Let_def table_ok_def)
qed

lemma find_scan_props:
  assumes "find_scan look cid xs = (ys, r)"
  shows "length ys = length xs \<and> used ys \<subseteq> used xs
    \<and> (distinct (filter (\<lambda>x. x \<noteq> None) xs) \<longrightarrow> distinct (filter (\<lambda>x. x \<noteq> None) ys))
    \<and> {a \<in> used xs. \<not> c_is_closing (look a)} \<subseteq> used ys
    \<and> (\<forall>a. r = Some a \<longrightarrow> a \<in> used ys \<and> c_id (look a) = cid \<and> \<not> c_is_closing (look a))
    \<and> (r = None \<longrightarrow> (\<forall>a \<in> used xs. c_is_closing (look a) \<or> c_id (look a) \<noteq> cid))"
  using assms
proof (induction xs arbitrary: ys r)
  case Nil
  then show ?case by simp
next
  case (Cons x xs)
  obtain zs q where z: "find_scan look cid xs = (zs, q)" by (cases "find_scan look cid xs")
  note IH = Cons.IH [OF z]
  show ?case
  proof (cases x)
    case None
    with Cons.prems z have "ys = None # zs" "r = q" by simp_all
    with IH None show ?thesis by simp
  next
    case (Some a)
    consider (closing) "c_is_closing (look a)" | (hit) "\<not> c_is_closing (look a)" "c_id (look a) = cid"
      | (other) "\<not> c_is_closing (look a)" "c_id (look a) \<noteq> cid" by blast
    then show ?thesis
    proof cases
      case closing
      with Cons.prems z Some have "ys = None # zs" "r = q" by simp_all
      with IH Some closing show ?thesis by (auto simp: in_used)
    next
      case hit
      have "find_scan look cid (Some a # xs) = (Some a # xs, Some a)" using hit by simp
      then have "ys = Some a # xs" "r = Some a" using Cons.prems unfolding Some by (metis prod.inject)+
      with hit Some show ?thesis by auto
    next
      case other
      with Cons.prems z Some have "ys = Some a # zs" "r = q" by simp_all
      with IH Some other show ?thesis by (auto simp: in_used)
    qed
  qed
qed

lemma find_props:
  assumes "table_ok w" "ws_conn_find cid w = (r, w')"
  shows "\<exists>ys. w' = w\<lparr>hw_conns := ys\<rparr> \<and> table_ok w'
    \<and> (\<forall>a. r = Some a \<longrightarrow> a \<in> used (hw_conns w) \<and> c_id (conn_at w a) = cid \<and> \<not> c_is_closing (conn_at w a))
    \<and> (r = None \<longrightarrow> (\<forall>a \<in> used (hw_conns w). c_is_closing (conn_at w a) \<or> c_id (conn_at w a) \<noteq> cid))"
proof -
  obtain ys q where f: "find_scan (conn_at w) cid (hw_conns w) = (ys, q)"
    by (cases "find_scan (conn_at w) cid (hw_conns w)")
  with assms(2) have w': "w' = w\<lparr>hw_conns := ys\<rparr>" "q = r" by (simp_all add: ws_conn_find_def)
  from find_scan_props [OF f] assms(1) w' show ?thesis
    by (intro exI [of _ ys]) (auto simp: table_ok_def)
qed

text \<open>A connection that the library frees.\<close>

definition free_conn :: "addr \<Rightarrow> 'a ws_world_scheme \<Rightarrow> 'a ws_world_scheme" where
  "free_conn c w = w\<lparr>w_conns := (w_conns w)(c := None)\<rparr>"

lemma table_ok_need_rt [simp]: "table_ok (need_rt w) \<longleftrightarrow> table_ok w"
  by (rule table_ok_touches [OF touches_need_rt])

lemma touches_welcome: "touches {c} w (ws_welcome E c w)"
  unfolding ws_welcome_def by (rule touches_trans [OF touches_pushes_to(1) touches_pushes_to(2)])

lemma table_ok_welcome [simp]: "table_ok (ws_welcome E c w) \<longleftrightarrow> table_ok w"
  by (rule table_ok_touches [OF touches_welcome])

lemma table_ok_upgrade:
  assumes "table_ok w" "c \<in> dom (w_conns w)"
  shows "table_ok (ws_on_upgrade E c w)"
proof -
  obtain ok w1 where r: "ws_conn_register c w = (ok, w1)" by (cases "ws_conn_register c w")
  note t = table_ok_register [OF assms r]
  have "table_ok (need_rt (w1\<lparr>w_ws_conn := Some c\<rparr>))"
    using t assms(2) table_ok_set_conn [of w1 c] by simp
  then show ?thesis using r t(1) by (cases ok) (simp_all add: ws_on_upgrade_def)
qed

lemma table_ok_close:
  assumes "table_ok w"
  shows "table_ok (ws_ev_handler E c MG_EV_CLOSE w)" "table_ok (free_conn c (ws_ev_handler E c MG_EV_CLOSE w))"
proof -
  let ?w1 = "ws_conn_unregister c w" and ?w = "ws_ev_handler E c MG_EV_CLOSE w"
  note u = table_ok_unregister [OF assms, of c]
  have h: "touches (set_option (w_ws_conn ?w1)) ?w1 ?w"
    by (simp add: ws_ev_handler_def Let_def touches_remove_by_conn)
  have t: "table_ok ?w" using table_ok_touches [OF h] u by blast
  have n: "hw_conns ?w = hw_conns ?w1" "w_ws_conn ?w = w_ws_conn ?w1" using h unfolding touches_def by blast+
  show "table_ok ?w" by (rule t)
  have "c \<notin> used (hw_conns ?w)" "w_ws_conn ?w \<noteq> Some c" using u unfolding n by blast+
  with t show "table_ok (free_conn c ?w)" by (auto simp: table_ok_def free_conn_def)
qed

lemma table_ok_event:
  assumes "table_ok w" "c \<in> dom (w_conns w)"
  shows "table_ok (ws_ev_handler E c ev w)"
proof (cases ev)
  case MG_EV_WS_OPEN
  with table_ok_upgrade [OF assms] show ?thesis by (simp add: ws_ev_handler_def)
next
  case (MG_EV_WS_CTL fl)
  with assms table_ok_unregister [OF assms(1)] show ?thesis by (simp add: ws_ev_handler_def)
next
  case MG_EV_CLOSE
  with table_ok_close(1) [OF assms(1)] show ?thesis by simp
next
  case (MG_EV_WS_MSG data)
  have "table_ok (event_push_json_string_to E (Some c) ty d w)" for ty d
    using assms(1) table_ok_touches [OF touches_pushes_to(3)] by blast
  moreover have "table_ok (handle_ws_message E c data (w\<lparr>w_tick := n\<rparr>))" for n
    using assms(1) table_ok_touches [OF touches_trans [OF touches_tick touches_message]]
      table_ok_touches [OF touches_tick] table_ok_touches [OF touches_message] by metis
  moreover have "table_ok (w\<lparr>w_tick := n\<rparr>)" for n
    using assms(1) table_ok_touches [OF touches_tick] by blast
  ultimately show ?thesis using MG_EV_WS_MSG by (simp add: ws_ev_handler_def ask_def)
qed (use assms in \<open>simp_all add: ws_ev_handler_def\<close>)

section \<open>Properties\<close>


text \<open>The connections of the table that are not closing.\<close>

definition live :: "'a ws_world_scheme \<Rightarrow> addr set" where
  "live w = {a \<in> used (hw_conns w). \<not> c_is_closing (conn_at w a)}"

lemma used_card: "distinct (filter (\<lambda>x. x \<noteq> None) xs) \<Longrightarrow> card (used xs) = length (filter (\<lambda>x. x \<noteq> None) xs)"
proof -
  assume d: "distinct (filter (\<lambda>x. x \<noteq> None) xs)"
  have "set (filter (\<lambda>x. x \<noteq> None) xs) = Some ` used xs" by (auto simp: used_def)
  then have "card (Some ` used xs) = length (filter (\<lambda>x. x \<noteq> None) xs)" using distinct_card [OF d] by simp
  then show ?thesis by (simp add: card_image)
qed

lemma finite_used [simp]: "finite (used xs)"
proof -
  have "used xs = Some -` set xs" by (auto simp: used_def)
  then show ?thesis by (simp add: finite_vimageI)
qed

lemma register_iff:
  assumes "table_ok w" "ws_conn_register c w = (ok, w')"
  shows "ok \<longleftrightarrow> c \<in> used (hw_conns w) \<or> card (live w) < WS_MAX_CONNS"
proof -
  obtain ys where ys: "w' = w\<lparr>hw_conns := ys\<rparr>" "length ys = WS_MAX_CONNS" "distinct (filter (\<lambda>x. x \<noteq> None) ys)"
    "used ys \<subseteq> insert c (used (hw_conns w))" "ok \<longleftrightarrow> c \<in> used ys" "live w \<subseteq> used ys"
    "c \<in> used (hw_conns w) \<longrightarrow> ok"
    "\<not> ok \<longrightarrow> None \<notin> set ys \<and> (\<forall>a \<in> used ys. \<not> c_is_closing (conn_at w a)) \<and> used ys \<subseteq> used (hw_conns w)"
    using register_props [OF assms, folded live_def] by (elim exE conjE) (rule that, assumption+)
  show ?thesis
  proof (cases ok)
    case False
    with ys(8) have "filter (\<lambda>x. x \<noteq> None) ys = ys" by (intro filter_True) metis
    with used_card [OF ys(3)] ys(2) have "card (used ys) = WS_MAX_CONNS" by simp
    moreover have "used ys = live w" using ys(6,8) False unfolding live_def by blast
    ultimately show ?thesis using False ys(7) by simp
  next
    case True
    have "card (live w) < WS_MAX_CONNS" if "c \<notin> used (hw_conns w)"
    proof -
      have "insert c (live w) \<subseteq> used ys" "c \<notin> live w" using True ys(5,6) that by (auto simp: live_def)
      then have "Suc (card (live w)) \<le> card (used ys)"
        using card_mono [OF finite_used] by (metis card_insert_disjoint finite_subset finite_used insert_subset)
      also have "\<dots> \<le> WS_MAX_CONNS" using used_card [OF ys(3)] ys(2) length_filter_le by metis
      finally show ?thesis by simp
    qed
    with True show ?thesis by blast
  qed
qed


section \<open>Delivery of finished calls\<close>

text \<open>The frames of the replies to one connection.\<close>

definition replies_to :: "u64 \<Rightarrow> (u64 \<times> string) list \<Rightarrow> string" where
  "replies_to i ds = concat (map (\<lambda>d. ws_frame 1 (snd d)) (filter (\<lambda>d. fst d = i) ds))"

lemma replies_to_simps [simp]:
  "replies_to i [] = []"
  "replies_to i (d # ds) = (if fst d = i then ws_frame 1 (snd d) else []) @ replies_to i ds"
  by (simp_all add: replies_to_def)

definition ids_differ :: "'a ws_world_scheme \<Rightarrow> bool" where
  "ids_differ w \<longleftrightarrow> inj_on (\<lambda>a. c_id (conn_at w a)) (dom (w_conns w))"

lemma find_live:
  assumes "table_ok w" "ws_conn_find i w = (r, w1)"
  shows "\<exists>ys. w1 = w\<lparr>hw_conns := ys\<rparr> \<and> table_ok w1 \<and> live w \<subseteq> used ys \<and> used ys \<subseteq> used (hw_conns w)
    \<and> (\<forall>a. r = Some a \<longrightarrow> a \<in> live w \<and> c_id (conn_at w a) = i)
    \<and> (r = None \<longrightarrow> (\<forall>a \<in> live w. c_id (conn_at w a) \<noteq> i))"
proof -
  obtain ys where f: "find_scan (conn_at w) i (hw_conns w) = (ys, r)" "w1 = w\<lparr>hw_conns := ys\<rparr>"
    using assms(2) unfolding ws_conn_find_def by (auto split: prod.splits)
  note P = find_scan_props [OF f(1), folded live_def]
  have "table_ok w1" using P assms(1) f(2) unfolding table_ok_def by simp blast
  moreover have "a \<in> live w \<and> c_id (conn_at w a) = i" if "r = Some a" for a
    using P that unfolding live_def by blast
  moreover have "\<forall>a \<in> live w. c_id (conn_at w a) \<noteq> i" if "r = None"
    using P that unfolding live_def by blast
  ultimately show ?thesis using f(2) P by blast
qed

lemma call_done_effect:
  assumes "table_ok w" "ids_differ w"
  shows "table_ok (ws_call_done i json w) \<and> ids_differ (ws_call_done i json w)
    \<and> live (ws_call_done i json w) = live w \<and> wk_done (ws_call_done i json w) = wk_done w
    \<and> w_ws_conn (ws_call_done i json w) = w_ws_conn w
    \<and> (\<forall>a. flags (conn_at (ws_call_done i json w) a) = flags (conn_at w a))
    \<and> (\<forall>a. sent (ws_call_done i json w) a =
         sent w a @ (if a \<in> live w \<and> c_is_websocket (conn_at w a) then replies_to (c_id (conn_at w a)) [(i, json)] else []))"
proof -
  obtain r w1 where f: "ws_conn_find i w = (r, w1)" by (cases "ws_conn_find i w")
  obtain ys where ys: "w1 = w\<lparr>hw_conns := ys\<rparr>" "table_ok w1" "live w \<subseteq> used ys" "used ys \<subseteq> used (hw_conns w)"
    "\<forall>a. r = Some a \<longrightarrow> a \<in> live w \<and> c_id (conn_at w a) = i"
    "r = None \<longrightarrow> (\<forall>a \<in> live w. c_id (conn_at w a) \<noteq> i)"
    using find_live [OF assms(1) f] by (elim exE conjE) (rule that, assumption+)
  have c1: "conn_at w1 a = conn_at w a" "sent w1 a = sent w a" for a using ys(1) by (simp_all add: conn_at_def sent_def)
  have l1: "live w1 = live w" using ys(1,3,4) unfolding live_def by (auto simp: conn_at_def)
  have i1: "ids_differ w1" using assms(2) ys(1) by (simp add: ids_differ_def conn_at_def)
  show ?thesis
  proof (cases r)
    case None
    then have "ws_call_done i json w = w1" using f by (simp add: ws_call_done_def)
    with None ys i1 l1 c1 show ?thesis by auto
  next
    case (Some c)
    then have e: "ws_call_done i json w = push_ws c json w1" using f by (simp add: ws_call_done_def event_push_to_def)
    have c: "c \<in> live w" "c_id (conn_at w c) = i" using ys(5) Some by simp_all
    have k: "keeps w1 (push_ws c json w1)" by (rule keeps_push_ws)
    have fl: "flags (conn_at (push_ws c json w1) a) = flags (conn_at w a)" for a
      using k c1 by (simp add: keeps_def)
    note fl = fl flags_eqD [OF fl]
    have m: "rt_world.more (push_ws c json w1) = rt_world.more w1" using keeps_rt(7) [OF k] .
    have h: "hw_conns (push_ws c json w1) = ys" "wk_done (push_ws c json w1) = wk_done w"
      using more_hw [OF m] more_wk [OF m] ys(1) by (simp_all add: wk_same_def)
    have t: "touches {c} w1 (push_ws c json w1)" by (rule touches_keeps [OF k]) (simp add: push_ws_others)
    have dom: "c \<in> dom (w_conns w1)" using c(1) assms(1) ys(1) unfolding live_def table_ok_def by auto
    have uniq: "a = c" if "a \<in> live w" "c_id (conn_at w a) = i" for a
    proof -
      have "a \<in> dom (w_conns w)" "c \<in> dom (w_conns w)"
        using that c assms(1) unfolding live_def table_ok_def by blast+
      with inj_onD [OF assms(2) [unfolded ids_differ_def], where x = a and y = c] that(2) c(2) show ?thesis by simp
    qed
    have "sent (push_ws c json w1) a = sent w a @ (if a = c \<and> c_is_websocket (conn_at w c) then ws_frame 1 json else [])" for a
      using push_ws_sent(1) [of c w1 json] push_ws_sent(2) [of c c w1 json] push_ws_others [of a c json w1] dom c1 by (cases "a = c") auto
    moreover have "(a = c \<and> c_is_websocket (conn_at w c)) \<longleftrightarrow> (a \<in> live w \<and> c_is_websocket (conn_at w a) \<and> c_id (conn_at w a) = i)" for a
      using c uniq [of a] by blast
    ultimately have "sent (push_ws c json w1) a = sent w a @
        (if a \<in> live w \<and> c_is_websocket (conn_at w a) then replies_to (c_id (conn_at w a)) [(i, json)] else [])" for a
      by (simp only: replies_to_simps fst_conv snd_conv append_Nil2) (simp split: if_splits; metis)
    moreover have "live (push_ws c json w1) = live w"
    proof -
      have "hw_conns w1 = ys" using ys(1) by simp
      with h(1) fl(4) l1 c1(1) show ?thesis unfolding live_def by simp
    qed
    moreover have "ids_differ (push_ws c json w1)" using i1 t c1 fl by (simp add: ids_differ_def touches_def)
    moreover have "table_ok (push_ws c json w1)" using table_ok_touches [OF t] ys(2) by simp
    moreover have "w_ws_conn (push_ws c json w1) = w_ws_conn w" using t ys(1) by (simp add: touches_def)
    ultimately show ?thesis unfolding e using h fl by blast
  qed
qed

lemma calls_done_effect:
  assumes "table_ok w" "ids_differ w"
  shows "table_ok (fold (\<lambda>(i, json) v. ws_call_done i json v) ds w)
    \<and> wk_done (fold (\<lambda>(i, json) v. ws_call_done i json v) ds w) = wk_done w
    \<and> w_ws_conn (fold (\<lambda>(i, json) v. ws_call_done i json v) ds w) = w_ws_conn w
    \<and> (\<forall>a. flags (conn_at (fold (\<lambda>(i, json) v. ws_call_done i json v) ds w) a) = flags (conn_at w a))
    \<and> (\<forall>a. sent (fold (\<lambda>(i, json) v. ws_call_done i json v) ds w) a =
         sent w a @ (if a \<in> live w \<and> c_is_websocket (conn_at w a) then replies_to (c_id (conn_at w a)) ds else []))"
  using assms
proof (induction ds arbitrary: w)
  case Nil
  then show ?case by simp
next
  case (Cons d ds)
  obtain i json where d: "d = (i, json)" by (cases d)
  note E = call_done_effect [OF Cons.prems, of i json]
  have "table_ok (ws_call_done i json w)" "ids_differ (ws_call_done i json w)" using E by blast+
  note IH = Cons.IH [OF this]
  have fl: "c_id (conn_at (ws_call_done i json w) a) = c_id (conn_at w a)"
    "c_is_websocket (conn_at (ws_call_done i json w) a) = c_is_websocket (conn_at w a)" for a
    using E flags_eqD(1,2) by blast+
  have l: "live (ws_call_done i json w) = live w" using E by blast
  have "sent (fold (\<lambda>(i, json) v. ws_call_done i json v) ds (ws_call_done i json w)) a = sent w a @
     (if a \<in> live w \<and> c_is_websocket (conn_at w a) then replies_to (c_id (conn_at w a)) (d # ds) else [])" for a
  proof -
    have "sent (fold (\<lambda>(i, json) v. ws_call_done i json v) ds (ws_call_done i json w)) a
      = sent (ws_call_done i json w) a @
        (if a \<in> live w \<and> c_is_websocket (conn_at w a) then replies_to (c_id (conn_at w a)) ds else [])"
      using IH unfolding l fl by blast
    moreover have "sent (ws_call_done i json w) a = sent w a @
        (if a \<in> live w \<and> c_is_websocket (conn_at w a) then replies_to (c_id (conn_at w a)) [(i, json)] else [])"
      using E by blast
    ultimately show ?thesis by (simp add: d)
  qed
  with IH E show ?case by (simp add: d)
qed

lemma drain_effect:
  assumes "table_ok w" "ids_differ w" "lq_rep (wk_done w) ds"
  shows "sent (ws_drain_call_results w) a = sent w a @
       (if a \<in> live w \<and> c_is_websocket (conn_at w a) then replies_to (c_id (conn_at w a)) ds else [])
     \<and> lq_rep (wk_done (ws_drain_call_results w)) []
     \<and> table_ok (ws_drain_call_results w)"
proof -
  let ?w = "w\<lparr>wk_done := lq_empty\<rparr>"
  have ds: "lq_take_all (wk_done w) = ds" by (rule lq_take_all_rep [OF assms(3)])
  have ok: "table_ok ?w" "ids_differ ?w" "live ?w = live w" "conn_at ?w a = conn_at w a" "sent ?w a = sent w a" for a
    using assms(1,2) by (simp_all add: table_ok_def ids_differ_def live_def conn_at_def sent_def)
  have "wk_done (fold (\<lambda>(i, json) v. ws_call_done i json v) ds ?w) = lq_empty"
    using calls_done_effect [OF ok(1,2), of ds] by simp
  then show ?thesis
    using calls_done_effect [OF ok(1,2), of ds] ok(3-5)
    by (simp add: ws_drain_call_results_def ws_worker_drain_def Let_def ds)
qed

text \<open>C12: Finished calls reach the connection that asked, and only it. Collecting the finished calls
  appends to every open WebSocket connection of the table exactly the replies that carry its own
  connection number, one text frame each, in the order in which they finished; a reply whose connection has
  gone is dropped, nobody else receives anything, and the queue is empty afterwards.\<close>

theorem finished_calls_delivered:
  assumes "table_ok w" "ids_differ w" "lq_rep (wk_done w) ds"
  shows "sent (ws_drain_call_results w) a = sent w a @
       (if a \<in> live w \<and> c_is_websocket (conn_at w a) then replies_to (c_id (conn_at w a)) ds else [])
     \<and> lq_rep (wk_done (ws_drain_call_results w)) []
     \<and> table_ok (ws_drain_call_results w)"
  using assms by (rule drain_effect)

section \<open>An example\<close>

definition demo_conn :: "u64 \<Rightarrow> conn" where
  "demo_conn i = null_conn\<lparr>c_id := i, c_is_websocket := True, c_fn := Ws_handler, c_pfn := Ws_protocol\<rparr>"

text \<open>Two clients, the first in the table; a finished call of each and one of a client that is gone.\<close>

definition demo_done :: "(u64 \<times> string) lqueue" where
  "demo_done = lq_push 3 (9, ''gone'') (lq_push 2 (7, ''second'') (lq_push 1 (7, ''first'') lq_empty))"

definition demo_ws :: ws_world where
  "demo_ws = wk_world.extend
     ((demo_wk\<lparr>wk_done := demo_done\<rparr>)\<lparr>w_conns := [1 \<mapsto> demo_conn 7, 2 \<mapsto> demo_conn 8], w_ws_conn := Some 1\<rparr>)
     (ws_world.fields (Some 1 # replicate 31 None) True)"

lemma demo_ws_facts:
  "w_conns demo_ws = [1 \<mapsto> demo_conn 7, 2 \<mapsto> demo_conn 8]" "hw_conns demo_ws = Some 1 # replicate 31 None"
  "w_ws_conn demo_ws = Some 1" "wk_done demo_ws = demo_done"
  by (simp_all add: demo_ws_def wk_demo demo_rt_def wk_world.defs ws_world.defs)

lemma demo_ws_ok: "table_ok demo_ws" "ids_differ demo_ws" "2 \<in> dom (w_conns demo_ws)"
proof -
  have "used (replicate 31 None) = {}" by (auto simp: used_def)
  then show "table_ok demo_ws" "ids_differ demo_ws" "2 \<in> dom (w_conns demo_ws)"
    by (simp_all add: table_ok_def demo_ws_facts ids_differ_def inj_on_def conn_at_def demo_conn_def WS_MAX_CONNS_def)
qed

lemma demo_live: "live demo_ws = {1}"
  by (auto simp: live_def demo_ws_facts used_def conn_at_def demo_conn_def null_conn_def)


theorem finished_calls_delivered_witness:
  "sent (ws_drain_call_results demo_ws) 1 = sent demo_ws 1 @ ws_frame 1 ''first'' @ ws_frame 1 ''second''
   \<and> sent (ws_drain_call_results demo_ws) 2 = sent demo_ws 2"
proof -
  have "lq_take_all demo_done = [(7, ''first''), (7, ''second''), (9, ''gone'')]" by code_simp
  moreover have "\<exists>ds. lq_rep demo_done ds"
    unfolding demo_done_def
    by (intro exI, rule lq_push_rep, rule lq_push_rep, rule lq_push_rep, rule lq_empty_rep)
       (simp_all add: lq_free_def lq_push_def lq_empty_def set_next_def)
  ultimately have "lq_rep (wk_done demo_ws) [(7, ''first''), (7, ''second''), (9, ''gone'')]"
    using lq_take_all_rep by (metis demo_ws_facts(4))
  from finished_calls_delivered [OF demo_ws_ok(1,2) this] show ?thesis
    by (simp add: demo_live demo_ws_facts conn_at_def demo_conn_def)
qed

end
