(* ===== verification/Handler.thy ===== *)
theory Handler
  imports HandlerSse HandlerWsProofs
begin

text \<open>
  src/handler.c: the router, which sends every request to the WebSocket upgrade, the event streams, one of the
  API routes, a plugin or the static files, and the other events of an HTTP connection to the
  event streams.
\<close>

definition OPTIONS_HEADERS :: string where
  "OPTIONS_HEADERS =
     ''Access-Control-Allow-Origin: *'' @ CRLF
     @ ''Access-Control-Allow-Methods: GET, POST, PUT, DELETE, OPTIONS'' @ CRLF
     @ ''Access-Control-Allow-Headers: Content-Type, Authorization, X-Requested-With, FFI-Symbol, ffi-symbol'' @ CRLF
     @ ''Access-Control-Max-Age: 86400'' @ CRLF"

text \<open>\<open>hm->uri.len >= min && strncmp(hm->uri.buf, lit, n) == 0\<close>.\<close>

definition uri_starts :: "http_message \<Rightarrow> nat \<Rightarrow> string \<Rightarrow> nat \<Rightarrow> bool" where
  "uri_starts hm min_len lit n \<longleftrightarrow> min_len \<le> length (hm_uri hm) \<and> strncmp_eq (cstr (hm_uri hm)) lit n"

text \<open>A text to push: the default, or what fits of the body.\<close>

definition body_text :: "nat \<Rightarrow> string \<Rightarrow> string \<Rightarrow> string" where
  "body_text n dflt body = (if body \<noteq> [] then cbuf n body else dflt)"

definition api_push :: "'d env \<Rightarrow> addr \<Rightarrow> string \<Rightarrow> 'a pusher_world_scheme \<Rightarrow> 'a pusher_world_scheme" where
  "api_push E c body w =
     reply_json c 200 ''{\"success\":true,\"message\":\"Pushed to WebSocket\"}''
       (event_push_with_type E (Some ''http_api'') (Some (body_text 1024 ''{\"message\":\"Hello from HTTP API\"}'' body)) w)"

definition status_json :: "'a pusher_world_scheme \<Rightarrow> string" where
  "status_json w =
     snprintf_buf 256 (''{\"websocket\":'' @ (if event_pusher_has_connection w then ''connected'' else ''disconnected'')
       @ '',\"push_count\":'' @ nat_str (unat (event_pusher_get_push_count w)) @ '',\"status\":\"running\"}'')"

definition api_status :: "addr \<Rightarrow> 'a pusher_world_scheme \<Rightarrow> 'a pusher_world_scheme" where
  "api_status c w = reply_json c 200 (status_json w) w"

definition api_iceoryx :: "'d env \<Rightarrow> addr \<Rightarrow> string \<Rightarrow> 'a pusher_world_scheme \<Rightarrow> 'a pusher_world_scheme" where
  "api_iceoryx E c body w =
     (if body \<noteq> [] then
        reply_json c 200 (snprintf_buf 64 (''{\"success\":true,\"size\":'' @ nat_str (length body) @ ''}''))
          (event_push_with_type E (Some ''iceoryx'') (Some (cbuf 2048 body)) w)
      else reply_json c 400 ''{\"error\":\"empty body\"}'' w)"

definition api_log :: "'d env \<Rightarrow> addr \<Rightarrow> string \<Rightarrow> 'a pusher_world_scheme \<Rightarrow> 'a pusher_world_scheme" where
  "api_log E c body w =
     reply_json c 200 ''{\"success\":true}''
       (event_push_with_type E (Some ''log'')
         (Some (body_text 1024 ''{\"level\":\"info\",\"message\":\"Log message\"}'' body)) w)"

definition libary_call :: "'d env \<Rightarrow> addr \<Rightarrow> http_message \<Rightarrow> string \<Rightarrow> 'a dl_world_scheme \<Rightarrow> 'a dl_world_scheme" where
  "libary_call E c hm body w =
     ev_handler_libary E c hm body
       (event_push_with_type E (Some ''libary'') (Some ''{\"operation\":\"library_call\"}'') w)"

text \<open>Is there a plugin for the URI's path? The file system is asked only when the path may be one.\<close>

definition probe_plugin :: "'d env \<Rightarrow> http_message \<Rightarrow> 'a world0_scheme \<Rightarrow> bool \<times> 'a world0_scheme" where
  "probe_plugin E hm w =
     (let probe = cut_at (CHR ''?'') (cbuf 512 (hm_uri hm))
      in if strip_slash probe \<noteq> [] \<and> \<not> uri_has_traversal (Some probe)
         then (case ask (env_fs E) w of (f, w1) \<Rightarrow>
                (fst (plugin_resolve_path (env_platform E) f (Some (strip_slash probe)) (Some 600)) = 0, w1))
         else (False, w))"

definition upgrade_ws :: "'d env \<Rightarrow> addr \<Rightarrow> http_message \<Rightarrow> 'a ws_world_scheme \<Rightarrow> 'a ws_world_scheme" where
  "upgrade_ws E c hm w =
     ws_on_upgrade E c (upd_conn c (\<lambda>x. x\<lparr>c_fn := Ws_handler\<rparr>) (mg_ws_upgrade c hm w))"

definition on_request :: "'d env \<Rightarrow> addr \<Rightarrow> http_message \<Rightarrow> string \<Rightarrow> 'a sse_world_scheme \<Rightarrow> 'a sse_world_scheme" where
  "on_request E c hm body w =
     (let method = cbuf 16 (hm_method hm)
      in if method = ''OPTIONS'' then mg_http_reply c 204 OPTIONS_HEADERS [] w
         else if hm_uri hm = ''/soket'' then upgrade_ws E c hm w
         else if hm_uri hm = ''/sse'' then ev_handler_sse E c (MG_EV_HTTP_MSG hm body) w
         else if uri_starts hm 10 ''/api/push'' 10 \<and> method = ''POST'' then api_push E c body w
         else if uri_starts hm 11 ''/api/status'' 11 \<and> method = ''GET'' then api_status c w
         else if uri_starts hm 12 ''/api/iceoryx'' 12 \<and> method = ''POST'' then api_iceoryx E c body w
         else if uri_starts hm 10 ''/api/log'' 8 \<and> method = ''POST'' then api_log E c body w
         else (case probe_plugin E hm w of
                 (True, w1) \<Rightarrow> libary_call E c hm body w1
               | (False, w1) \<Rightarrow>
                   if method = ''GET'' \<or> method = ''HEAD'' then ev_handler_static E c hm w1
                   else libary_call E c hm body w1))"

definition ev_handler :: "'d env \<Rightarrow> addr \<Rightarrow> mg_event \<Rightarrow> 'a sse_world_scheme \<Rightarrow> 'a sse_world_scheme" where
  "ev_handler E c ev w =
     (case ev of
        MG_EV_HTTP_MSG hm body \<Rightarrow> on_request E c hm body w
      | MG_EV_POLL \<Rightarrow> sse_on_poll E c w
      | MG_EV_CLOSE \<Rightarrow> sse_on_close c w
      | _ \<Rightarrow> w)"

end
