(* ===== verification/Server.thy ===== *)
theory Server
  imports Handler
begin

text \<open>
  src/main.c: the command line, starting the server, and its loop. One round of the loop is
  \<open>mg_mgr_poll\<close>, which calls the handlers, and the collection of finished calls; meanwhile the worker
  threads run. The step relation \<open>srv_step\<close> has one step per call of a handler, so that every order
  of events on any number of connections is a sequence of steps. Of the HTTP library it uses: a
  handler is called with an open connection; a request is delivered to a connection only while
  no response is being generated (\<open>is_resp\<close>, set before the call) and by the HTTP protocol handler,
  which goes on with what it has read after an upgrade; a closed connection is freed after
  \<open>MG_EV_CLOSE\<close>; no two open connections have the same number.
\<close>

section \<open>The command line\<close>

datatype command = Print_help int | Start string | Stop_todo | Reload_todo | Unknown

fun port_option :: "string \<Rightarrow> string list \<Rightarrow> string" where
  "port_option port [] = port"
| "port_option port [a] = port"
| "port_option port (a # b # rest) =
     (if a = ''-port'' then port_option b rest else port_option port (b # rest))"

definition listen_addr :: "string \<Rightarrow> string" where
  "listen_addr port = snprintf_buf 128 (''http://'' @ ''0.0.0.0'' @ '':'' @ port)"

definition parse_args :: "string list \<Rightarrow> command" where
  "parse_args argv =
     (if length argv < 2 then Print_help 1
      else
        (let cmd = argv ! 1
         in if cmd = ''help'' \<or> cmd = ''-help'' then Print_help 0
            else if cmd = ''start'' then Start (listen_addr (port_option ''44944'' (drop 2 argv)))
            else if cmd = ''stop'' then Stop_todo
            else if cmd = ''reload'' then Reload_todo
            else Unknown))"

text \<open>Up to the loop: \<open>None\<close> when the program ends with 1. \<open>listens\<close> is the answer of \<open>mg_http_listen\<close>.\<close>

definition start_server :: "'d env \<Rightarrow> (string \<Rightarrow> bool) \<Rightarrow> string \<Rightarrow> 'a sse_world_scheme \<Rightarrow> 'a sse_world_scheme option" where
  "start_server E listens addr w =
     (case event_pusher_init E w of (ok, w1) \<Rightarrow>
        if \<not> ok then None
        else (case ws_worker_init E w1 of (rc, w2) \<Rightarrow>
          if rc \<noteq> 0 then None
          else if \<not> listens addr then None
          else Some w2))"

text \<open>The state at the start of the program: every static variable is zero.\<close>

definition srv_start :: "'a sse_world_scheme \<Rightarrow> bool" where
  "srv_start w \<longleftrightarrow> w_conns w = Map.empty \<and> w_ws_conn w = None
     \<and> hw_conns w = replicate WS_MAX_CONNS None \<and> \<not> hw_rt_manager w
     \<and> sse_clients w = replicate SSE_MAX_CLIENTS no_client
     \<and> \<not> ep_initialized w \<and> \<not> ep_nng_initialized w \<and> dl_cache w = [] \<and> w_nng_socks w = []
     \<and> \<not> rt_running w \<and> rt_count w = 0 \<and> rt_tasks w = [] \<and> wk_start w"

section \<open>The loop\<close>

text \<open>The handler that is set for the connection.\<close>

definition call_handler :: "'d env \<Rightarrow> addr \<Rightarrow> mg_event \<Rightarrow> 'a sse_world_scheme \<Rightarrow> 'a sse_world_scheme" where
  "call_handler E c ev w =
     (case c_fn (conn_at w c) of Http_handler \<Rightarrow> ev_handler E c ev w | Ws_handler \<Rightarrow> ws_ev_handler E c ev w)"

text \<open>What the library may do to a connection on its own: change its send buffer and \<open>is_resp\<close>-free flags,
  and end the streaming of a file.\<close>

definition library_change :: "conn \<Rightarrow> conn \<Rightarrow> bool" where
  "library_change x y \<longleftrightarrow> c_id y = c_id x \<and> c_fn y = c_fn x \<and> c_is_websocket y = c_is_websocket x
     \<and> (c_pfn y = c_pfn x \<and> c_is_resp y = c_is_resp x
        \<or> c_pfn x = File_protocol \<and> c_pfn y = Http_protocol \<and> \<not> c_is_resp y)"

inductive srv_step :: "'d env \<Rightarrow> 'a sse_world_scheme \<Rightarrow> 'a sse_world_scheme \<Rightarrow> bool" for E where
  accept: "a \<notin> dom (w_conns w) \<Longrightarrow> \<forall>b x. w_conns w b = Some x \<longrightarrow> c_id x \<noteq> i
     \<Longrightarrow> srv_step E w (w\<lparr>w_conns := (w_conns w)(a \<mapsto> null_conn\<lparr>c_id := i\<rparr>)\<rparr>)"
| request: "c \<in> dom (w_conns w) \<Longrightarrow> \<not> c_is_resp (conn_at w c)
     \<Longrightarrow> c_pfn (conn_at w c) = Http_protocol \<or> c_fn (conn_at w c) = Ws_handler
     \<Longrightarrow> w' = call_handler E c (MG_EV_HTTP_MSG hm body) (upd_conn c (\<lambda>x. x\<lparr>c_is_resp := True\<rparr>) w)
     \<Longrightarrow> srv_step E w w'"
| event: "c \<in> dom (w_conns w) \<Longrightarrow> ev \<noteq> MG_EV_CLOSE \<Longrightarrow> \<forall>hm body. ev \<noteq> MG_EV_HTTP_MSG hm body
     \<Longrightarrow> w' = call_handler E c ev w \<Longrightarrow> srv_step E w w'"
| close: "c \<in> dom (w_conns w) \<Longrightarrow> w' = free_conn c (call_handler E c MG_EV_CLOSE w) \<Longrightarrow> srv_step E w w'"
| library: "w_conns w c = Some x \<Longrightarrow> library_change x y \<Longrightarrow> srv_step E w (w\<lparr>w_conns := (w_conns w)(c \<mapsto> y)\<rparr>)"
| drain: "srv_step E w (ws_drain_call_results w)"
| thread: "worker_step E t w = Some w' \<Longrightarrow> srv_step E w w'"

inductive srv_reachable :: "'d env \<Rightarrow> 'a sse_world_scheme \<Rightarrow> bool" for E where
  start: "srv_start w \<Longrightarrow> start_server E listens addr w = Some w' \<Longrightarrow> srv_reachable E w'"
| step: "srv_reachable E w \<Longrightarrow> srv_step E w w' \<Longrightarrow> srv_reachable E w'"

inductive_cases srv_stepE: "srv_step E w w'"

end
