(* ===== verification/ServerProofs.thy ===== *)
theory ServerProofs
  imports Server
begin

text \<open>
  The running server as a whole (src/main.c with the handlers): what a step of \<open>srv_step\<close> can change. The
  frames \<open>conn_only\<close>, \<open>same_net\<close>, \<open>stream_step\<close> say what an operation leaves alone, one lemma per operation;
  \<open>srv_inv\<close> is the invariant of the connection table, the streams and the open connections.
\<close>

section \<open>What only concerns one connection\<close>

text \<open>
  \<open>conn_only c w w'\<close>: apart from the counter, only the connection c changed, and it is still the same
  connection with the same handler.
\<close>

definition conn_only :: "addr \<Rightarrow> 'a world0_scheme \<Rightarrow> 'a world0_scheme \<Rightarrow> bool" where
  "conn_only c w w' \<longleftrightarrow> w_ws_conn w' = w_ws_conn w \<and> world0.more w' = world0.more w
     \<and> dom (w_conns w') = dom (w_conns w) \<and> (\<forall>a. a \<noteq> c \<longrightarrow> w_conns w' a = w_conns w a)
     \<and> c_id (conn_at w' c) = c_id (conn_at w c) \<and> c_fn (conn_at w' c) = c_fn (conn_at w c)"

lemma conn_only_refl [simp]: "conn_only c w w"
  by (simp add: conn_only_def)

lemma conn_only_trans: "conn_only c w v \<Longrightarrow> conn_only c v u \<Longrightarrow> conn_only c w u"
  by (simp add: conn_only_def)

lemma conn_only_tick [simp]: "conn_only c w (w\<lparr>w_tick := n\<rparr>)"
  by (simp add: conn_only_def conn_at_def)

lemma conn_only_upd:
  "(\<And>x. c_id (f x) = c_id x \<and> c_fn (f x) = c_fn x) \<Longrightarrow> conn_only c w (upd_conn c f w)"
  by (auto simp: conn_only_def upd_conn_def conn_at_def dom_def split: option.splits if_splits)

lemma conn_only_reply: "conn_only c w (mg_http_reply c code hs body w)" "conn_only c w (mg_send c bs w)"
  "conn_only c w (reply_json c code hs w)"
  unfolding mg_http_reply_def mg_send_def reply_json_def by (rule conn_only_upd; simp)+

lemma conn_only_ticks: "ticks w w' \<Longrightarrow> conn_only c w w'"
  by (auto simp: ticks_def)

lemma conn_only_serve:
  assumes "so_page404 opts = None"
  shows "conn_only c w (mg_http_serve_file E c hm path opts w)"
proof -
  obtain ok fl mime gz w1 where o: "open_served E hm path opts w = ((ok, fl, mime, gz), w1)" by (metis surj_pair)
  have w1: "conn_only c w w1" using open_served_result [OF o assms] by (blast intro: conn_only_ticks)
  have w2: "conn_only c w (w1\<lparr>w_tick := k\<rparr>)" for k by (rule conn_only_trans [OF w1]) simp
  have r: "conn_only c w (mg_http_reply c code hs b v)" "conn_only c w (mg_send c b v)" if "conn_only c w v" for code hs b v
    by (rule conn_only_trans [OF that], rule conn_only_reply)+
  have u: "conn_only c w (upd_conn c (\<lambda>x. x\<lparr>c_is_resp := b\<rparr>) v)"
    "conn_only c w (upd_conn c (\<lambda>x. x\<lparr>c_pfn := pr, c_send := c_send x @ os\<rparr>) v)" if "conn_only c w v" for b pr os v
    by (rule conn_only_trans [OF that], rule conn_only_upd, simp)+
  show ?thesis
    unfolding mg_http_serve_file_def o prod.case ask_def Let_def
    by (simp split: option.split prod.split add: r u w1 w2)
qed

lemma conn_only_static: "conn_only c w (ev_handler_static E c hm w)"
proof -
  have "conn_only c w (mg_http_serve_file E c hm path static_opts w)" for path
    by (rule conn_only_serve) (simp add: static_opts_def)
  moreover have "conn_only c w (reply_index_html c w)" by (simp add: reply_index_html_def conn_only_reply)
  ultimately show ?thesis
    by (simp add: ev_handler_static_def Let_def conn_only_reply split: prod.split option.split)
qed

lemma conn_only_upgrade: "conn_only c w (mg_ws_upgrade c hm w)"
proof -
  have u: "conn_only c w (upd_conn c (\<lambda>x. x\<lparr>c_pfn := Ws_protocol\<rparr>) w)" by (rule conn_only_upd) simp
  have f: "conn_only c v (upd_conn c (\<lambda>x. x\<lparr>c_is_draining := True\<rparr>) v)"
    "conn_only c v (upd_conn c (\<lambda>x. x\<lparr>c_is_websocket := True, c_is_resp := False\<rparr>) v)" for v :: "'a world0_scheme"
    by (rule conn_only_upd, simp)+
  show ?thesis
  proof (cases "mg_http_get_header (hm_headers hm) ''Sec-WebSocket-Key''")
    case None
    show ?thesis
      unfolding mg_ws_upgrade_def Let_def None option.case
      by (rule conn_only_trans [OF conn_only_trans [OF u conn_only_reply(1)] f(1)])
  next
    case (Some key)
    show ?thesis
      unfolding mg_ws_upgrade_def Let_def Some option.case
      by (rule conn_only_trans [OF conn_only_trans [OF u conn_only_reply(2)] f(2)])
  qed
qed

section \<open>Threads\<close>

lemma same_net_trans: "same_net w v \<Longrightarrow> same_net v u \<Longrightarrow> same_net w u"
  by (simp add: same_net_def)

lemma same_net_dl: "dl_keeps w w' \<Longrightarrow> same_net w w'"
  using more_hw [of w' w] dl_keeps_rt(6) [of w w'] dl_keepsD(1,3) [of w w'] by (simp add: same_net_def)

lemma same_net_set_pc: "same_net w v \<Longrightarrow> same_net w (set_pc t pc v)"
  by (simp add: same_net_def set_pc_def)

lemma same_net_exec:
  assumes "run_exec E path j w = (r, w1)"
  shows "same_net w w1"
proof -
  have "same_net w (snd (call_local_dyn_libffi E a b d w))" for a b d by (rule same_net_dl [OF dl_keeps_call])
  then have "same_net w (snd (run_exec E path j w))"
    by (simp add: run_exec_def split: option.split exec_fn.split)
  with assms show ?thesis by simp
qed

lemma same_net_tick [simp]: "same_net w (w\<lparr>w_tick := n\<rparr>)"
  by (simp add: same_net_def)

lemma same_net_reply: "same_net w (worker_reply E t j st rc b ot w)"
proof -
  have "same_net w (push_done E i json (w\<lparr>w_tick := n\<rparr>))" for i json n
    by (simp add: push_done_def ask_def same_net_def)
  then show ?thesis
    by (auto simp: worker_reply_def build_reply_def ask_def Let_def intro!: same_net_set_pc split: option.split)
qed

lemma same_net_thread:
  assumes "worker_step E t w = Some w'"
  shows "same_net w w'"
proof -
  have t: "t < length (wk_pcs w)" using assms by (simp add: worker_step_def split: if_splits)
  show ?thesis
  proof (cases "wk_pcs w ! t")
    case Idle
    with assms t show ?thesis by (auto simp: worker_step_def worker_take_def same_net_def set_pc_def split: option.splits if_splits)
  next
    case (Taken j)
    with assms t show ?thesis
      by (auto simp: worker_step_def worker_start_def ask_def split: if_splits prod.splits intro!: same_net_set_pc)
  next
    case (Locking j st p)
    with assms t show ?thesis by (auto simp: worker_step_def worker_lock_def intro!: same_net_set_pc split: if_splits)
  next
    case (Calling j st p)
    with assms t show ?thesis
      by (auto simp: worker_step_def worker_call_def split: prod.splits intro!: same_net_set_pc dest: same_net_exec)
  next
    case (Called j st rc b ot)
    with assms t show ?thesis by (auto simp: worker_step_def same_net_reply)
  next
    case (Replied j m e b)
    with assms t show ?thesis
      by (auto simp: worker_step_def record_result_def Let_def same_net_def set_pc_def)
  next
    case (Finishing j)
    with assms t show ?thesis by (auto simp: worker_step_def release_slot_def same_net_def set_pc_def)
  next
    case Exited
    with assms t show ?thesis by (simp add: worker_step_def)
  qed
qed

section \<open>The invariant\<close>

lemma query_text_fits: "length dflt < n \<Longrightarrow> length (query_text hm name n dflt) < n"
  by (auto simp: query_text_def length_snprintf_buf split: prod.split)

definition clients :: "sse_client list \<Rightarrow> addr option list" where
  "clients xs = map sc_c (filter sc_active xs)"

definition streams :: "'a sse_world_scheme \<Rightarrow> addr set" where
  "streams w = {c. Some c \<in> set (clients (sse_clients w))}"

definition stream_conn :: "'a world0_scheme \<Rightarrow> addr \<Rightarrow> bool" where
  "stream_conn w c \<longleftrightarrow> c \<in> dom (w_conns w) \<and> c_is_resp (conn_at w c) \<and> c_fn (conn_at w c) = Http_handler
     \<and> c_pfn (conn_at w c) = Http_protocol"

definition client_ok :: "sse_client \<Rightarrow> bool" where
  "client_ok x \<longleftrightarrow> sc_c x \<noteq> None \<and> SSE_MIN_INTERVAL_MS \<le> sc_interval_ms x \<and> sc_interval_ms x \<le> SSE_MAX_INTERVAL_MS
     \<and> sse_safe_name (Some (sc_lib x)) \<and> sse_safe_name (Some (sc_symbol x))
     \<and> length (sc_lib x) < SSE_LIB_MAX \<and> length (sc_symbol x) < SSE_SYMBOL_MAX \<and> length (sc_args x) < SSE_ARGS_MAX"

definition sse_ok :: "'a sse_world_scheme \<Rightarrow> bool" where
  "sse_ok w \<longleftrightarrow> length (sse_clients w) = SSE_MAX_CLIENTS \<and> (\<forall>x \<in> set (sse_clients w). sc_active x \<longrightarrow> client_ok x)
     \<and> distinct (clients (sse_clients w)) \<and> (\<forall>c \<in> streams w. stream_conn w c)"

definition ws_users :: "'a ws_world_scheme \<Rightarrow> addr set" where
  "ws_users w = used (hw_conns w) \<union> set_option (w_ws_conn w)"

definition ws_ok :: "'a ws_world_scheme \<Rightarrow> bool" where
  "ws_ok w \<longleftrightarrow> table_ok w \<and> ids_differ w \<and> (\<forall>a \<in> ws_users w. c_fn (conn_at w a) = Ws_handler)"

definition srv_inv :: "'a sse_world_scheme \<Rightarrow> bool" where
  "srv_inv w \<longleftrightarrow> ws_ok w \<and> sse_ok w"

lemma more_sse:
  "world0.more w' = world0.more w \<Longrightarrow> hw_conns w' = hw_conns w \<and> sse_clients w' = sse_clients w
     \<and> ws_world.more w' = ws_world.more w"
  "ws_world.more v' = ws_world.more v \<Longrightarrow> sse_clients v' = sse_clients v"
  by (cases w; cases w'; simp) (cases v; cases v'; simp)

lemma ids_cong:
  assumes "dom (w_conns w') = dom (w_conns w)" "\<And>a. a \<in> dom (w_conns w) \<Longrightarrow> c_id (conn_at w' a) = c_id (conn_at w a)"
  shows "ids_differ w' \<longleftrightarrow> ids_differ w"
  using assms inj_on_cong [of "dom (w_conns w)" "\<lambda>a. c_id (conn_at w' a)" "\<lambda>a. c_id (conn_at w a)"]
  by (simp add: ids_differ_def)

lemma sse_ok_cong:
  assumes "sse_ok w" "sse_clients w' = sse_clients w" "\<And>c. c \<in> streams w \<Longrightarrow> stream_conn w c \<Longrightarrow> stream_conn w' c"
  shows "sse_ok w'"
proof -
  have "streams w' = streams w" using assms(2) by (simp add: streams_def)
  with assms show ?thesis by (simp add: sse_ok_def)
qed

lemma stream_conn_flags:
  assumes "dom (w_conns w') = dom (w_conns w)" "flags (conn_at w' c) = flags (conn_at w c)"
  shows "stream_conn w' c \<longleftrightarrow> stream_conn w c"
  using assms(1) flags_eqD(5-7) [OF assms(2)] by (simp add: stream_conn_def)

lemma inv_touches:
  assumes "touches S w w'"
  shows "srv_inv w' \<longleftrightarrow> srv_inv w" "streams w' = streams w"
proof -
  have d: "dom (w_conns w') = dom (w_conns w)" and f: "flags (conn_at w' a) = flags (conn_at w a)"
    and n: "hw_conns w' = hw_conns w" "w_ws_conn w' = w_ws_conn w" and s: "sse_clients w' = sse_clients w" for a
    using assms more_sse(2) [of w' w] by (simp_all add: touches_def)
  show st: "streams w' = streams w" using s by (simp add: streams_def)
  have "ids_differ w' \<longleftrightarrow> ids_differ w" using d flags_eqD(1) [OF f] by (intro ids_cong)
  moreover have "table_ok w' \<longleftrightarrow> table_ok w" by (rule table_ok_touches [OF assms])
  moreover have "ws_users w' = ws_users w" using n by (simp add: ws_users_def)
  moreover have "sse_ok w' \<longleftrightarrow> sse_ok w" using s st stream_conn_flags [OF d f] by (simp add: sse_ok_def)
  ultimately show "srv_inv w' \<longleftrightarrow> srv_inv w" using flags_eqD(5) [OF f] by (simp add: srv_inv_def ws_ok_def)
qed

lemma conn_only_others: "conn_only c w w' \<Longrightarrow> a \<noteq> c \<Longrightarrow> conn_at w' a = conn_at w a"
  by (simp add: conn_only_def conn_at_def)

lemma conn_only_all:
  assumes "conn_only c w w'"
  shows "c_id (conn_at w' a) = c_id (conn_at w a) \<and> c_fn (conn_at w' a) = c_fn (conn_at w a)"
  using assms conn_only_others [OF assms] by (cases "a = c") (simp_all add: conn_only_def)

lemma inv_conn_only:
  fixes w w' :: "'a sse_world_scheme"
  assumes "conn_only c w w'" "srv_inv w" "c \<notin> streams w"
  shows "srv_inv w'" "streams w' = streams w"
proof -
  have d: "dom (w_conns w') = dom (w_conns w)" "w_ws_conn w' = w_ws_conn w"
    and m: "hw_conns w' = hw_conns w" "sse_clients w' = sse_clients w"
    using assms(1) more_sse(1) [of w' w] by (simp_all add: conn_only_def)
  show "streams w' = streams w" using m by (simp add: streams_def)
  have "ids_differ w' \<longleftrightarrow> ids_differ w" using d(1) conn_only_all [OF assms(1)] by (intro ids_cong) auto
  moreover have "table_ok w' \<longleftrightarrow> table_ok w" using d m by (simp add: table_ok_def)
  moreover have "ws_users w' = ws_users w" using d m by (simp add: ws_users_def)
  moreover have "sse_ok w'"
  proof (rule sse_ok_cong [OF _ m(2)])
    show "sse_ok w" using assms(2) by (simp add: srv_inv_def)
    fix a assume a: "a \<in> streams w" "stream_conn w a"
    with assms(3) have "a \<noteq> c" by blast
    from conn_only_others [OF assms(1) this] a(2) show "stream_conn w' a" using d(1) by (simp add: stream_conn_def)
  qed
  ultimately show "srv_inv w'" using assms(2) conn_only_all [OF assms(1)] by (simp add: srv_inv_def ws_ok_def)
qed

section \<open>Streams\<close>

text \<open>What identifies a slot's stream; fetching events and pinging leave it.\<close>

definition client_key :: "sse_client \<Rightarrow> bool \<times> addr option \<times> int \<times> string \<times> string \<times> string" where
  "client_key x = (sc_active x, sc_c x, sc_interval_ms x, sc_lib x, sc_symbol x, sc_args x)"

definition stream_step :: "addr \<Rightarrow> 'a sse_world_scheme \<Rightarrow> 'a sse_world_scheme \<Rightarrow> bool" where
  "stream_step c w w' \<longleftrightarrow> dom (w_conns w') = dom (w_conns w) \<and> w_ws_conn w' = w_ws_conn w
     \<and> hw_conns w' = hw_conns w \<and> (\<forall>a. flags (conn_at w' a) = flags (conn_at w a))
     \<and> (\<forall>a. a \<noteq> c \<longrightarrow> sent w' a = sent w a) \<and> map client_key (sse_clients w') = map client_key (sse_clients w)"

lemma stream_step_trans: "stream_step c w v \<Longrightarrow> stream_step c v u \<Longrightarrow> stream_step c w u"
  by (simp add: stream_step_def)

lemma stream_step_refl [simp]: "stream_step c w w"
  by (simp add: stream_step_def)

lemma stream_step_touches: "touches {c} w w' \<Longrightarrow> stream_step c w w'"
  using more_sse(2) [of w' w] by (simp add: touches_def stream_step_def)

lemma stream_step_client:
  assumes "\<And>x. client_key (f x) = client_key x"
  shows "stream_step c w (upd_client i f w)"
proof -
  have "map client_key ((sse_clients w)[i := f (sse_clients w ! i)]) = map client_key (sse_clients w)"
    by (cases "i < length (sse_clients w)") (simp_all add: map_update assms list_update_same_conv list_update_beyond)
  then show ?thesis by (simp add: stream_step_def upd_client_def conn_at_def sent_def)
qed

lemma stream_step_send: "stream_step c w (mg_send c bs w)"
proof -
  have "world0.more (mg_send c bs w) = world0.more w" by simp
  from more_sse(1) [OF this] show ?thesis by (simp add: stream_step_def)
qed

lemma clients_keys: "clients xs = map (fst \<circ> snd) (filter fst (map client_key xs))"
  by (induction xs) (simp_all add: clients_def client_key_def)

lemma inv_stream_step:
  assumes "stream_step c w w'" "srv_inv w"
  shows "srv_inv w'" "streams w' = streams w"
proof -
  have d: "dom (w_conns w') = dom (w_conns w)" and f: "flags (conn_at w' a) = flags (conn_at w a)"
    and n: "hw_conns w' = hw_conns w" "w_ws_conn w' = w_ws_conn w"
    and k: "map client_key (sse_clients w') = map client_key (sse_clients w)" for a
    using assms(1) by (simp_all add: stream_step_def)
  have cl: "clients (sse_clients w') = clients (sse_clients w)" using k by (simp add: clients_keys)
  then show st: "streams w' = streams w" by (simp add: streams_def)
  have l: "length (sse_clients w') = length (sse_clients w)" using k by (metis length_map)
  have "sc_active x \<longrightarrow> client_ok x" if "x \<in> set (sse_clients w')" for x
  proof -
    have "client_key x \<in> client_key ` set (sse_clients w)" using that k by (metis image_eqI list.set_map)
    then obtain y where "y \<in> set (sse_clients w)" "client_key x = client_key y" by blast
    with assms(2) show ?thesis by (auto simp: srv_inv_def sse_ok_def client_key_def client_ok_def)
  qed
  then have "sse_ok w'"
    using assms(2) cl st l stream_conn_flags [OF d f] by (simp add: sse_ok_def srv_inv_def)
  moreover have "ids_differ w' \<longleftrightarrow> ids_differ w" using d flags_eqD(1) [OF f] by (intro ids_cong)
  moreover have "table_ok w' \<longleftrightarrow> table_ok w" using n d by (simp add: table_ok_def)
  moreover have "ws_users w' = ws_users w" using n by (simp add: ws_users_def)
  ultimately show "srv_inv w'" using assms(2) flags_eqD(5) [OF f] by (simp add: srv_inv_def ws_ok_def)
qed


text \<open>Fetching an event.\<close>

lemma dl_stream:
  assumes "call_local_dyn_libffi E p f j w = (r, w')"
  shows "stream_step c w w'"
proof -
  have "touches {c} w (snd (call_local_dyn_libffi E p f j w))" by (rule touches_dl [OF dl_keeps_call])
  with assms show ?thesis by (intro stream_step_touches) simp
qed

lemma stream_step_tick: "stream_step c w (w\<lparr>w_tick := n\<rparr>)"
  by (rule stream_step_touches) simp

lemma stream_send_custom:
  assumes "sc_c (sse_clients w ! i) = Some c"
  shows "stream_step c w (snd (sse_send_custom E i w))"
proof -
  let ?cl = "sse_clients w ! i" and ?w1 = "w\<lparr>w_tick := Suc (w_tick w)\<rparr>"
  obtain rc out w2 where r: "call_local_dyn_libffi E (Some (sse_lib_path (env_platform E) (env_fs E (w_tick w)) (sc_lib ?cl) 512))
     (Some (sc_symbol ?cl)) (if sc_args ?cl \<noteq> [] then Some (sc_args ?cl) else None) ?w1 = ((rc, out), w2)"
    by (metis surj_pair)
  have w2: "stream_step c w w2" by (rule stream_step_trans [OF stream_step_tick dl_stream [OF r]])
  have w3: "stream_step c w (upd_client i (\<lambda>x. x\<lparr>sc_seq := k\<rparr>) w2)" for k
    by (rule stream_step_trans [OF w2 stream_step_client]) (simp add: client_key_def)
  have w4: "stream_step c w (mg_send c b (upd_client i (\<lambda>x. x\<lparr>sc_seq := k\<rparr>) w2))" for k b
    by (rule stream_step_trans [OF w3 stream_step_send])
  have w5: "stream_step c w (upd_client i (\<lambda>x. x\<lparr>sc_done := True\<rparr>) (mg_send c b (upd_client i (\<lambda>x. x\<lparr>sc_seq := k\<rparr>) w2)))" for k b
    by (rule stream_step_trans [OF w4 stream_step_client]) (simp add: client_key_def)
  show ?thesis
    unfolding sse_send_custom_def ask_def Let_def prod.case r
    by (simp add: assms w2 w3 w4 w5 split: option.split prod.split)
qed

lemma stream_send_event:
  assumes "sc_c (sse_clients w ! i) = Some c"
  shows "stream_step c w (snd (sse_send_event E i w))"
proof -
  let ?cl = "sse_clients w ! i" and ?w1 = "w\<lparr>w_tick := Suc (w_tick w)\<rparr>"
  obtain rc out w2 where r: "call_local_dyn_libffi E (Some (sse_plugin_path (env_platform E) (env_fs E (w_tick w)) 512))
     (Some ''sse_next'') (Some (snprintf_buf 64 (''{\"after_id\":'' @ int_str (sc_last_id ?cl) @ ''}''))) ?w1 = ((rc, out), w2)"
    by (metis surj_pair)
  have w2: "stream_step c w w2" by (rule stream_step_trans [OF stream_step_tick dl_stream [OF r]])
  have w3: "stream_step c w (w2\<lparr>w_tick := n\<rparr>)" for n by (rule stream_step_trans [OF w2 stream_step_tick])
  have w4: "stream_step c w (upd_client i (\<lambda>x. x\<lparr>sc_last_id := k\<rparr>) (mg_send c b (w2\<lparr>w_tick := n\<rparr>)))" for k b n
    by (rule stream_step_trans [OF stream_step_trans [OF w3 stream_step_send] stream_step_client]) (simp add: client_key_def)
  show ?thesis
    unfolding sse_send_event_def ask_def Let_def prod.case r
    by (simp add: assms w2 w3 w4 stream_send_custom split: option.split prod.split)
qed

lemma find_slot_Some:
  "find_slot P i xs = Some k \<Longrightarrow> i \<le> k \<and> k < i + length xs \<and> P (xs ! (k - i))"
proof (induction xs arbitrary: i)
  case Nil
  then show ?case by simp
next
  case (Cons x xs)
  then show ?case by (cases "P x") (auto simp: nth_Cons' Suc_diff_le dest!: Cons.IH)
qed

lemma find_slot_None: "find_slot P i xs = None \<longleftrightarrow> (\<forall>x \<in> set xs. \<not> P x)"
  by (induction xs arbitrary: i) auto

lemma sse_find_Some:
  assumes "sse_find c w = Some i"
  shows "i < length (sse_clients w)" "sc_active (sse_clients w ! i)" "sc_c (sse_clients w ! i) = Some c"
  using find_slot_Some [OF assms [unfolded sse_find_def]] by simp_all

lemma stream_key_at:
  assumes "stream_step c w w'" "i < length (sse_clients w)"
  shows "client_key (sse_clients w' ! i) = client_key (sse_clients w ! i)"
proof -
  have "map client_key (sse_clients w') ! i = map client_key (sse_clients w) ! i"
    using assms(1) by (simp add: stream_step_def)
  moreover have "length (sse_clients w') = length (sse_clients w)"
    using assms(1) by (metis stream_step_def length_map)
  ultimately show ?thesis using assms(2) by simp
qed

lemma stream_poll: "stream_step c w (sse_on_poll E c w)"
proof (cases "sse_find c w")
  case None
  then show ?thesis by (simp add: sse_on_poll_def)
next
  case (Some i)
  note f = sse_find_Some [OF Some]
  define now where "now = env_millis E (w_tick w)"
  let ?w1 = "w\<lparr>w_tick := Suc (w_tick w)\<rparr>"
  let ?p = "upd_client i (\<lambda>x. x\<lparr>sc_last_poll_ms := now\<rparr>) ?w1"
  have p: "stream_step c w ?p"
    by (rule stream_step_trans [OF stream_step_tick stream_step_client]) (simp add: client_key_def)
  have "sc_c (sse_clients ?p ! i) = Some c" using stream_key_at [OF p f(1)] f(3) by (simp add: client_key_def)
  from stream_send_event [OF this] have e: "stream_step c w (snd (sse_send_event E i ?p))"
    by (rule stream_step_trans [OF p])
  have g: "stream_step c w (mg_send c b (upd_client i (\<lambda>x. x\<lparr>sc_last_ping_ms := now\<rparr>) v))" if "stream_step c w v" for b v
    by (rule stream_step_trans [OF stream_step_trans [OF that stream_step_client] stream_step_send]) (simp add: client_key_def)
  have t: "stream_step c w ?w1" by (rule stream_step_tick)
  show ?thesis
    unfolding sse_on_poll_def Some option.case ask_def prod.case Let_def now_def [symmetric]
    using e t g by simp
qed

section \<open>Slots\<close>

lemma clients_split: "clients (xs @ x # ys) = clients xs @ (if sc_active x then [sc_c x] else []) @ clients ys"
  by (simp add: clients_def)

lemma slot_split:
  assumes "i < length xs"
  shows "\<exists>ys zs. xs = ys @ xs ! i # zs \<and> (\<forall>y. xs[i := y] = ys @ y # zs)"
  using assms id_take_nth_drop [OF assms] by (metis upd_conv_take_nth_drop)

lemma upd_client_simps [simp]:
  "w_conns (upd_client i f w) = w_conns w" "conn_at (upd_client i f w) a = conn_at w a"
  "hw_conns (upd_client i f w) = hw_conns w" "w_ws_conn (upd_client i f w) = w_ws_conn w"
  "sse_clients (upd_client i f w) = (sse_clients w)[i := f (sse_clients w ! i)]" "sent (upd_client i f w) a = sent w a"
  by (simp_all add: upd_client_def conn_at_def sent_def)

lemma ws_ok_client: "ws_ok (upd_client i f w) \<longleftrightarrow> ws_ok w"
  by (simp add: ws_ok_def table_ok_def ids_differ_def ws_users_def)

lemma stream_conn_client [simp]: "stream_conn (upd_client i f w) c \<longleftrightarrow> stream_conn w c"
  by (simp add: stream_conn_def)

lemma inv_open_slot:
  assumes "srv_inv w" "i < length (sse_clients w)" "\<not> sc_active (sse_clients w ! i)" "stream_conn w c"
    "c \<notin> streams w" "client_ok y" "sc_active y" "sc_c y = Some c"
  shows "srv_inv (upd_client i (\<lambda>_. y) w)"
proof -
  obtain ys zs where s: "sse_clients w = ys @ sse_clients w ! i # zs" "(sse_clients w)[i := y] = ys @ y # zs"
    using slot_split [OF assms(2)] by blast
  have old: "clients (sse_clients w) = clients ys @ clients zs" by (subst s(1)) (simp add: clients_split assms(3))
  have new: "clients ((sse_clients w)[i := y]) = clients ys @ Some c # clients zs"
    unfolding s(2) by (simp add: clients_split assms(7,8))
  have st: "streams (upd_client i (\<lambda>_. y) w) = insert c (streams w)" using old new by (auto simp: streams_def)
  have "set ((sse_clients w)[i := y]) \<subseteq> insert y (set (sse_clients w))" by (rule set_update_subset_insert)
  then have "\<forall>x \<in> set ((sse_clients w)[i := y]). sc_active x \<longrightarrow> client_ok x"
    using assms(1,6) by (auto simp: srv_inv_def sse_ok_def)
  moreover have "distinct (clients ((sse_clients w)[i := y]))"
    using assms(1,5) unfolding new by (auto simp: srv_inv_def sse_ok_def old streams_def)
  ultimately have "sse_ok (upd_client i (\<lambda>_. y) w)"
    using assms(1,4) by (simp add: sse_ok_def st srv_inv_def)
  with assms(1) show ?thesis by (simp add: srv_inv_def ws_ok_client)
qed

lemma inv_on_close:
  assumes "srv_inv w"
  shows "srv_inv (sse_on_close c w)" "streams (sse_on_close c w) = streams w - {c}"
proof -
  have "srv_inv (sse_on_close c w) \<and> streams (sse_on_close c w) = streams w - {c}"
  proof (cases "sse_find c w")
    case None
    then have "\<forall>x \<in> set (sse_clients w). \<not> (sc_active x \<and> sc_c x = Some c)"
      by (simp add: sse_find_def find_slot_None)
    then have "c \<notin> streams w" by (auto simp: streams_def clients_def)
    with None assms show ?thesis by (simp add: sse_on_close_def)
  next
    case (Some i)
    note f = sse_find_Some [OF Some]
    let ?y = no_client
    obtain ys zs where s: "sse_clients w = ys @ sse_clients w ! i # zs" "(sse_clients w)[i := ?y] = ys @ ?y # zs"
      using slot_split [OF f(1)] by blast
    have old: "clients (sse_clients w) = clients ys @ Some c # clients zs"
      by (subst s(1)) (simp add: clients_split f(2,3))
    have new: "clients ((sse_clients w)[i := ?y]) = clients ys @ clients zs"
      unfolding s(2) by (simp add: clients_split no_client_def)
    have "distinct (clients (sse_clients w))" using assms by (simp add: srv_inv_def sse_ok_def)
    then have st: "streams (upd_client i (\<lambda>_. ?y) w) = streams w - {c}" using old new by (auto simp: streams_def)
    have "set ((sse_clients w)[i := ?y]) \<subseteq> insert ?y (set (sse_clients w))" by (rule set_update_subset_insert)
    then have "\<forall>x \<in> set ((sse_clients w)[i := ?y]). sc_active x \<longrightarrow> client_ok x"
      using assms by (auto simp: srv_inv_def sse_ok_def no_client_def)
    moreover have "distinct (clients ((sse_clients w)[i := ?y]))"
      using assms unfolding new by (auto simp: srv_inv_def sse_ok_def old)
    ultimately have "sse_ok (upd_client i (\<lambda>_. ?y) w)"
      using assms by (simp add: sse_ok_def st srv_inv_def)
    with Some assms st show ?thesis by (simp add: srv_inv_def ws_ok_client sse_on_close_def)
  qed
  then show "srv_inv (sse_on_close c w)" "streams (sse_on_close c w) = streams w - {c}" by blast+
qed

lemma interval_bounds: "SSE_MIN_INTERVAL_MS \<le> wanted_interval hm \<and> wanted_interval hm \<le> SSE_MAX_INTERVAL_MS"
  by (simp add: wanted_interval_def Let_def SSE_MIN_INTERVAL_MS_def SSE_MAX_INTERVAL_MS_def SSE_DEFAULT_INTERVAL_MS_def
      split: option.split)

lemma inv_open:
  fixes w :: "'a sse_world_scheme"
  assumes "srv_inv w" "c \<notin> streams w" "stream_conn w c"
  shows "srv_inv (sse_open E c hm w)"
proof -
  let ?lib = "query_text hm ''lib'' SSE_LIB_MAX ''sse_demo''" and ?sym = "query_text hm ''symbol'' SSE_SYMBOL_MAX ''sse_next''"
  let ?w1 = "w\<lparr>w_tick := Suc (w_tick w)\<rparr>" and ?w2 = "w\<lparr>w_tick := Suc (Suc (w_tick w))\<rparr>"
  have re: "srv_inv (reply_json c code j v)" if "v = w \<or> v = ?w1 \<or> v = ?w2" for code j v
  proof -
    have "conn_only c w v" using that by auto
    from conn_only_trans [OF this conn_only_reply(3)] show ?thesis using inv_conn_only [OF _ assms(1,2)] by blast
  qed
  have go: "srv_inv (snd (sse_send_event E slot (upd_client slot (\<lambda>_. new_client c hm ?lib ?sym p q) v)))"
    if "sse_safe_name (Some ?lib)" "sse_safe_name (Some ?sym)" and slot: "find_slot (\<lambda>x. \<not> sc_active x) 0 (sse_clients w) = Some slot"
      and v: "v = (mg_send c SSE_HEAD ?w2)\<lparr>w_tick := n\<rparr>" for slot p q n v
  proof -
    let ?y = "new_client c hm ?lib ?sym p q"
    have s: "stream_step c w v"
      unfolding v by (rule stream_step_trans [OF stream_step_trans [OF stream_step_tick stream_step_send] stream_step_tick])
    note i = inv_stream_step [OF s assms(1)]
    have f: "slot < length (sse_clients w)" "\<not> sc_active (sse_clients w ! slot)" using find_slot_Some [OF slot] by simp_all
    then have "slot < length (sse_clients v)" "\<not> sc_active (sse_clients v ! slot)"
      using s stream_key_at [OF s f(1)] by (auto simp: client_key_def stream_step_def dest: map_eq_imp_length_eq)
    moreover have "stream_conn v c"
      using assms(3) s by (subst stream_conn_flags [of v w]) (simp_all add: stream_step_def)
    moreover have "client_ok ?y" using that(1,2) interval_bounds [of hm] query_text_fits
      by (simp add: client_ok_def new_client_def SSE_LIB_MAX_def SSE_SYMBOL_MAX_def SSE_ARGS_MAX_def)
    ultimately have o: "srv_inv (upd_client slot (\<lambda>_. ?y) v)"
      using i assms(2) by (intro inv_open_slot [where c = c]) (simp_all add: new_client_def)
    have "stream_step c (upd_client slot (\<lambda>_. ?y) v) (snd (sse_send_event E slot (upd_client slot (\<lambda>_. ?y) v)))"
      using \<open>slot < length (sse_clients v)\<close> by (intro stream_send_event) (simp add: new_client_def)
    from inv_stream_step(1) [OF this o] show ?thesis .
  qed
  show ?thesis
    unfolding sse_open_def ask_def ask2_def prod.case Let_def
    by (auto split: option.split intro!: re go)
qed

section \<open>WebSocket connections\<close>

lemma inv_same_net: "same_net w w' \<Longrightarrow> srv_inv w \<Longrightarrow> srv_inv w'"
  using inv_touches(1) [OF touches_same] by blast

lemma streams_not_ws: "srv_inv w \<Longrightarrow> c_fn (conn_at w c) = Ws_handler \<Longrightarrow> c \<notin> streams w"
  by (auto simp: srv_inv_def sse_ok_def stream_conn_def)

lemma inv_hw_conns:
  fixes w :: "'a sse_world_scheme"
  assumes "srv_inv w" "table_ok (w\<lparr>hw_conns := ys\<rparr>)" "\<forall>a \<in> used ys. c_fn (conn_at w a) = Ws_handler"
  shows "srv_inv (w\<lparr>hw_conns := ys\<rparr>)"
proof -
  have "ids_differ (w\<lparr>hw_conns := ys\<rparr>)" using assms(1) by (simp add: srv_inv_def ws_ok_def ids_differ_def conn_at_def)
  moreover have "\<forall>a \<in> ws_users (w\<lparr>hw_conns := ys\<rparr>). c_fn (conn_at (w\<lparr>hw_conns := ys\<rparr>) a) = Ws_handler"
    using assms(1,3) by (auto simp: srv_inv_def ws_ok_def ws_users_def conn_at_def)
  moreover have "sse_ok (w\<lparr>hw_conns := ys\<rparr>)"
    using assms(1) by (simp add: srv_inv_def sse_ok_def streams_def stream_conn_def conn_at_def)
  ultimately show ?thesis using assms(2) by (simp add: srv_inv_def ws_ok_def)
qed

lemma inv_ws_conn:
  fixes w :: "'a sse_world_scheme"
  assumes "srv_inv w" "set_option r \<subseteq> dom (w_conns w)" "\<forall>a \<in> set_option r. c_fn (conn_at w a) = Ws_handler"
  shows "srv_inv (w\<lparr>w_ws_conn := r\<rparr>)"
proof -
  have "ids_differ (w\<lparr>w_ws_conn := r\<rparr>)" using assms(1) by (simp add: srv_inv_def ws_ok_def ids_differ_def conn_at_def)
  moreover have "table_ok (w\<lparr>w_ws_conn := r\<rparr>)" using assms(1,2) by (simp add: srv_inv_def ws_ok_def table_ok_def)
  moreover have "\<forall>a \<in> ws_users (w\<lparr>w_ws_conn := r\<rparr>). c_fn (conn_at (w\<lparr>w_ws_conn := r\<rparr>) a) = Ws_handler"
    using assms(1,3) by (auto simp: srv_inv_def ws_ok_def ws_users_def conn_at_def)
  moreover have "sse_ok (w\<lparr>w_ws_conn := r\<rparr>)"
    using assms(1) by (simp add: srv_inv_def sse_ok_def streams_def stream_conn_def conn_at_def)
  ultimately show ?thesis by (simp add: srv_inv_def ws_ok_def)
qed

lemma inv_drain_flag:
  fixes w :: "'a sse_world_scheme"
  assumes "srv_inv w" "c_fn (conn_at w c) = Ws_handler"
  shows "srv_inv (upd_conn c (\<lambda>x. x\<lparr>c_is_draining := b\<rparr>) w)"
  by (rule inv_conn_only(1) [OF _ assms(1) streams_not_ws [OF assms]]) (rule conn_only_upd, simp)

lemma users_ws: "srv_inv w \<Longrightarrow> a \<in> ws_users w \<Longrightarrow> c_fn (conn_at w a) = Ws_handler"
  by (simp add: srv_inv_def ws_ok_def)

lemma inv_table: "srv_inv w \<Longrightarrow> table_ok w"
  by (simp add: srv_inv_def ws_ok_def)

lemma inv_upgrade:
  fixes w :: "'a sse_world_scheme"
  assumes "srv_inv w" "c \<in> dom (w_conns w)" "c_fn (conn_at w c) = Ws_handler"
  shows "srv_inv (ws_on_upgrade E c w)"
proof -
  obtain ok w1 where r: "ws_conn_register c w = (ok, w1)" by (cases "ws_conn_register c w")
  obtain ys where ys: "w1 = w\<lparr>hw_conns := ys\<rparr>" "used ys \<subseteq> insert c (used (hw_conns w))"
    using register_props [OF inv_table [OF assms(1)] r] by blast
  have "c_fn (conn_at w a) = Ws_handler" if "a \<in> used ys" for a
    using that ys(2) assms(3) users_ws [OF assms(1), of a] by (auto simp: ws_users_def)
  then have i1: "srv_inv w1"
    using table_ok_register(1) [OF inv_table [OF assms(1)] assms(2) r] assms(1) unfolding ys(1) by (intro inv_hw_conns) auto
  have c1: "conn_at w1 c = conn_at w c" "w_conns w1 = w_conns w" using ys(1) by (simp_all add: conn_at_def)
  show ?thesis
  proof (cases ok)
    case False
    with r i1 c1 assms(3) show ?thesis by (simp add: ws_on_upgrade_def inv_drain_flag)
  next
    case True
    have "srv_inv (w1\<lparr>w_ws_conn := Some c\<rparr>)" using i1 c1 assms(2,3) by (intro inv_ws_conn) auto
    moreover have "touches {c} (w1\<lparr>w_ws_conn := Some c\<rparr>) (ws_welcome E c (need_rt (w1\<lparr>w_ws_conn := Some c\<rparr>)))"
      by (rule touches_trans [OF touches_need_rt touches_welcome])
    ultimately show ?thesis using inv_touches(1) True r by (auto simp: ws_on_upgrade_def)
  qed
qed

lemma inv_unregister:
  fixes w :: "'a sse_world_scheme"
  assumes "srv_inv w"
  shows "srv_inv (ws_conn_unregister c w)" "c \<notin> ws_users (ws_conn_unregister c w)"
    "conn_at (ws_conn_unregister c w) a = conn_at w a" "streams (ws_conn_unregister c w) = streams w"
proof -
  let ?w = "ws_conn_unregister c w"
  note u = table_ok_unregister [OF inv_table [OF assms], of c]
  show c: "conn_at ?w a = conn_at w a" for a using u by (simp add: conn_at_def)
  have s: "sse_clients ?w = sse_clients w" by (simp add: ws_conn_unregister_def Let_def)
  then show st: "streams ?w = streams w" by (simp add: streams_def)
  have users: "ws_users ?w \<subseteq> ws_users w" using u unfolding ws_users_def by auto
  have "ids_differ ?w \<longleftrightarrow> ids_differ w" using u c by (intro ids_cong) auto
  moreover have "sse_ok ?w" using assms s st u c by (simp add: srv_inv_def sse_ok_def stream_conn_def)
  ultimately show "srv_inv ?w" using assms u c users by (auto simp: srv_inv_def ws_ok_def)
  show "c \<notin> ws_users ?w" using u by (auto simp: ws_users_def)
qed

lemma inv_free:
  fixes w :: "'a sse_world_scheme"
  assumes "srv_inv w" "c \<notin> ws_users w" "c \<notin> streams w"
  shows "srv_inv (free_conn c w)"
proof -
  have c: "a \<noteq> c \<Longrightarrow> conn_at (free_conn c w) a = conn_at w a" for a by (simp add: free_conn_def conn_at_def)
  have f: "hw_conns (free_conn c w) = hw_conns w" "w_ws_conn (free_conn c w) = w_ws_conn w"
    "sse_clients (free_conn c w) = sse_clients w" "w_conns (free_conn c w) = (w_conns w)(c := None)"
    by (simp_all add: free_conn_def)
  then have s: "streams (free_conn c w) = streams w" "ws_users (free_conn c w) = ws_users w"
    by (simp_all add: streams_def ws_users_def)
  have "table_ok (free_conn c w)" using inv_table [OF assms(1)] assms(2) f by (auto simp: table_ok_def ws_users_def)
  moreover have "ids_differ (free_conn c w)"
  proof -
    have "inj_on (\<lambda>a. c_id (conn_at w a)) (dom (w_conns w) - {c})"
      using assms(1) by (auto simp: srv_inv_def ws_ok_def ids_differ_def intro: inj_on_diff)
    then show ?thesis using c f(4) by (simp add: ids_differ_def inj_on_def)
  qed
  moreover have "\<forall>a \<in> ws_users (free_conn c w). c_fn (conn_at (free_conn c w) a) = Ws_handler"
    using s assms(1,2) users_ws c by (metis (full_types))
  moreover have "stream_conn (free_conn c w) a" if "a \<in> streams w" for a
  proof -
    have "a \<noteq> c" "stream_conn w a" using that assms by (auto simp: srv_inv_def sse_ok_def)
    with c f show ?thesis by (simp add: stream_conn_def)
  qed
  ultimately show ?thesis using assms(1) f s by (simp add: srv_inv_def ws_ok_def sse_ok_def)
qed

lemma inv_ws_event:
  fixes w :: "'a sse_world_scheme"
  assumes "srv_inv w" "c \<in> dom (w_conns w)" "c_fn (conn_at w c) = Ws_handler"
  shows "srv_inv (ws_ev_handler E c ev w)"
proof (cases ev)
  case MG_EV_WS_OPEN
  with inv_upgrade [OF assms] show ?thesis by (simp add: ws_ev_handler_def)
next
  case (MG_EV_WS_CTL fl)
  with assms(1) inv_unregister(1) [OF assms(1)] show ?thesis by (simp add: ws_ev_handler_def)
next
  case MG_EV_CLOSE
  note u = inv_unregister(1) [OF assms(1), of c]
  have "touches (set_option (w_ws_conn (ws_conn_unregister c w))) (ws_conn_unregister c w) (ws_ev_handler E c MG_EV_CLOSE w)"
    by (simp add: ws_ev_handler_def Let_def touches_remove_by_conn)
  with u MG_EV_CLOSE show ?thesis using inv_touches(1) by blast
next
  case (MG_EV_WS_MSG data)
  have t: "srv_inv v \<and> c_fn (conn_at v c) = Ws_handler" if "touches S w v" for S and v :: "'a sse_world_scheme"
    using that assms(1,3) inv_touches(1) [OF that] flags_eqD(5) [of "conn_at v c" "conn_at w c"] by (simp add: touches_def)
  have "touches (audience c w) w (handle_ws_message E c data (w\<lparr>w_tick := n\<rparr>))" for n
  proof -
    have "audience c (w\<lparr>w_tick := n\<rparr>) = audience c w" by (simp add: audience_def)
    with touches_message [of c "w\<lparr>w_tick := n\<rparr>" E data] show ?thesis
      using touches_trans [OF touches_tick, of "audience c w"] by metis
  qed
  then have m: "srv_inv (handle_ws_message E c data (w\<lparr>w_tick := n\<rparr>))" for n using t by blast
  have p: "srv_inv (upd_conn c (\<lambda>x. x\<lparr>c_is_draining := True\<rparr>) (event_push_json_string_to E (Some c) ty d w))" for ty d
    using t [OF touches_pushes_to(3)] by (intro inv_drain_flag) blast+
  have "srv_inv (upd_conn c (\<lambda>x. x\<lparr>c_is_draining := True\<rparr>) (w\<lparr>w_tick := n\<rparr>))" for n
    using t [OF touches_tick] by (intro inv_drain_flag) blast+
  with m p MG_EV_WS_MSG show ?thesis by (simp add: ws_ev_handler_def ask_def)
qed (use assms in \<open>simp_all add: ws_ev_handler_def\<close>)

lemma inv_call_done:
  fixes w :: "'a sse_world_scheme"
  assumes "srv_inv w"
  shows "srv_inv (ws_call_done i json w)"
proof -
  obtain r w1 where f: "ws_conn_find i w = (r, w1)" by (cases "ws_conn_find i w")
  obtain ys where ys: "w1 = w\<lparr>hw_conns := ys\<rparr>" "table_ok w1" "used ys \<subseteq> used (hw_conns w)"
    using find_live [OF inv_table [OF assms] f] by (elim exE conjE) (rule that, assumption+)
  have "\<forall>a \<in> used ys. c_fn (conn_at w a) = Ws_handler"
    using ys(3) users_ws [OF assms] by (auto simp: ws_users_def)
  then have "srv_inv w1" using inv_hw_conns [OF assms] ys(1,2) by simp
  then show ?thesis
    using f inv_touches(1) [OF touches_push_to] by (auto simp: ws_call_done_def split: option.split)
qed

lemma inv_drain:
  fixes w :: "'a sse_world_scheme"
  assumes "srv_inv w"
  shows "srv_inv (ws_drain_call_results w)"
proof -
  have "srv_inv (w\<lparr>wk_done := lq_empty\<rparr>)" by (rule inv_same_net [OF _ assms]) (simp add: same_net_def)
  moreover have "srv_inv v \<Longrightarrow> srv_inv (fold (\<lambda>(i, json) v. ws_call_done i json v) ds v)" for ds and v :: "'a sse_world_scheme"
    by (induction ds arbitrary: v) (auto simp: inv_call_done)
  ultimately show ?thesis by (simp add: ws_drain_call_results_def ws_worker_drain_def Let_def)
qed


section \<open>Requests\<close>

lemma touches_announce: "touches (audience c w) w (event_push_with_type E ty d w)"
  by (rule touches_push_with_type) (auto simp: audience_def)

lemma inv_announce:
  assumes "srv_inv w"
  shows "srv_inv (event_push_with_type E ty d w)" "streams (event_push_with_type E ty d w) = streams w"
  using inv_touches [OF touches_announce] assms by blast+

lemma srv_inv_reply:
  fixes w :: "'a sse_world_scheme"
  assumes "srv_inv w" "c \<notin> streams w"
  shows "srv_inv (reply_json c code j w)" "srv_inv (mg_http_reply c code hs b w)"
  using inv_conn_only(1) [OF conn_only_reply(3) assms] inv_conn_only(1) [OF conn_only_reply(1) assms] .

lemma inv_libary:
  fixes w :: "'a sse_world_scheme"
  assumes "srv_inv w" "c \<notin> streams w"
  shows "srv_inv (ev_handler_libary E c hm body w)"
proof -
  have tick: "srv_inv (w\<lparr>w_tick := n\<rparr>)" "streams (w\<lparr>w_tick := n\<rparr>) = streams w" for n
    using inv_touches [of "{}" w "w\<lparr>w_tick := n\<rparr>"] assms(1) by simp_all
  have call: "srv_inv v \<and> streams v = streams w"
    if "call_local_dyn_libffi E path f j (w\<lparr>w_tick := n\<rparr>) = (r, v)" for path f j n r v
  proof -
    have "touches {} (w\<lparr>w_tick := n\<rparr>) (snd (call_local_dyn_libffi E path f j (w\<lparr>w_tick := n\<rparr>)))"
      by (rule touches_dl [OF dl_keeps_call])
    with that inv_touches [of "{}" "w\<lparr>w_tick := n\<rparr>" v] tick show ?thesis by simp
  qed
  show ?thesis
    using srv_inv_reply [OF assms] srv_inv_reply [OF tick(1)] tick(2) assms(2) call
    by (auto simp: ev_handler_libary_def Let_def ask_def intro!: srv_inv_reply split: prod.split option.split)
qed

lemma inv_ws_fn:
  fixes w :: "'a sse_world_scheme"
  assumes "srv_inv w" "c \<notin> streams w" "c \<in> dom (w_conns w)"
  shows "srv_inv (upd_conn c (\<lambda>x. x\<lparr>c_fn := Ws_handler\<rparr>) w)"
    "c_fn (conn_at (upd_conn c (\<lambda>x. x\<lparr>c_fn := Ws_handler\<rparr>) w) c) = Ws_handler"
proof -
  let ?w = "upd_conn c (\<lambda>x. x\<lparr>c_fn := Ws_handler\<rparr>) w"
  have "world0.more ?w = world0.more w" by simp
  note m = more_sse(1) [OF this]
  have s: "streams ?w = streams w" "ws_users ?w = ws_users w" using m by (simp_all add: streams_def ws_users_def)
  have at: "c_fn (conn_at ?w a) = (if a = c then Ws_handler else c_fn (conn_at w a))"
    "c_id (conn_at ?w a) = c_id (conn_at w a)" for a
    using assms(3) by (cases "a = c"; simp)+
  have "table_ok ?w" using inv_table [OF assms(1)] by simp
  moreover have "ids_differ ?w"
    using ids_cong [of ?w w] assms(1) at by (simp add: srv_inv_def ws_ok_def)
  moreover have "\<forall>a \<in> ws_users ?w. c_fn (conn_at ?w a) = Ws_handler" using s at users_ws [OF assms(1)] by simp
  moreover have "sse_ok ?w"
  proof (rule sse_ok_cong)
    show "sse_ok w" "sse_clients ?w = sse_clients w" using assms(1) m by (simp_all add: srv_inv_def)
    fix a assume "a \<in> streams w" "stream_conn w a"
    with assms(2) have "a \<noteq> c" "stream_conn w a" by auto
    then show "stream_conn ?w a" by (simp add: stream_conn_def)
  qed
  ultimately show "srv_inv ?w" by (simp add: srv_inv_def ws_ok_def)
  show "c_fn (conn_at ?w c) = Ws_handler" using at by simp
qed

lemma inv_upgrade_ws:
  fixes w :: "'a sse_world_scheme"
  assumes "srv_inv w" "c \<notin> streams w" "c \<in> dom (w_conns w)"
  shows "srv_inv (upgrade_ws E c hm w)"
proof -
  have u: "conn_only c w (mg_ws_upgrade c hm w)" by (rule conn_only_upgrade)
  have d: "c \<in> dom (w_conns (mg_ws_upgrade c hm w))" using assms(3) u by (simp add: conn_only_def)
  note i = inv_conn_only [OF u assms(1,2)]
  have "c \<notin> streams (mg_ws_upgrade c hm w)" using i(2) assms(2) by simp
  note f = inv_ws_fn [OF i(1) this d]
  have "c \<in> dom (w_conns (upd_conn c (\<lambda>x. x\<lparr>c_fn := Ws_handler\<rparr>) (mg_ws_upgrade c hm w)))" using d by simp
  from inv_upgrade [OF f(1) this f(2)] show ?thesis by (simp add: upgrade_ws_def)
qed

lemma inv_request:
  fixes w :: "'a sse_world_scheme"
  assumes "srv_inv w" "c \<notin> streams w" "stream_conn w c"
  shows "srv_inv (on_request E c hm body w)"
proof -
  have d: "c \<in> dom (w_conns w)" using assms(3) by (simp add: stream_conn_def)
  have tick: "srv_inv (w\<lparr>w_tick := n\<rparr>)" "streams (w\<lparr>w_tick := n\<rparr>) = streams w" for n
    using inv_touches [of "{}" w "w\<lparr>w_tick := n\<rparr>"] assms(1) by simp_all
  have lib: "srv_inv (libary_call E c hm body v)" if "srv_inv v" "streams v = streams w"
    for v :: "'a sse_world_scheme"
    unfolding libary_call_def using that assms(2) by (intro inv_libary) (simp_all add: inv_announce)
  have probe: "\<exists>b. probe_plugin E hm w = (b, w) \<or> (\<exists>n. probe_plugin E hm w = (b, w\<lparr>w_tick := n\<rparr>))"
    by (auto simp: probe_plugin_def Let_def ask_def)
  then have rest: "srv_inv (case probe_plugin E hm w of (True, w1) \<Rightarrow> libary_call E c hm body w1
       | (False, w1) \<Rightarrow> if m then ev_handler_static E c hm w1 else libary_call E c hm body w1)" for m
  proof -
    have "srv_inv (ev_handler_static E c hm v)" if "v = w \<or> (\<exists>n. v = w\<lparr>w_tick := n\<rparr>)"
      for v :: "'a sse_world_scheme"
      using that tick assms(1,2) inv_conn_only(1) [OF conn_only_static, of v c E hm] by auto
    then have "srv_inv (ev_handler_static E c hm w)" "srv_inv (ev_handler_static E c hm (w\<lparr>w_tick := n\<rparr>))" for n
      by blast+
    with probe lib tick assms(1) show ?thesis by (auto split: bool.split)
  qed
  have push: "srv_inv (reply_json c code j (event_push_with_type E ty dt w))" for code j ty dt
    using assms(1,2) by (intro srv_inv_reply(1)) (simp_all add: inv_announce)
  show ?thesis
    unfolding on_request_def Let_def
    by (simp add: srv_inv_reply [OF assms(1,2)] inv_upgrade_ws [OF assms(1,2) d] ev_handler_sse_def inv_open [OF assms]
        rest push api_push_def api_status_def api_iceoryx_def api_log_def)
qed

section \<open>Every step\<close>

lemma inv_accept:
  fixes w :: "'a sse_world_scheme"
  assumes "srv_inv w" "a \<notin> dom (w_conns w)" "\<forall>b x. w_conns w b = Some x \<longrightarrow> c_id x \<noteq> i"
  shows "srv_inv (w\<lparr>w_conns := (w_conns w)(a \<mapsto> null_conn\<lparr>c_id := i\<rparr>)\<rparr>)"
proof -
  let ?w = "w\<lparr>w_conns := (w_conns w)(a \<mapsto> null_conn\<lparr>c_id := i\<rparr>)\<rparr>"
  have at: "b \<in> dom (w_conns w) \<Longrightarrow> conn_at ?w b = conn_at w b" for b
    using assms(2) by (auto simp: conn_at_def)
  have new: "c_id (conn_at ?w a) = i" by (simp add: conn_at_def)
  have t: "table_ok w" using inv_table [OF assms(1)] .
  then have users: "ws_users w \<subseteq> dom (w_conns w)" by (auto simp: table_ok_def ws_users_def)
  have "table_ok ?w" using t by (auto simp: table_ok_def)
  moreover have "ids_differ ?w"
  proof -
    have "c_id (conn_at w b) \<noteq> i" if "b \<in> dom (w_conns w)" for b
      using that assms(3) [rule_format, of b] by (auto simp: conn_at_def)
    then have "i \<notin> (\<lambda>b. c_id (conn_at w b)) ` dom (w_conns w)" by auto
    then have "i \<notin> (\<lambda>b. c_id (conn_at ?w b)) ` dom (w_conns w)" using at by (simp cong: image_cong)
    moreover have "inj_on (\<lambda>b. c_id (conn_at ?w b)) (dom (w_conns w))"
      using assms(1) at inj_on_cong [of "dom (w_conns w)" "\<lambda>b. c_id (conn_at ?w b)" "\<lambda>b. c_id (conn_at w b)"]
      by (simp add: srv_inv_def ws_ok_def ids_differ_def)
    ultimately show ?thesis using assms(2) new by (simp add: ids_differ_def)
  qed
  moreover have "\<forall>b \<in> ws_users ?w. c_fn (conn_at ?w b) = Ws_handler"
  proof
    fix b assume "b \<in> ws_users ?w"
    then have b: "b \<in> ws_users w" by (simp add: ws_users_def)
    with users have "b \<in> dom (w_conns w)" by blast
    with at b users_ws [OF assms(1)] show "c_fn (conn_at ?w b) = Ws_handler" by simp
  qed
  moreover have "sse_ok ?w"
  proof (rule sse_ok_cong)
    show "sse_ok w" "sse_clients ?w = sse_clients w" using assms(1) by (simp_all add: srv_inv_def)
    fix b assume "stream_conn w b"
    then show "stream_conn ?w b" using at [of b] by (auto simp: stream_conn_def)
  qed
  ultimately show ?thesis by (simp add: srv_inv_def ws_ok_def)
qed

lemma inv_library:
  fixes w :: "'a sse_world_scheme"
  assumes "srv_inv w" "w_conns w c = Some x" "library_change x y"
  shows "srv_inv (w\<lparr>w_conns := (w_conns w)(c \<mapsto> y)\<rparr>)"
proof -
  let ?w = "w\<lparr>w_conns := (w_conns w)(c \<mapsto> y)\<rparr>"
  have d: "dom (w_conns ?w) = dom (w_conns w)" using assms(2) by auto
  have at: "c_id (conn_at ?w a) = c_id (conn_at w a)" "c_fn (conn_at ?w a) = c_fn (conn_at w a)" for a
    using assms(2,3) by (simp_all add: conn_at_def library_change_def)
  have t: "table_ok w" using inv_table [OF assms(1)] .
  have "table_ok ?w" using t d by (simp add: table_ok_def)
  moreover have "ids_differ ?w" using ids_cong [OF d at(1)] assms(1) by (simp add: srv_inv_def ws_ok_def)
  moreover have "\<forall>b \<in> ws_users ?w. c_fn (conn_at ?w b) = Ws_handler"
    using users_ws [OF assms(1)] at by (simp add: ws_users_def)
  moreover have "sse_ok ?w"
  proof (rule sse_ok_cong)
    show "sse_ok w" "sse_clients ?w = sse_clients w" using assms(1) by (simp_all add: srv_inv_def)
    fix b assume "stream_conn w b"
    then show "stream_conn ?w b" using d at [of b] assms(2,3)
      by (cases "b = c") (auto simp: stream_conn_def conn_at_def library_change_def)
  qed
  ultimately show ?thesis by (simp add: srv_inv_def ws_ok_def)
qed

lemma srv_inv_step:
  assumes "srv_step E w w'" "srv_inv w"
  shows "srv_inv w'"
  using assms
proof (cases rule: srv_step.cases)
  case (accept a i)
  with inv_accept [OF assms(2)] show ?thesis by blast
next
  case (request c hm body)
  let ?w = "upd_conn c (\<lambda>x. x\<lparr>c_is_resp := True\<rparr>) w"
  have c: "c \<notin> streams w" using assms(2) request(2) by (auto simp: srv_inv_def sse_ok_def stream_conn_def)
  have o: "conn_only c w ?w" by (rule conn_only_upd) simp
  note i = inv_conn_only [OF o assms(2) c]
  have at: "conn_at ?w c = (conn_at w c)\<lparr>c_is_resp := True\<rparr>" using request(1) by simp
  show ?thesis
  proof (cases "c_fn (conn_at w c)")
    case Http_handler
    with request at have "stream_conn ?w c" by (auto simp: stream_conn_def)
    with i c have "srv_inv (on_request E c hm body ?w)" by (intro inv_request) simp_all
    with request(4) Http_handler at show ?thesis by (simp add: call_handler_def ev_handler_def)
  next
    case Ws_handler
    with request(4) at i show ?thesis by (simp add: call_handler_def ws_ev_handler_def)
  qed
next
  case (event c ev)
  show ?thesis
  proof (cases "c_fn (conn_at w c)")
    case Http_handler
    have "srv_inv (sse_on_poll E c w)" using inv_stream_step(1) [OF stream_poll assms(2)] .
    with event Http_handler assms(2) show ?thesis
      by (cases ev) (auto simp: call_handler_def ev_handler_def)
  next
    case Ws_handler
    with event inv_ws_event [OF assms(2)] show ?thesis by (simp add: call_handler_def)
  qed
next
  case (close c)
  show ?thesis
  proof (cases "c_fn (conn_at w c)")
    case Http_handler
    have n: "hw_conns (sse_on_close c w) = hw_conns w" "w_ws_conn (sse_on_close c w) = w_ws_conn w"
      by (simp_all add: sse_on_close_def split: option.split)
    have "c \<notin> ws_users w" using Http_handler users_ws [OF assms(2), of c] by auto
    then have "c \<notin> ws_users (sse_on_close c w)" using n by (simp add: ws_users_def)
    then have "srv_inv (free_conn c (sse_on_close c w))" using inv_on_close [OF assms(2), of c] by (intro inv_free) simp_all
    with close(2) Http_handler show ?thesis by (simp add: call_handler_def ev_handler_def)
  next
    case Ws_handler
    let ?u = "ws_conn_unregister c w" and ?w = "ws_ev_handler E c MG_EV_CLOSE w"
    have t: "touches (set_option (w_ws_conn ?u)) ?u ?w"
      by (simp add: ws_ev_handler_def Let_def touches_remove_by_conn)
    note u = inv_unregister [OF assms(2), of c]
    have "ws_users ?w = ws_users ?u" using t by (simp add: ws_users_def touches_def)
    moreover have "c \<notin> streams w" using streams_not_ws [OF assms(2) Ws_handler] .
    ultimately have "srv_inv (free_conn c ?w)" using inv_touches [OF t] u by (intro inv_free) simp_all
    with close(2) Ws_handler show ?thesis by (simp add: call_handler_def)
  qed
next
  case (library c x y)
  with inv_library [OF assms(2)] show ?thesis by blast
next
  case drain
  with inv_drain [OF assms(2)] show ?thesis by simp
next
  case (thread t)
  then show ?thesis using inv_same_net [OF same_net_thread assms(2)] by blast
qed

lemma same_net_start:
  fixes w :: "'a sse_world_scheme"
  assumes "start_server E listens addr w = Some w'"
  shows "same_net w w'"
proof -
  have p: "same_net w (snd (event_pusher_init E w))"
    by (auto simp: event_pusher_init_def nng_init_internal_def nng_pub0_open_def nng_listen_def nng_close_def ask_def
        same_net_def split: prod.splits)
  have i: "same_net v (snd (ws_worker_init E v))" for v :: "'a sse_world_scheme"
  proof -
    let ?w = "v\<lparr>wk_running := True, wk_inited := True, wk_stats := no_stats\<rparr>"
    obtain k m where "create_threads E WS_WORKER_THREADS ?w = ?w\<lparr>w_tick := m,
        wk_thread_count := wk_thread_count ?w + k, wk_pcs := wk_pcs ?w @ replicate k Idle\<rparr>"
      using create_threads_effect [of WS_WORKER_THREADS E ?w] by blast
    then show ?thesis by (simp add: ws_worker_init_def Let_def same_net_def)
  qed
  obtain ok w1 where w1: "event_pusher_init E w = (ok, w1)" by (cases "event_pusher_init E w")
  obtain rc w2 where w2: "ws_worker_init E w1 = (rc, w2)" by (cases "ws_worker_init E w1")
  have "w' = w2" using assms w1 w2 by (simp add: start_server_def split: if_splits)
  then show ?thesis using same_net_trans [of w w1 w2] p i [of w1] w1 w2 by simp
qed

lemma start_conns: "start_server E listens addr w = Some w' \<Longrightarrow> w_conns w' = w_conns w"
  using same_net_start [of E listens addr w w'] by (simp add: same_net_def)

lemma srv_inv_start:
  fixes w :: "'a sse_world_scheme"
  assumes "srv_start w" "start_server E listens addr w = Some w'"
  shows "srv_inv w'"
proof (rule inv_same_net [OF same_net_start [OF assms(2)]])
  have "used (replicate n None) = {}" for n by (auto simp: used_def)
  then show "srv_inv w"
    using assms(1) by (auto simp: srv_start_def srv_inv_def ws_ok_def table_ok_def ids_differ_def ws_users_def sse_ok_def
        streams_def clients_def no_client_def)
qed

lemma inv_reachable: "srv_reachable E w \<Longrightarrow> srv_inv w"
  by (induction rule: srv_reachable.induct) (auto intro: srv_inv_start srv_inv_step)

section \<open>Properties\<close>

text \<open>C1: No pointer to a closed connection survives, whatever the clients do. In every state that the
  running server can reach, the broadcast connection, every entry of the WebSocket table and every
  stream's connection is an open connection, with its own number; no connection has two streams, none has a
  stream and a WebSocket, every stream's connection is still waiting for the end of its response, and the
  WebSocket connections have the WebSocket handler, so that closing them clears their entry. A
  stream's interval is between 50 ms and 5 s and its plugin's names are safe.\<close>

theorem server_no_dangling:
  assumes "srv_reachable E w"
  shows "ws_users w \<union> streams w \<subseteq> dom (w_conns w)
    \<and> distinct (clients (sse_clients w)) \<and> ws_users w \<inter> streams w = {}
    \<and> inj_on (\<lambda>c. c_id (conn_at w c)) (dom (w_conns w))
    \<and> (\<forall>c \<in> streams w. c_is_resp (conn_at w c) \<and> c_fn (conn_at w c) = Http_handler)
    \<and> (\<forall>c \<in> ws_users w. c_fn (conn_at w c) = Ws_handler)
    \<and> list_all (\<lambda>x. \<not> sc_active x \<or> 50 \<le> sc_interval_ms x \<and> sc_interval_ms x \<le> 5000
         \<and> sse_safe_name (Some (sc_lib x)) \<and> sse_safe_name (Some (sc_symbol x))) (sse_clients w)"
proof -
  have inv: "srv_inv w" by (rule inv_reachable [OF assms])
  then have s: "\<forall>c \<in> streams w. stream_conn w c" "distinct (clients (sse_clients w))"
    "\<forall>x \<in> set (sse_clients w). sc_active x \<longrightarrow> client_ok x" by (simp_all add: srv_inv_def sse_ok_def)
  have u: "\<forall>c \<in> ws_users w. c_fn (conn_at w c) = Ws_handler" "ws_users w \<subseteq> dom (w_conns w)"
    "inj_on (\<lambda>c. c_id (conn_at w c)) (dom (w_conns w))"
    using inv by (auto simp: srv_inv_def ws_ok_def table_ok_def ws_users_def ids_differ_def)
  have "streams w \<subseteq> dom (w_conns w)" using s(1) by (auto simp: stream_conn_def)
  moreover have "ws_users w \<inter> streams w = {}"
  proof -
    have False if "c \<in> ws_users w" "c \<in> streams w" for c
      using bspec [OF s(1) that(2)] bspec [OF u(1) that(1)] by (simp add: stream_conn_def)
    then show ?thesis by blast
  qed
  moreover have "list_all (\<lambda>x. \<not> sc_active x \<or> 50 \<le> sc_interval_ms x \<and> sc_interval_ms x \<le> 5000
         \<and> sse_safe_name (Some (sc_lib x)) \<and> sse_safe_name (Some (sc_symbol x))) (sse_clients w)"
    using s(3) by (auto simp: list_all_iff client_ok_def SSE_MIN_INTERVAL_MS_def SSE_MAX_INTERVAL_MS_def)
  ultimately show ?thesis using s u by (simp add: stream_conn_def)
qed

text \<open>A server that has just started.\<close>

definition demo_srv :: sse_world where
  "demo_srv = ws_world.extend (wk_world.extend
     (demo_wk\<lparr>ep_initialized := False, ep_nng_initialized := False, w_nng_socks := [], w_conns := Map.empty, w_ws_conn := None,
        rt_running := False\<rparr>)
     (ws_world.fields (replicate WS_MAX_CONNS None) False)) (sse_world.fields (replicate SSE_MAX_CLIENTS no_client))"

lemma demo_srv_start: "srv_start demo_srv"
  by (simp add: srv_start_def demo_srv_def wk_demo demo_rt_def ws_world.defs sse_world.defs
      dl_world.defs no_libs_def pusher_world.defs wk_start_def)

lemma demo_started: "start_server calm_env (\<lambda>_. True) (listen_addr ''44944'') demo_srv \<noteq> None"
  by code_simp

theorem server_no_dangling_witness:
  "\<exists>w :: sse_world. srv_reachable calm_env w \<and> dom (w_conns w) = {5} \<and> ws_users w \<union> streams w \<subseteq> {5}"
proof -
  obtain w where s: "start_server calm_env (\<lambda>_. True) (listen_addr ''44944'') demo_srv = Some w"
    using demo_started by auto
  have r: "srv_reachable calm_env w" by (rule srv_reachable.start [OF demo_srv_start s])
  have c: "w_conns w = Map.empty"
    using start_conns [OF s] demo_srv_start by (simp add: srv_start_def)
  let ?v = "w\<lparr>w_conns := (w_conns w)(5 \<mapsto> null_conn\<lparr>c_id := 1\<rparr>)\<rparr>"
  have "srv_reachable calm_env ?v" using r by (rule srv_reachable.step) (rule srv_step.accept; simp add: c)
  moreover from this have "ws_users ?v \<union> streams ?v \<subseteq> dom (w_conns ?v)" using server_no_dangling by blast
  moreover have "dom (w_conns ?v) = {5}" by (simp add: c)
  ultimately show ?thesis by (intro exI [of _ ?v]) (simp only: simp_thms)
qed

end
