(* ===== verification/HandlerProofs.thy ===== *)
theory HandlerProofs
  imports ServerProofs
begin

text \<open>
  Properties of the HTTP side (src/handler.c, src/handler_libary.c): every request is answered, to whom, and
  what the plugin routes pass on.
\<close>

section \<open>Answers\<close>

text \<open>
  \<open>quiet c w w'\<close>: nothing was sent to c, at most the broadcast connection got something;
  \<open>replied c w w'\<close>: c got the beginning of an HTTP response, and again nobody else but the broadcast connection anything.
\<close>

definition quiet :: "addr \<Rightarrow> 'a world0_scheme \<Rightarrow> 'a world0_scheme \<Rightarrow> bool" where
  "quiet c w w' \<longleftrightarrow> sent w' c = sent w c \<and> (\<forall>a. w_ws_conn w \<noteq> Some a \<longrightarrow> sent w' a = sent w a)
     \<and> w_ws_conn w' = w_ws_conn w \<and> dom (w_conns w') = dom (w_conns w)"

definition replied :: "addr \<Rightarrow> 'a world0_scheme \<Rightarrow> 'a world0_scheme \<Rightarrow> bool" where
  "replied c w w' \<longleftrightarrow> (\<exists>bs. sent w' c = sent w c @ ''HTTP/1.1 '' @ bs)
     \<and> (\<forall>a. a \<noteq> c \<longrightarrow> w_ws_conn w \<noteq> Some a \<longrightarrow> sent w' a = sent w a)"

text \<open>Only c may have got something.\<close>

definition adds :: "addr \<Rightarrow> 'a world0_scheme \<Rightarrow> 'a world0_scheme \<Rightarrow> bool" where
  "adds c w w' \<longleftrightarrow> (\<exists>bs. sent w' c = sent w c @ bs) \<and> (\<forall>a. a \<noteq> c \<longrightarrow> sent w' a = sent w a)"

lemma quiet_refl [simp]: "quiet c w w"
  by (simp add: quiet_def)

lemma quiet_trans: "quiet c w v \<Longrightarrow> quiet c v u \<Longrightarrow> quiet c w u"
  by (auto simp: quiet_def)

lemma quiet_replied: "quiet c w v \<Longrightarrow> replied c v u \<Longrightarrow> replied c w u"
  by (auto simp: quiet_def replied_def)

lemma replied_adds: "replied c w v \<Longrightarrow> adds c v u \<Longrightarrow> replied c w u"
  by (auto simp: adds_def replied_def)

lemma quiet_touches: "touches S w w' \<Longrightarrow> S \<subseteq> set_option (w_ws_conn w) \<Longrightarrow> c \<notin> S \<Longrightarrow> quiet c w w'"
  by (auto simp: touches_def quiet_def)

lemma quiet_tick [simp]: "quiet c w (w\<lparr>w_tick := n\<rparr>)"
  by (simp add: quiet_def sent_def conn_at_def)

lemma adds_refl [simp]: "adds c w w"
  by (simp add: adds_def)

lemma adds_trans: "adds c w v \<Longrightarrow> adds c v u \<Longrightarrow> adds c w u"
  by (auto simp: adds_def)

lemma adds_upd:
  assumes "\<And>x. \<exists>bs. sent_bytes (c_send (f x)) = sent_bytes (c_send x) @ bs"
  shows "adds c w (upd_conn c f w)"
proof -
  show ?thesis
    using assms by (auto simp: adds_def sent_def conn_at_def upd_conn_def sent_bytes_def null_conn_def split: option.split)
qed

lemma http_reply_start: "\<exists>bs. http_reply_bytes code hs b = ''HTTP/1.1 '' @ bs"
proof -
  obtain t where t: "reply_head code hs = ''HTTP/1.1 '' @ t" "15 \<le> length t"
    by (simp add: reply_head_def)
  have "\<exists>bs. overwrite ((''HTTP/1.1 '' @ t) @ b) (length (''HTTP/1.1 '' @ t) - 15) s = ''HTTP/1.1 '' @ bs" for s
  proof -
    have "length t - 6 = 9 + (length t - 15)" using t(2) by linarith
    then obtain k where "length t - 6 = 9 + k" by blast
    then show ?thesis by (simp add: overwrite_def eval_nat_numeral)
  qed
  then show ?thesis unfolding http_reply_bytes_def t(1) Let_def by auto
qed

lemma replied_reply:
  assumes "c \<in> dom (w_conns w)"
  shows "replied c w (mg_http_reply c code hs b w)" "replied c w (reply_json c code hs w)"
proof -
  have "replied c w (mg_http_reply c code hs b w)" for hs b
  proof -
    obtain bs where bs: "http_reply_bytes code hs b = ''HTTP/1.1 '' @ bs" using http_reply_start by blast
    have "sent (mg_http_reply c code hs b w) c = sent w c @ ''HTTP/1.1 '' @ bs"
      using assms by (simp add: mg_http_reply_def sent_def sent_bytes_def bs)
    moreover have "a \<noteq> c \<Longrightarrow> sent (mg_http_reply c code hs b w) a = sent w a" for a
      by (simp add: mg_http_reply_def sent_def)
    ultimately show ?thesis by (auto simp: replied_def)
  qed
  then show "replied c w (mg_http_reply c code hs b w)" "replied c w (reply_json c code hs w)"
    by (simp_all add: reply_json_def)
qed

lemma replied_send:
  assumes "c \<in> dom (w_conns w)"
  shows "replied c w (mg_send c (''HTTP/1.1 '' @ t) w)"
  using sent_send(1) [OF assms] sent_send(2) [of _ c] by (auto simp: replied_def)

lemma quiet_announce:
  fixes w :: "'a ws_world_scheme"
  shows "w_ws_conn w \<noteq> Some c \<Longrightarrow> quiet c w (event_push_with_type E ty d w)"
  by (rule quiet_touches [OF touches_push_with_type [OF subset_refl]]) auto

lemma quiet_call:
  fixes w :: "'a ws_world_scheme"
  assumes "call_local_dyn_libffi E p f j w = (r, w')"
  shows "quiet c w w'"
proof -
  have "touches {} w (snd (call_local_dyn_libffi E p f j w))" by (rule touches_dl [OF dl_keeps_call])
  with assms show ?thesis by (intro quiet_touches) auto
qed

lemma quiet_dom: "quiet c w v \<Longrightarrow> c \<in> dom (w_conns w) \<Longrightarrow> c \<in> dom (w_conns v)"
  by (simp add: quiet_def)

lemma replied_after:
  assumes "quiet c w v" "c \<in> dom (w_conns w)"
  shows "replied c w (mg_http_reply c code hs b v)" "replied c w (reply_json c code hs v)"
proof -
  have "c \<in> dom (w_conns v)" using assms by (rule quiet_dom)
  from replied_reply [OF this] show "replied c w (mg_http_reply c code hs b v)" "replied c w (reply_json c code hs v)"
    by (blast intro: quiet_replied [OF assms(1)])+
qed

section \<open>The handlers answer\<close>

lemma replied_libary:
  fixes w :: "'a ws_world_scheme"
  assumes "c \<in> dom (w_conns w)"
  shows "replied c w (ev_handler_libary E c hm body w)"
proof -
  have call: "quiet c w v" if "call_local_dyn_libffi E p f j (w\<lparr>w_tick := n\<rparr>) = (r, v)" for p f j n r v
    by (rule quiet_trans [OF quiet_tick quiet_call [OF that]])
  let ?u = "cbuf 256 (hm_uri hm)" and ?w1 = "w\<lparr>w_tick := Suc (w_tick w)\<rparr>"
  obtain rc path where p: "plugin_resolve_path (env_platform E) (env_fs E (w_tick w)) (Some (strip_slash ?u)) (Some 512) = (rc, path)"
    by (metis surj_pair)
  obtain crc out w2 where r: "call_local_dyn_libffi E path (Some (ffi_symbol hm)) (build_json_in hm body) ?w1 = ((crc, out), w2)"
    by (metis surj_pair)
  note q = call [OF r] quiet_tick [of c w "Suc (w_tick w)"]
  show ?thesis
    unfolding ev_handler_libary_def Let_def ask_def prod.case p r
    by (simp add: replied_reply(2) [OF assms] replied_after(2) [OF q(1) assms] replied_after(2) [OF q(2) assms] split: option.split)
qed

lemma adds_stream: "adds c w (upd_conn c (\<lambda>x. x\<lparr>c_pfn := pr, c_send := c_send x @ [StreamFile f off n]\<rparr>) w)"
  by (rule adds_upd) (simp add: sent_bytes_def)

lemma adds_flag: "adds c w (upd_conn c (\<lambda>x. x\<lparr>c_is_resp := b\<rparr>) w)" "adds c w (upd_conn c (\<lambda>x. x\<lparr>c_fn := h\<rparr>) w)"
  "adds c w (upd_conn c (\<lambda>x. x\<lparr>c_is_draining := b\<rparr>) w)"
  "adds c w (upd_conn c (\<lambda>x. x\<lparr>c_is_websocket := b, c_is_resp := b'\<rparr>) w)" "adds c w (upd_conn c (\<lambda>x. x\<lparr>c_pfn := pr\<rparr>) w)"
  by (rule adds_upd; simp)+

lemma quiet_flag: "quiet c w (upd_conn c (\<lambda>x. x\<lparr>c_pfn := pr\<rparr>) w)"
proof -
  have "sent (upd_conn c (\<lambda>x. x\<lparr>c_pfn := pr\<rparr>) w) a = sent w a" for a
    by (auto simp: sent_def conn_at_def upd_conn_def null_conn_def split: option.split)
  then show ?thesis by (simp add: quiet_def)
qed

lemma replied_serve:
  assumes "c \<in> dom (w_conns w)" "so_page404 opts = None"
  shows "replied c w (mg_http_serve_file E c hm path opts w)"
proof -
  obtain ok fl mime gz w1 where o: "open_served E hm path opts w = ((ok, fl, mime, gz), w1)" by (metis surj_pair)
  from open_served_result [OF o assms(2)] obtain n where "w1 = w\<lparr>w_tick := n\<rparr>" by (auto simp: ticks_def)
  then have q: "quiet c w w1" "quiet c w (w1\<lparr>w_tick := k\<rparr>)" for k using quiet_trans [of c w "w\<lparr>w_tick := n\<rparr>"] by simp_all
  have h: "replied c w (mg_send c (serve_head status mime etag cl gzip rng extra) v)" if "quiet c w v" for status etag cl gzip rng extra v
  proof -
    have "\<exists>t. serve_head status mime etag cl gzip rng extra = ''HTTP/1.1 '' @ t" by (simp add: serve_head_def)
    then obtain t where "serve_head status mime etag cl gzip rng extra = ''HTTP/1.1 '' @ t" by blast
    then show ?thesis using quiet_replied [OF that replied_send [OF quiet_dom [OF that assms(1)], of t]] by simp
  qed
  show ?thesis
    unfolding mg_http_serve_file_def o prod.case ask_def Let_def
    by (auto split: option.split prod.split intro!: replied_after q assms(1) replied_adds [OF h adds_stream] replied_adds [OF h adds_flag(1)])
qed

lemma replied_static:
  assumes "c \<in> dom (w_conns w)"
  shows "replied c w (ev_handler_static E c hm w)"
proof -
  have "replied c w (mg_http_serve_file E c hm path static_opts w)" for path
    using assms by (rule replied_serve) (simp add: static_opts_def)
  then show ?thesis
    by (simp add: ev_handler_static_def Let_def reply_index_html_def replied_reply assms split: prod.split option.split)
qed


section \<open>Requests\<close>

lemma adds_touches: "touches {} w w' \<Longrightarrow> adds c w w'"
  by (simp add: touches_def adds_def)

lemma adds_send: "adds c w (mg_send c bs w)"
  unfolding mg_send_def by (rule adds_upd) (simp add: sent_bytes_def)

lemma adds_tick [simp]: "adds c w (w\<lparr>w_tick := n\<rparr>)"
  by (simp add: adds_def sent_def conn_at_def)

lemma adds_push_to: "adds c w (event_push_to (Some c) d w)"
proof -
  have "adds c w (mg_ws_send c p op w)" for p op
    unfolding mg_ws_send_def by (rule adds_trans [OF adds_send adds_send])
  then show ?thesis by (simp add: event_push_to_def push_ws_def adds_def split: option.split)
qed

lemma adds_formatted_to: "adds c w (formatted r (event_push_to (Some c)) (w\<lparr>w_tick := n\<rparr>))"
proof -
  have "adds c w (event_push_to (Some c) d (w\<lparr>w_tick := n\<rparr>))" for d by (rule adds_trans [OF adds_tick adds_push_to])
  then show ?thesis by (simp add: formatted_def split: prod.split option.split)
qed

lemma adds_welcome: "adds c w (ws_welcome E c w)"
proof -
  have "adds c v (event_push_with_type_to E (Some c) ty d v)" "adds c v (event_push_message_to E (Some c) d v)"
    for ty d and v :: "'a ws_world_scheme"
    by (simp_all add: event_push_with_type_to_def event_push_message_to_def ask_def ask2_def adds_formatted_to)
  then show ?thesis unfolding ws_welcome_def by (blast intro: adds_trans)
qed

lemma adds_upgrade: "adds c w (ws_on_upgrade E c w)"
proof -
  obtain ok w1 where r: "ws_conn_register c w = (ok, w1)" by (cases "ws_conn_register c w")
  then have "\<exists>ys. w1 = w\<lparr>hw_conns := ys\<rparr>" by (auto simp: ws_conn_register_def split: prod.splits bool.splits)
  then have w1: "adds c w w1" "adds c w (w1\<lparr>w_ws_conn := Some c\<rparr>)" by (auto simp: adds_def sent_def conn_at_def)
  have "adds c v (need_rt v)" for v :: "'a ws_world_scheme" by (rule adds_touches [OF touches_need_rt])
  then have "adds c w (ws_welcome E c (need_rt (w1\<lparr>w_ws_conn := Some c\<rparr>)))"
    by (rule adds_trans [OF adds_trans [OF w1(2)] adds_welcome])
  moreover have "adds c w (upd_conn c (\<lambda>x. x\<lparr>c_is_draining := True\<rparr>) w1)" by (rule adds_trans [OF w1(1) adds_flag(3)])
  ultimately show ?thesis using r by (cases ok) (simp_all add: ws_on_upgrade_def)
qed

lemma replied_upgrade:
  assumes "c \<in> dom (w_conns w)"
  shows "replied c w (upgrade_ws E c hm w)"
proof -
  let ?w1 = "upd_conn c (\<lambda>x. x\<lparr>c_pfn := Ws_protocol\<rparr>) w"
  have q: "quiet c w ?w1" by (rule quiet_flag)
  have "replied c w (mg_ws_upgrade c hm w)"
  proof (cases "mg_http_get_header (hm_headers hm) ''Sec-WebSocket-Key''")
    case None
    then show ?thesis
      by (simp add: mg_ws_upgrade_def Let_def replied_adds [OF replied_after(1) [OF q assms] adds_flag(3)])
  next
    case (Some key)
    define pr where "pr = mg_http_get_header (hm_headers hm) ''Sec-WebSocket-Protocol''"
    have "\<exists>t. ws_handshake key pr = ''HTTP/1.1 '' @ t" by (simp add: ws_handshake_def)
    then obtain t where t: "ws_handshake key pr = ''HTTP/1.1 '' @ t" by blast
    have "replied c w (mg_send c (''HTTP/1.1 '' @ t) ?w1)"
      by (rule quiet_replied [OF q replied_send [OF quiet_dom [OF q assms]]])
    from replied_adds [OF this adds_flag(4)] Some show ?thesis
      by (simp only: mg_ws_upgrade_def Let_def pr_def [symmetric] option.case t)
  qed
  then show ?thesis unfolding upgrade_ws_def by (rule replied_adds [OF replied_adds [OF _ adds_flag(2)] adds_upgrade])
qed

lemma adds_client: "adds c w (upd_client i f w)"
  by (simp add: adds_def)

lemma adds_call:
  fixes w :: "'a ws_world_scheme"
  assumes "call_local_dyn_libffi E p f j (w\<lparr>w_tick := n\<rparr>) = (r, v)"
  shows "adds c w v"
proof -
  have "touches {} (w\<lparr>w_tick := n\<rparr>) (snd (call_local_dyn_libffi E p f j (w\<lparr>w_tick := n\<rparr>)))" by (rule touches_dl [OF dl_keeps_call])
  then have "touches {} w (snd (call_local_dyn_libffi E p f j (w\<lparr>w_tick := n\<rparr>)))" by (rule touches_trans [OF touches_tick])
  with assms show ?thesis by (intro adds_touches) simp
qed

lemma adds_send_event:
  assumes "sc_c (sse_clients w ! i) = Some c"
  shows "adds c w (snd (sse_send_event E i w))"
proof -
  have c: "the (sc_c (sse_clients w ! i)) = c" using assms by simp
  have m: "adds c w (mg_send c b v)" "adds c w (upd_client i f v)" "adds c w (v\<lparr>w_tick := n\<rparr>)"
    if "adds c w v" for b f n and v :: "'a sse_world_scheme"
    using adds_trans [OF that] adds_send adds_client adds_tick by blast+
  have "adds c w (snd (sse_send_custom E i w))"
    unfolding sse_send_custom_def Let_def ask_def prod.case c
    by (auto split: prod.split option.split intro!: m dest: adds_call)
  then show ?thesis
    unfolding sse_send_event_def Let_def ask_def prod.case c
    by (auto split: prod.split option.split intro!: m dest: adds_call)
qed

lemma replied_sse:
  assumes "c \<in> dom (w_conns w)"
  shows "replied c w (sse_open E c hm w)"
proof -
  have r: "replied c w (reply_json c code j (w\<lparr>w_tick := n\<rparr>))" "replied c w (reply_json c code j w)" for code j n
    using replied_after(2) [OF quiet_tick assms] replied_reply(2) [OF assms] by blast+
  have h: "replied c w (mg_send c SSE_HEAD (w\<lparr>w_tick := n\<rparr>))" for n
    unfolding SSE_HEAD_def using quiet_replied [OF quiet_tick replied_send [OF quiet_dom [OF quiet_tick assms]]] by simp
  have len: "sse_clients (mg_send c b v) = sse_clients v" for b and v :: "'a sse_world_scheme"
    using more_sse(1) [of "mg_send c b v" v] by simp
  have go: "replied c w (snd (sse_send_event E slot (upd_client slot (\<lambda>_. new_client c hm l s p q)
        ((mg_send c SSE_HEAD (w\<lparr>w_tick := n\<rparr>))\<lparr>w_tick := k\<rparr>))))"
    if "find_slot (\<lambda>x. \<not> sc_active x) 0 (sse_clients w) = Some slot" for slot l s p q n k
  proof -
    have "slot < length (sse_clients w)" using find_slot_Some [OF that] by simp
    then have "adds c (upd_client slot (\<lambda>_. new_client c hm l s p q) ((mg_send c SSE_HEAD (w\<lparr>w_tick := n\<rparr>))\<lparr>w_tick := k\<rparr>))
      (snd (sse_send_event E slot (upd_client slot (\<lambda>_. new_client c hm l s p q) ((mg_send c SSE_HEAD (w\<lparr>w_tick := n\<rparr>))\<lparr>w_tick := k\<rparr>))))"
      using len [of SSE_HEAD "w\<lparr>w_tick := n\<rparr>"] by (intro adds_send_event) (simp add: new_client_def)
    from replied_adds [OF h adds_trans [OF adds_trans [OF adds_tick adds_client] this]] show ?thesis .
  qed
  show ?thesis
    unfolding sse_open_def ask_def ask2_def prod.case Let_def
    by (auto split: option.split intro!: r go)
qed



section \<open>Routes\<close>

text \<open>Two API routes can never be taken. \<open>POST /api/push\<close>, with anything behind it, is compared over ten
  bytes with a text of nine, and \<open>POST /api/log\<close> must be ten bytes long with eight: both requests go to
  the plugin handler, as if the routes did not exist, and no event is pushed for them but its own.\<close>

theorem api_routes_unreachable:
  assumes "cbuf 16 (hm_method hm) = ''POST''" "hm_uri hm = ''/api/log'' \<or> hm_uri hm = ''/api/push'' @ x" "nulfree x"
  shows "on_request E c hm body w = libary_call E c hm body (snd (probe_plugin E hm w))"
proof -
  have p: "\<not> uri_starts hm 10 ''/api/push'' 10"
    using assms(2,3) by (cases x) (auto simp: uri_starts_def cstr_def nulfree_def eval_nat_numeral)
  moreover have "\<not> uri_starts hm 11 ''/api/status'' 11" "\<not> uri_starts hm 12 ''/api/iceoryx'' 12" "\<not> uri_starts hm 10 ''/api/log'' 8"
    using assms(2) by (auto simp: uri_starts_def cstr_def eval_nat_numeral)
  moreover have "hm_uri hm \<noteq> ''/soket''" "hm_uri hm \<noteq> ''/sse''" using assms(2) by auto
  ultimately show ?thesis using assms(1)
    by (cases "probe_plugin E hm w") (simp add: on_request_def Let_def split: bool.split)
qed

theorem api_routes_unreachable_witness:
  "on_request calm_env 5 ((get_request ''/api/push'')\<lparr>hm_method := ''POST''\<rparr>) [] demo_srv
     = libary_call calm_env 5 ((get_request ''/api/push'')\<lparr>hm_method := ''POST''\<rparr>) []
         (snd (probe_plugin calm_env ((get_request ''/api/push'')\<lparr>hm_method := ''POST''\<rparr>) demo_srv))"
  by (rule api_routes_unreachable [where x = "[]"]) (simp_all add: get_request_def cbuf_def cstr_def)

section \<open>The argument of a plugin\<close>

lemma strtol10_range: "LONG_MIN \<le> fst (strtol10 s) \<and> fst (strtol10 s) \<le> LONG_MAX"
proof -
  have "LONG_MIN \<le> clamp_long v \<and> clamp_long v \<le> LONG_MAX" for v by (simp add: clamp_long_def LONG_MIN_def LONG_MAX_def)
  moreover have "LONG_MIN \<le> 0 \<and> 0 \<le> LONG_MAX" by (simp add: LONG_MIN_def LONG_MAX_def)
  ultimately show ?thesis by (simp add: strtol10_def Let_def split: prod.split)
qed

lemma query_get_long_range: "query_get_long p key = Some n \<Longrightarrow> LONG_MIN \<le> n \<and> n \<le> LONG_MAX"
proof (induction p key rule: query_get_long.induct)
  case (1 p key)
  from "1.prems" show ?case
    using "1.IH" strtol10_range [of "drop (length key + 1) p"]
    by (subst (asm) query_get_long.simps) (auto split: if_splits option.splits prod.splits)
qed

lemma length_int_str_long: "LONG_MIN \<le> n \<Longrightarrow> n \<le> LONG_MAX \<Longrightarrow> length (int_str n) \<le> 20"
proof -
  assume n: "LONG_MIN \<le> n" "n \<le> LONG_MAX"
  then have "nat (- n) < 10 ^ 19" "nat n < 10 ^ 19" by (simp_all add: LONG_MIN_def LONG_MAX_def)
  then have "length (nat_str (nat (- n))) \<le> 19" "length (nat_str (nat n)) \<le> 19" by (auto intro: length_nat_str)
  then show ?thesis by (simp add: int_str_def)
qed

lemma strchr_hd: "strchr s c = Some q \<Longrightarrow> q = c # tl q"
  by (induction s) (auto split: if_splits)

text \<open>A query string that is not a number reaches the plugin as broken JSON. What a plugin gets for a
  query is either \<open>{"id":n}\<close> for a number n, or the text of the first value with the closing brace
  cut off, because the buffer is one byte too small; and nothing at all when there is no value.\<close>

theorem query_json_forms:
  assumes "query_to_json hm = Some j"
  shows "(\<exists>n. query_get_long (cbuf 256 (or_empty (hm_query hm))) ''id'' = Some n \<and> j = ''{\"id\":'' @ int_str n @ ''}'')
       \<or> (\<exists>v. v \<noteq> [] \<and> strchr (cbuf 256 (or_empty (hm_query hm))) (CHR ''='') = Some (CHR ''='' # v) \<and> j = ''{\"q\":\"'' @ v @ [DQ])"
proof -
  obtain q where q: "hm_query hm = Some q" "q \<noteq> []"
    using assms by (auto simp: query_to_json_def split: option.splits if_splits)
  let ?q = "cbuf 256 q"
  show ?thesis
  proof (cases "query_get_long ?q ''id''")
    case (Some n)
    have "length (''{\"id\":'' @ int_str n @ ''}'') < 32"
      using length_int_str_long query_get_long_range [OF Some] by fastforce
    then have "j = ''{\"id\":'' @ int_str n @ ''}''"
      using assms q Some by (simp add: query_to_json_def snprintf_buf_fits)
    with Some q show ?thesis by (simp add: or_empty_def)
  next
    case None
    then obtain v where v: "strchr ?q (CHR ''='') = Some v" "tl v \<noteq> []"
      "j = snprintf_buf (length (tl v) + 8) (''{\"q\":\"'' @ tl v @ ''\"}'')"
      using assms q by (auto simp: query_to_json_def Let_def split: option.splits if_splits)
    have "snprintf_buf (length t + 8) (''{\"q\":\"'' @ t @ ''\"}'') = ''{\"q\":\"'' @ t @ [DQ]" for t
      by (simp add: snprintf_buf_def eval_nat_numeral)
    from v(3) [unfolded this] have "j = ''{\"q\":\"'' @ tl v @ [DQ]" .
    with v q strchr_hd [OF v(1)] show ?thesis by (simp add: or_empty_def) metis
  qed
qed

theorem query_json_forms_witness:
  "query_to_json ((get_request ''/x'')\<lparr>hm_query := Some ''name=ab''\<rparr>) = Some (''{\"q\":\"ab'' @ [DQ])"
proof -
  let ?hm = "(get_request ''/x'')\<lparr>hm_query := Some ''name=ab''\<rparr>"
  have c: "cbuf 256 ''name=ab'' = ''name=ab''" by (simp add: cbuf_def cstr_def)
  have g: "query_get_long ''name=ab'' ''id'' = None" by (subst query_get_long.simps) simp
  have "query_to_json ?hm \<noteq> None" by (simp add: query_to_json_def c g Let_def)
  then obtain j where j: "query_to_json ?hm = Some j" by blast
  from query_json_forms [OF j] j show ?thesis by (simp add: or_empty_def c g)
qed

end
