(* ===== verification/SseProofs.thy ===== *)
theory SseProofs
  imports ServerProofs
begin

text \<open>
  Properties of the event streams (src/handler_sse.c): what a browser reads from an event, what one poll
  sends, and when it does nothing.
\<close>

section \<open>A reader of event streams\<close>

text \<open>
  The event stream format as a browser reads it: lines up to a blank one, of each the field before
  the colon and the value after it, without one leading space; several \<open>data\<close> lines are joined.
\<close>

definition cut_line :: "string \<Rightarrow> (string \<times> string) option" where
  "cut_line s = (if LF \<in> set s then Some (takeWhile (\<lambda>c. c \<noteq> LF) s, tl (dropWhile (\<lambda>c. c \<noteq> LF) s)) else None)"

lemma cut_line_shorter: "cut_line s = Some (l, r) \<Longrightarrow> length r < length s"
proof -
  assume "cut_line s = Some (l, r)"
  then have r: "r = tl (dropWhile (\<lambda>c. c \<noteq> LF) s)" and i: "LF \<in> set s" by (auto simp: cut_line_def split: if_splits)
  then have "dropWhile (\<lambda>c. c \<noteq> LF) s \<noteq> []" by (auto simp: dropWhile_eq_Nil_conv)
  then have "length r < length (dropWhile (\<lambda>c. c \<noteq> LF) s)" using r by simp
  with length_dropWhile_le [of "\<lambda>c. c \<noteq> LF" s] show ?thesis by simp
qed

record stream_event =
  se_id :: string
  se_event :: string
  se_data :: "string list"

definition line_value :: "string \<Rightarrow> string" where
  "line_value l =
     (let v = tl (dropWhile (\<lambda>c. c \<noteq> CHR '':'') l) in if v \<noteq> [] \<and> hd v = CHR '' '' then tl v else v)"

definition read_field :: "string \<Rightarrow> stream_event \<Rightarrow> stream_event" where
  "read_field l e =
     (let name = takeWhile (\<lambda>c. c \<noteq> CHR '':'') l; v = line_value l
      in if name = ''id'' then e\<lparr>se_id := v\<rparr>
         else if name = ''event'' then e\<lparr>se_event := v\<rparr>
         else if name = ''data'' then e\<lparr>se_data := se_data e @ [v]\<rparr>
         else e)"

function read_event :: "string \<Rightarrow> stream_event \<Rightarrow> (stream_event \<times> string) option" where
  "read_event s e =
     (case cut_line s of
        None \<Rightarrow> None
      | Some (l, r) \<Rightarrow> if l = [] then Some (e, r) else read_event r (read_field l e))"
  by pat_completeness auto
termination
  by (relation "measure (\<lambda>(s, e). length s)") (auto dest: cut_line_shorter)

declare read_event.simps [simp del]

definition no_event :: stream_event where
  "no_event = \<lparr>se_id = [], se_event = [], se_data = []\<rparr>"

lemma cut_line_at: "LF \<notin> set l \<Longrightarrow> cut_line (l @ LF # r) = Some (l, r)"
proof -
  assume "LF \<notin> set l"
  then have l: "\<And>x. x \<in> set l \<Longrightarrow> x \<noteq> LF" by auto
  from takeWhile_append2 [of l "\<lambda>c. c \<noteq> LF" "LF # r", OF l] dropWhile_append2 [of l "\<lambda>c. c \<noteq> LF" "LF # r", OF l]
  show ?thesis by (simp add: cut_line_def)
qed

lemma read_line: "LF \<notin> set l \<Longrightarrow> l \<noteq> [] \<Longrightarrow> read_event (l @ LF # r) e = read_event r (read_field l e)"
  by (subst read_event.simps) (simp add: cut_line_at)

lemma read_blank: "read_event (LF # r) e = Some (e, r)"
  using cut_line_at [of "[]" r] by (subst read_event.simps) simp

lemma read_fields:
  "read_field (''id: '' @ v) e = e\<lparr>se_id := v\<rparr>" "read_field (''event: '' @ v) e = e\<lparr>se_event := v\<rparr>"
  "read_field (''data: '' @ v) e = e\<lparr>se_data := se_data e @ [v]\<rparr>"
  by (simp_all add: read_field_def line_value_def)

lemma int_str_no_LF: "LF \<notin> set (int_str i)"
proof -
  have "LF \<notin> set (nat_str n)" for n using nat_str_digits [of n] by (auto simp: list_all_iff isdigit_def)
  then show ?thesis by (simp add: int_str_def)
qed

lemma read_event_text:
  assumes "LF \<notin> set ev" "LF \<notin> set d"
  shows "read_event (event_text i ev d @ r) no_event = Some (\<lparr>se_id = int_str i, se_event = ev, se_data = [d]\<rparr>, r)"
proof -
  have "event_text i ev d @ r = (''id: '' @ int_str i) @ LF # (''event: '' @ ev) @ LF # (''data: '' @ d) @ LF # LF # r"
    by (simp add: event_text_def)
  then show ?thesis
    using assms int_str_no_LF [of i]
    by (simp only:) (subst read_line, simp, simp, subst read_line, simp, simp, subst read_line, simp, simp,
        simp add: read_blank no_event_def read_fields [simplified])
qed


section \<open>Events\<close>



text \<open>Data with an empty line in it ends the event early, and what follows it is read as part of the
  stream: a plugin whose text holds such data writes events of its own choice, with any number and
  name, which a browser takes for the server's.\<close>

theorem sse_data_injects:
  assumes "LF \<notin> set ev" "LF \<notin> set d" "LF \<notin> set ev'" "LF \<notin> set d'"
  shows "\<exists>r. read_event (event_text i ev (d @ [LF, LF] @ event_text j ev' d')) no_event
       = Some (\<lparr>se_id = int_str i, se_event = ev, se_data = [d]\<rparr>, r)
     \<and> read_event r no_event = Some (\<lparr>se_id = int_str j, se_event = ev', se_data = [d']\<rparr>, [LF, LF])"
proof -
  have "event_text i ev (d @ [LF, LF] @ event_text j ev' d') = event_text i ev d @ event_text j ev' d' @ [LF, LF]"
    by (simp add: event_text_def)
  with read_event_text [OF assms(1,2)] read_event_text [OF assms(3,4)] show ?thesis by auto
qed

theorem sse_data_injects_witness:
  "\<exists>r. read_event (event_text 1 ''a'' (''x'' @ [LF, LF] @ event_text 9 ''b'' ''y'')) no_event
       = Some (\<lparr>se_id = int_str 1, se_event = ''a'', se_data = [''x'']\<rparr>, r)"
  using sse_data_injects [of "''a''" "''x''" "''b''" "''y''" 1 9] by auto

section \<open>What a poll sends\<close>

lemma event_text_length: "length (event_text i ev d) = 21 + length (int_str i) + length ev + length d"
  by (simp add: event_text_def)


text \<open>The default stream never repeats or reorders events. Fetching an event either sends nothing and
  leaves the stream's last number, or sends exactly one event with a number larger than the last,
  which becomes the last; nobody else gets anything. A browser that reconnects with the last number it saw
  is therefore sent only newer events.\<close>

theorem sse_demo_increasing:
  assumes "i < length (sse_clients w)" "\<not> sc_custom (sse_clients w ! i)" "sc_c (sse_clients w ! i) = Some c"
    and "c \<in> dom (w_conns w)"
  shows "let w' = snd (sse_send_event E i w); last_id = sc_last_id (sse_clients w ! i); new_id = sc_last_id (sse_clients w' ! i) in
       new_id = last_id \<and> (\<forall>a. sent w' a = sent w a)
     \<or> last_id < new_id \<and> (\<exists>ev d. sent w' c = sent w c @ event_text new_id ev d) \<and> (\<forall>a. a \<noteq> c \<longrightarrow> sent w' a = sent w a)"
proof -
  let ?cl = "sse_clients w ! i" and ?w1 = "w\<lparr>w_tick := Suc (w_tick w)\<rparr>"
  obtain rc out w2 where r: "call_local_dyn_libffi E (Some (sse_plugin_path (env_platform E) (env_fs E (w_tick w)) 512))
     (Some ''sse_next'') (Some (snprintf_buf 64 (''{\"after_id\":'' @ int_str (sc_last_id ?cl) @ ''}''))) ?w1 = ((rc, out), w2)"
    by (metis surj_pair)
  have "touches {} ?w1 (snd (call_local_dyn_libffi E (Some (sse_plugin_path (env_platform E) (env_fs E (w_tick w)) 512))
     (Some ''sse_next'') (Some (snprintf_buf 64 (''{\"after_id\":'' @ int_str (sc_last_id ?cl) @ ''}''))) ?w1))"
    by (rule touches_dl [OF dl_keeps_call])
  then have "touches {} ?w1 w2" using r by simp
  then have "touches {} w w2" by (rule touches_trans [OF touches_tick])
  then have w2: "sse_clients w2 = sse_clients w" "dom (w_conns w2) = dom (w_conns w)" "sent w2 a = sent w a" for a
    using more_sse(2) [of w2 w] by (simp_all add: touches_def)
  let ?quiet = "\<lambda>v. sc_last_id (sse_clients v ! i) = sc_last_id ?cl \<and> (\<forall>a. sent v a = sent w a)"
  let ?news = "\<lambda>v. sc_last_id ?cl < sc_last_id (sse_clients v ! i)
     \<and> (\<exists>ev d. sent v c = sent w c @ event_text (sc_last_id (sse_clients v ! i)) ev d) \<and> (\<forall>a. a \<noteq> c \<longrightarrow> sent v a = sent w a)"
  have q: "?quiet w" "?quiet w2" "?quiet (w2\<lparr>w_tick := n\<rparr>)" for n using w2 by simp_all
  have news: "?news (upd_client i (\<lambda>x. x\<lparr>sc_last_id := k\<rparr>) (mg_send c buf (w2\<lparr>w_tick := n\<rparr>)))"
    if "sc_last_id ?cl < k" "sse_format_event (Some SSE_EVENT_BUF) k (Some ev) (Some d) = (m, buf)" "0 < m" for k ev d m buf n
  proof -
    have buf: "\<exists>ev' d'. buf = event_text k ev' d'"
      using that(2,3) by (auto simp: sse_format_event_def Let_def SSE_EVENT_BUF_def split: if_splits)
    have m: "sse_clients (mg_send c buf (w2\<lparr>w_tick := n\<rparr>)) = sse_clients w"
      using more_sse(1) [of "mg_send c buf (w2\<lparr>w_tick := n\<rparr>)" "w2\<lparr>w_tick := n\<rparr>"] w2(1) by simp
    have "sent (mg_send c buf (w2\<lparr>w_tick := n\<rparr>)) c = sent w c @ buf"
      "a \<noteq> c \<Longrightarrow> sent (mg_send c buf (w2\<lparr>w_tick := n\<rparr>)) a = sent w a" for a
      using sent_send(1) [of c "w2\<lparr>w_tick := n\<rparr>" buf] sent_send(2) [of a c buf "w2\<lparr>w_tick := n\<rparr>"] assms(4) w2 by simp_all
    with m buf that(1) assms(1) show ?thesis by auto
  qed
  have "?quiet (snd (sse_send_event E i w)) \<or> ?news (snd (sse_send_event E i w))"
  proof (cases "sc_done ?cl")
    case True
    then have "snd (sse_send_event E i w) = w" by (simp add: sse_send_event_def Let_def)
    with q(1) show ?thesis by simp
  next
    case False
    note e = sse_send_event_def ask_def Let_def prod.case r if_not_P [OF False] if_not_P [OF assms(2)]
    show ?thesis
    proof (cases "out = None \<or> rc \<noteq> 0")
      case True
      then have "snd (sse_send_event E i w) = w2" unfolding e by (auto split: option.split)
      with q(2) show ?thesis by simp
    next
      case False
      then obtain o' where o: "out = Some o'" "rc = 0" by auto
      define k where "k = mg_json_get_long (env_fpu E) o' ''$.id'' 0"
      define ev where "ev = (case mg_json_get_str (env_malloc E (w_tick w2)) o' ''$.event'' of Some e \<Rightarrow> e | None \<Rightarrow> ''message'')"
      let ?w3 = "w2\<lparr>w_tick := Suc (w_tick w2)\<rparr>"
      obtain m buf where f: "sse_format_event (Some SSE_EVENT_BUF) k (Some ev) (Some (demo_data o')) = (m, buf)"
        by (cases "sse_format_event (Some SSE_EVENT_BUF) k (Some ev) (Some (demo_data o'))")
      have "snd (sse_send_event E i w) = (if k \<le> sc_last_id ?cl then w2 else if 0 < m
          then upd_client i (\<lambda>x. x\<lparr>sc_last_id := k\<rparr>) (mg_send c buf ?w3) else ?w3)"
        unfolding e o option.case k_def [symmetric] ev_def [symmetric] f using assms(3) by simp
      with q(2) q(3) [of "Suc (w_tick w2)"] news [of k ev "demo_data o'" m buf "Suc (w_tick w2)"] f show ?thesis
        by (simp split: if_split del: upd_client_simps)
    qed
  qed
  then show ?thesis by (simp only: Let_def)
qed


section \<open>An example\<close>

definition demo_client :: "bool \<Rightarrow> sse_client" where
  "demo_client custom = \<lparr>sc_c = Some 1, sc_last_id = 3, sc_last_poll_ms = 0, sc_last_ping_ms = 0, sc_interval_ms = 200,
     sc_active = True, sc_custom = custom, sc_once = True, sc_done = False, sc_seq = 4, sc_lib = ''imgtool'',
     sc_symbol = ''pick'', sc_args = []\<rparr>"

definition demo_stream :: "bool \<Rightarrow> sse_world" where
  "demo_stream custom = demo_srv\<lparr>w_conns := [1 \<mapsto> null_conn\<lparr>c_is_resp := True\<rparr>],
     sse_clients := demo_client custom # replicate 31 no_client\<rparr>"

lemma calm_call:
  assumes "dl_cache w = []"
  shows "\<exists>w'. call_local_dyn_libffi calm_env (Some p) (Some f) j w = ((0, Some ''{}''), w')"
  using assms
  by (simp add: call_local_dyn_libffi_def dl_get_def ask_def calm_env_def DL_CACHE_MAX_def cbuf_def PLUGIN_JSON_BUF_SIZE_def)

lemma demo_stream_facts:
  "sse_clients (demo_stream b) ! 0 = demo_client b" "0 < length (sse_clients (demo_stream b))"
  "w_conns (demo_stream b) = [1 \<mapsto> null_conn\<lparr>c_is_resp := True\<rparr>]" "dl_cache (demo_stream b) = []"
  by (simp_all add: demo_stream_def demo_srv_def wk_demo demo_rt_def ws_world.defs sse_world.defs dl_world.defs no_libs_def
      pusher_world.defs)


theorem sse_demo_increasing_witness:
  "sent (snd (sse_send_event calm_env 0 (demo_stream False))) 2 = sent (demo_stream False) 2"
proof -
  have "\<not> sc_custom (sse_clients (demo_stream False) ! 0)"
    "sc_c (sse_clients (demo_stream False) ! 0) = Some 1" "1 \<in> dom (w_conns (demo_stream False))"
    by (simp_all add: demo_stream_facts demo_client_def)
  from sse_demo_increasing [OF demo_stream_facts(2) this, of calm_env] show ?thesis by (auto simp: Let_def)
qed

end
