(* ===== verification/ServerInv.thy ===== *)
theory ServerInv
  imports HandlerProofs SseProofs
begin

text \<open>
  Invariants of single components hold in the running server. The interface is the locale \<open>component_inv\<close>:
  a predicate that the operations of the task scheduler, the library cache and the worker keep and that does not look
  at the network or the handlers' tables. Then every step of the server keeps it. The interpretations
  carry the theories of the worker, the tasks and the cache over to the whole program.
\<close>

named_theorems kept "what keeps the invariant of a component"

locale component_inv =
  fixes E :: "'d env" and I :: "'a sse_world_scheme \<Rightarrow> bool"
  assumes started: "srv_start w \<Longrightarrow> start_server E listens addr w = Some w' \<Longrightarrow> I w'"
    and net: "I w \<Longrightarrow> pusher_world.more v = pusher_world.more w \<Longrightarrow> w_nng_socks v = w_nng_socks w
      \<Longrightarrow> ep_nng_initialized v = ep_nng_initialized w \<Longrightarrow> ep_nng_sock v = ep_nng_sock w \<Longrightarrow> I v"
    and table: "I w \<Longrightarrow> I (w\<lparr>hw_conns := xs\<rparr>)"
    and streams: "I w \<Longrightarrow> I (w\<lparr>sse_clients := ys\<rparr>)"
    and libffi: "I w \<Longrightarrow> I (snd (call_local_dyn_libffi E p f j w))"
    and manager: "I w \<Longrightarrow> I (need_rt w)"
    and create: "I w \<Longrightarrow> hw_rt_manager w \<Longrightarrow> I (snd (rt_create_task E u w))"
    and owner: "I w \<Longrightarrow> I (upd_node a (\<lambda>n. n\<lparr>n_conn_id := i\<rparr>) w)"
    and start: "I w \<Longrightarrow> I (snd (rt_start_task E t l w))"
    and remove: "I w \<Longrightarrow> I (snd (rt_remove_task E t w))"
    and submit: "I w \<Longrightarrow> I (snd (ws_worker_submit E conn rid lib func args tmo w))"
    and thread: "I w \<Longrightarrow> worker_step E th w = Some w' \<Longrightarrow> I w'"
    and collect: "I w \<Longrightarrow> I (w\<lparr>wk_done := lq_empty\<rparr>)"
begin

lemmas operations [kept] = table streams libffi manager create owner start remove submit collect

section \<open>The network\<close>

lemma net_keeps: "I w \<Longrightarrow> keeps w v \<Longrightarrow> I v"
  by (erule net) (simp_all add: keeps_def)

lemma net_world0: "I w \<Longrightarrow> world0.more v = world0.more w \<Longrightarrow> w_nng_socks v = w_nng_socks w \<Longrightarrow> I v"
  by (erule net) (cases v; cases w; simp)+

lemma net_updates [kept]:
  assumes "I w"
  shows "I (w\<lparr>w_tick := n\<rparr>)" "I (w\<lparr>w_ws_conn := c\<rparr>)" "I (w\<lparr>w_conns := cs\<rparr>)"
  by (rule net [OF assms]; simp)+

lemma net_sends [kept]:
  assumes "I w"
  shows "I (mg_send c bs w)" "I (upd_conn c f w)" "I (mg_http_reply c code hs b w)" "I (reply_json c code j w)"
  by (rule net_world0 [OF assms]; simp add: mg_send_def mg_http_reply_def reply_json_def upd_conn_def)+

lemma net_pushes [kept]:
  assumes "I w"
  shows "I (event_push_with_type E ty d w)" "I (event_push_to cc d w)" "I (event_push_with_type_to E cc ty d w)"
    "I (event_push_message_to E cc d w)" "I (event_push_json_string_to E cc ty d w)"
  by (rule net_keeps [OF assms], rule keeps_pushes keeps_event_push_to)+

lemma net_welcome [kept]: "I w \<Longrightarrow> I (ws_welcome E c w)" "I w \<Longrightarrow> I (send_event_to E c a u s w)"
  by (simp_all add: ws_welcome_def send_event_to_def kept)

text \<open>A result that comes with the next state, and one that does not.\<close>

lemma kept_case [kept]:
  "I (snd p) \<Longrightarrow> (\<And>r v. I v \<Longrightarrow> I (f r v)) \<Longrightarrow> I (case p of (r, v) \<Rightarrow> f r v)"
  "I (snd p) \<Longrightarrow> (\<And>r v. I v \<Longrightarrow> I (snd (g r v))) \<Longrightarrow> I (snd (case p of (r, v) \<Rightarrow> g r v))"
  by (simp_all add: case_prod_beta)

lemma plain_case [kept]:
  fixes q :: "'r \<times> string" and q' :: "'s \<times> string option"
  shows "(\<And>r v. I (f r v)) \<Longrightarrow> I (case q of (r, v) \<Rightarrow> f r v)" "(\<And>r v. I (f' r v)) \<Longrightarrow> I (case q' of (r, v) \<Rightarrow> f' r v)"
    "(\<And>r v. I (snd (g r v))) \<Longrightarrow> I (snd (case q of (r, v) \<Rightarrow> g r v))"
    "(\<And>r v. I (snd (g' r v))) \<Longrightarrow> I (snd (case q' of (r, v) \<Rightarrow> g' r v))"
  by (simp_all add: case_prod_beta)

section \<open>The WebSocket handler\<close>

lemma kept_register: "ws_conn_register c w = (ok, v) \<Longrightarrow> I w \<Longrightarrow> I v"
  by (auto simp: ws_conn_register_def table split: prod.splits bool.splits)

lemma kept_unregister [kept]: "I w \<Longrightarrow> I (ws_conn_unregister c w)"
  by (simp add: ws_conn_unregister_def Let_def kept)

lemma kept_upgrade [kept]: "I w \<Longrightarrow> I (ws_on_upgrade E c w)"
  by (auto simp: ws_on_upgrade_def split: prod.split bool.split intro!: kept intro: kept_register)

lemma manager_set: "hw_rt_manager (need_rt w)"
  by (simp add: need_rt_def)

lemma kept_bind: "I w \<Longrightarrow> I (handle_bind E c req w)"
  by (auto simp: handle_bind_def Let_def manager_set split: option.split intro!: kept)

lemma kept_remove: "I w \<Longrightarrow> I (handle_remove E c req w)"
  by (auto simp: handle_remove_def split: option.split intro!: kept)

lemma kept_status_msg: "I w \<Longrightarrow> I (handle_status E c w)" "I w \<Longrightarrow> I (handle_msg E c req w)"
  by (auto simp: handle_status_def handle_msg_def Let_def split: option.split intro!: kept)

lemma kept_call_error [kept]: "I w \<Longrightarrow> I (send_call_error E c rid code msg w)"
  by (simp add: send_call_error_def Let_def kept split: prod.split)

lemma kept_call: "I w \<Longrightarrow> I (handle_call E c data w)"
  by (cases "ws_call_parse (env_fpu E) (\<lambda>k. env_malloc E (w_tick w + k)) (Some data) 128")
     (auto simp: handle_call_def Let_def intro!: kept)

lemma kept_message [kept]: "I w \<Longrightarrow> I (handle_ws_message E c data w)"
  by (simp add: handle_ws_message_def run_command_def Let_def kept kept_bind kept_remove kept_status_msg kept_call
      split: prod.split)

lemma kept_victims: "I w \<Longrightarrow> I (snd (remove_victims E vs w))"
proof (induction vs arbitrary: w)
  case (Cons a vs)
  obtain rc v where r: "rt_remove_task E (Some a) w = (rc, v)" by (cases "rt_remove_task E (Some a) w")
  then have "I v" using remove [OF Cons.prems, of "Some a"] by simp
  from Cons.IH [OF this] r show ?case by (cases "remove_victims E vs v") simp
qed simp

lemma kept_remove_by_conn [kept]:
  assumes "I w"
  shows "I (snd (rt_remove_tasks_by_conn E i w))"
proof -
  obtain vs n where v: "collect_victims E i (rt_tasks w) 0 0 w = (vs, w\<lparr>w_tick := n\<rparr>)"
    using collect_victims_tick [of E i "rt_tasks w" 0 0 w] by (metis prod.collapse)
  have "I (snd (remove_victims E vs (w\<lparr>w_tick := n\<rparr>)))" by (intro kept_victims kept assms)
  with v show ?thesis by (simp add: rt_remove_tasks_by_conn_def)
qed

lemma kept_ws_event: "I w \<Longrightarrow> I (ws_ev_handler E c ev w)"
  by (cases ev) (simp_all add: ws_ev_handler_def Let_def ask_def kept)

lemma kept_calls_done: "I w \<Longrightarrow> I (fold (\<lambda>(c, json) v. ws_call_done c json v) ds w)"
proof (induction ds arbitrary: w)
  case (Cons d ds)
  obtain c json where d: "d = (c, json)" by (cases d)
  have "I (ws_call_done c json w)"
    using Cons.prems by (auto simp: ws_call_done_def ws_conn_find_def split: prod.split option.split intro!: kept)
  with Cons.IH d show ?case by simp
qed simp

lemma kept_drain: "I w \<Longrightarrow> I (ws_drain_call_results w)"
  by (simp add: ws_drain_call_results_def ws_worker_drain_def Let_def kept kept_calls_done)

section \<open>The HTTP routes\<close>

lemma kept_client [kept]: "I w \<Longrightarrow> I (upd_client i f w)"
  by (simp add: upd_client_def kept)

lemma kept_libary [kept]: "I w \<Longrightarrow> I (ev_handler_libary E c hm body w)"
  unfolding ev_handler_libary_def Let_def ask_def
  by (auto split: option.split intro!: kept)

lemma kept_send_event [kept]: "I w \<Longrightarrow> I (snd (sse_send_event E i w))"
proof -
  assume "I w"
  then have "I (snd (sse_send_custom E i w))"
    unfolding sse_send_custom_def Let_def ask_def
    by (auto split: option.split intro!: kept)
  with \<open>I w\<close> show ?thesis
    unfolding sse_send_event_def Let_def ask_def
    by (auto split: option.split intro!: kept)
qed

lemma kept_poll [kept]: "I w \<Longrightarrow> I (sse_on_poll E c w)"
  by (auto simp: sse_on_poll_def ask_def Let_def split: option.split intro!: kept)

lemma kept_on_close [kept]: "I w \<Longrightarrow> I (sse_on_close c w)"
  by (auto simp: sse_on_close_def split: option.split intro!: kept)

lemma kept_open [kept]: "I w \<Longrightarrow> I (sse_open E c hm w)"
  unfolding sse_open_def Let_def ask_def ask2_def
  by (auto split: option.split intro!: kept)


lemma kept_serve:
  assumes "I w" "so_page404 opts = None"
  shows "I (mg_http_serve_file E c hm path opts w)"
proof -
  obtain ok fl mime gz w1 where o: "open_served E hm path opts w = ((ok, fl, mime, gz), w1)" by (metis surj_pair)
  from open_served_result [OF o assms(2)] assms(1) have "I w1" by (auto simp: ticks_def kept)
  then show ?thesis
    unfolding mg_http_serve_file_def o prod.case ask_def Let_def
    by (auto split: option.split prod.split intro!: kept)
qed

lemma kept_static [kept]: "I w \<Longrightarrow> I (ev_handler_static E c hm w)"
  by (auto simp: ev_handler_static_def Let_def reply_index_html_def static_opts_def
      split: option.split intro!: kept kept_serve)

lemma kept_ws_upgrade [kept]: "I w \<Longrightarrow> I (upgrade_ws E c hm w)"
  by (auto simp: upgrade_ws_def mg_ws_upgrade_def Let_def split: option.split intro!: kept)

lemma kept_request: "I w \<Longrightarrow> I (on_request E c hm body w)"
  unfolding on_request_def Let_def
  by (auto simp: api_push_def api_status_def api_iceoryx_def api_log_def libary_call_def ev_handler_sse_def
      probe_plugin_def ask_def Let_def split: bool.split intro!: kept)

section \<open>The server\<close>

lemma kept_handler: "I w \<Longrightarrow> I (call_handler E c ev w)"
  by (cases ev) (auto simp: call_handler_def ev_handler_def ev_handler_sse_def split: handler.split
    intro!: kept kept_request kept_ws_event)

lemma kept_step:
  assumes "srv_step E w w'" "I w"
  shows "I w'"
  using assms
  by (cases rule: srv_step.cases) (auto simp: free_conn_def intro!: kept kept_handler kept_drain intro: thread)

lemma reachable: "srv_reachable E w \<Longrightarrow> I w"
  by (induction rule: srv_reachable.induct) (auto intro: started kept_step)

end

end
