(* ===== verification/ServerTasks.thy ===== *)
theory ServerTasks
  imports ServerInv "HOL-Library.Sublist"
begin

text \<open>
  The task table, the open sockets and the library cache of the running server.
\<close>

section \<open>What the tasks' invariant depends on\<close>

definition task_view ::
  "'a ws_world_scheme \<Rightarrow> (addr \<times> rt_node) list \<times> int \<times> bool \<times> addr \<times> nat list \<times> bool \<times> nat \<times> bool" where
  "task_view w = (rt_tasks w, rt_count w, rt_running w, rt_fresh w, w_nng_socks w, ep_nng_initialized w,
     ep_nng_sock w, hw_rt_manager w)"

lemma task_view_updates [simp]:
  "task_view (w\<lparr>w_tick := n\<rparr>) = task_view w" "task_view (w\<lparr>wk_jobs := q\<rparr>) = task_view w"
  "task_view (w\<lparr>wk_done := d\<rparr>) = task_view w" "task_view (w\<lparr>wk_queue_len := i\<rparr>) = task_view w"
  "task_view (w\<lparr>wk_running := b\<rparr>) = task_view w" "task_view (w\<lparr>wk_inited := b\<rparr>) = task_view w"
  "task_view (w\<lparr>wk_thread_count := i'\<rparr>) = task_view w" "task_view (w\<lparr>wk_stats := s\<rparr>) = task_view w"
  "task_view (w\<lparr>wk_pending := ps\<rparr>) = task_view w" "task_view (w\<lparr>wk_pcs := pcs\<rparr>) = task_view w"
  "task_view (w\<lparr>wk_fresh := m\<rparr>) = task_view w" "task_view (w\<lparr>hw_conns := xs\<rparr>) = task_view w"
  "task_view (v\<lparr>sse_clients := ys\<rparr>) = task_view v"
  by (simp_all add: task_view_def)

lemma task_view_libffi [simp]: "task_view (snd (call_local_dyn_libffi E p f j w)) = task_view w"
  using dl_keeps_call [of w E p f j]
  by (auto simp: task_view_def dl_keeps_def)

lemma task_view_create_threads: "task_view (create_threads E n w) = task_view w"
  by (induction n arbitrary: w) (simp_all add: ask_def)

lemma task_view_submit: "task_view (snd (ws_worker_submit E c i l s a tmo w)) = task_view w"
proof -
  have init: "task_view (snd (ws_worker_init E v)) = task_view v" for v :: "'a ws_world_scheme"
    by (simp add: ws_worker_init_def Let_def task_view_create_threads)
  have new: "task_view (snd (new_job E c i' l' s' a tmo v)) = task_view v" for i' l' s' and v :: "'a ws_world_scheme"
    using new_job_tick [of E c i' l' s' a tmo v] by auto
  have enq: "task_view (snd (enqueue_job j v)) = task_view v" for j and v :: "'a ws_world_scheme"
    by (simp add: enqueue_job_def Let_def)
  show ?thesis
    by (auto simp: ws_worker_submit_def case_prod_beta init new enq split: option.split)
qed

lemma task_view_thread:
  assumes "worker_step E t w = Some w'"
  shows "task_view w' = task_view w"
proof -
  have exec: "task_view (snd (run_exec E p j w)) = task_view w" for p j
    by (simp add: run_exec_def split: option.split exec_fn.split)
  have reply: "task_view (snd (build_reply E j m rc tm el out v)) = task_view v" for j m rc tm el out and v :: "'a ws_world_scheme"
    by (simp add: build_reply_def Let_def)
  have push: "task_view (push_done E c json v) = task_view v" for c json and v :: "'a ws_world_scheme"
    by (simp add: push_done_def ask_def)
  show ?thesis
    using assms
    by (auto simp: worker_step_def worker_take_def worker_start_def worker_lock_def worker_call_def worker_reply_def
        record_result_def release_slot_def set_pc_def ask_def Let_def case_prod_beta exec reply push
        split: if_splits wk_pc.splits option.splits)
qed

section \<open>The invariant of the tasks\<close>

definition node_text :: "addr \<times> rt_node \<Rightarrow> string \<times> string \<times> string" where
  "node_text x = (n_task_id (snd x), n_socket_id (snd x), n_uuid (snd x))"

text \<open>
  What starting and removing a task do to a state: a predicate that their primitive steps keep is kept by
  them. The task's texts never change.
\<close>

locale task_client =
  fixes E :: "'d env" and J :: "'a rt_world_scheme \<Rightarrow> bool"
  assumes tick: "J w \<Longrightarrow> J (w\<lparr>w_tick := n\<rparr>)"
    and socks: "J w \<Longrightarrow> J (w\<lparr>w_nng_socks := ss\<rparr>)"
    and node: "J w \<Longrightarrow> (\<And>n. node_text (a, f n) = node_text (a, n)) \<Longrightarrow> J (upd_node a f w)"
    and drop: "J w \<Longrightarrow> J (w\<lparr>rt_tasks := filter P (rt_tasks w), rt_count := k\<rparr>)"
    and event: "J w \<Longrightarrow> J (send_rt_event E ac u s w)"
    and library: "J w \<Longrightarrow> J (snd (call_local_dyn_socklibffi E l j w))"
    and called: "J w \<Longrightarrow> J (w\<lparr>rt_called := cs\<rparr>)"
begin

lemma results: "J (snd p) \<Longrightarrow> (\<And>r v. J v \<Longrightarrow> J (snd (g r v))) \<Longrightarrow> J (snd (case p of (r, v) \<Rightarrow> g r v))"
  by (simp add: case_prod_beta)

lemma close: "J w \<Longrightarrow> J (nng_close s w)"
  by (simp add: nng_close_def socks)

lemmas client = tick socks node drop event library called results close

lemma socket: "J w \<Longrightarrow> J (snd (start_socket E a n w))"
  by (auto simp: start_socket_def nng_pub0_open_def nng_listen_def ask_def Let_def case_prod_beta node_text_def
      intro!: client)

lemma start: "J w \<Longrightarrow> J (snd (rt_start_task E t l w))"
  by (auto simp: rt_start_task_def ask_def Let_def node_text_def split: option.split intro!: client socket)

lemma remove: "J w \<Longrightarrow> J (snd (rt_remove_task E t w))"
  by (auto simp: rt_remove_task_def close_node_def Let_def split: option.split intro!: client)

end

text \<open>And a new task is made: of the table, the counter and the next address nothing is assumed to stay.\<close>

locale task_maker = task_client +
  assumes table: "J w \<Longrightarrow> J (w\<lparr>rt_tasks := ts\<rparr>)"
    and count: "J w \<Longrightarrow> J (w\<lparr>rt_count := k\<rparr>)"
    and counter: "J w \<Longrightarrow> J (w\<lparr>rt_counter := m\<rparr>)"
    and fresh: "J w \<Longrightarrow> J (w\<lparr>rt_fresh := n\<rparr>)"
begin

lemma create: "J w \<Longrightarrow> J (snd (rt_create_task E u w))"
  unfolding rt_create_task_def gen_id_def ask_def ask2_def Let_def
  by (auto split: option.split intro!: client table count counter fresh)

end

definition text_fits :: "string \<times> string \<times> string \<Rightarrow> bool" where
  "text_fits t = (case t of (i, s, u) \<Rightarrow> length i < 64 \<and> length s < 128 \<and> length u < 64)"

text \<open>The uuids that were not cut off.\<close>

definition whole_uuids :: "(string \<times> string \<times> string) list \<Rightarrow> string list" where
  "whole_uuids ts = filter (\<lambda>u. length u < 63) (map (\<lambda>(i, s, u). u) ts)"

definition pusher_socks :: "'a pusher_world_scheme \<Rightarrow> nat multiset" where
  "pusher_socks w = (if ep_nng_initialized w then {#ep_nng_sock w#} else {#})"

definition texts_ok :: "(string \<times> string \<times> string) list \<Rightarrow> bool" where
  "texts_ok ts \<longleftrightarrow> list_all text_fits ts \<and> distinct (whole_uuids ts)"

definition tasks_ok :: "'a ws_world_scheme \<Rightarrow> bool" where
  "tasks_ok w \<longleftrightarrow> rt_ok (pusher_socks w) w \<and> (rt_running w \<longleftrightarrow> hw_rt_manager w)
     \<and> (rt_tasks w \<noteq> [] \<longrightarrow> rt_running w) \<and> texts_ok (map node_text (rt_tasks w))"

lemma tasks_ok_view: "task_view v = task_view w \<Longrightarrow> tasks_ok w \<Longrightarrow> tasks_ok v"
  by (auto simp: task_view_def tasks_ok_def rt_ok_def pusher_socks_def)

lemma distinct_subseq: "subseq xs ys \<Longrightarrow> distinct ys \<Longrightarrow> distinct xs"
  by (auto simp: subseq_conv_nths intro: distinct_nthsI)

lemma texts_ok_subseq:
  assumes "subseq ts us" "texts_ok us"
  shows "texts_ok ts"
proof -
  have "subseq (whole_uuids ts) (whole_uuids us)"
    unfolding whole_uuids_def by (intro subseq_filter subseq_map assms(1))
  moreover have "set ts \<subseteq> set us" using assms(1) by (auto dest: list_emb_set)
  ultimately show ?thesis using assms(2) distinct_subseq by (auto simp: texts_ok_def list_all_iff)
qed

text \<open>An operation that changes nodes, but not their texts, and drops some.\<close>

definition task_frame :: "'a ws_world_scheme \<Rightarrow> 'a ws_world_scheme \<Rightarrow> bool" where
  "task_frame w v \<longleftrightarrow> rt_running v = rt_running w \<and> hw_rt_manager v = hw_rt_manager w
     \<and> ep_nng_initialized v = ep_nng_initialized w \<and> ep_nng_sock v = ep_nng_sock w
     \<and> subseq (map node_text (rt_tasks v)) (map node_text (rt_tasks w))"

lemma tasks_ok_frame:
  assumes "task_frame w v" "tasks_ok w" "rt_ok (pusher_socks w) v"
  shows "tasks_ok v"
proof -
  have "pusher_socks v = pusher_socks w" using assms(1) by (simp add: task_frame_def pusher_socks_def)
  moreover have "rt_tasks v \<noteq> [] \<longrightarrow> rt_tasks w \<noteq> []" using assms(1) by (auto simp: task_frame_def)
  ultimately show ?thesis using assms texts_ok_subseq by (auto simp: tasks_ok_def task_frame_def)
qed

lemma frame_refl: "task_frame w w"
  by (simp add: task_frame_def)

lemma upd_node_texts:
  "(\<And>n. node_text (a, f n) = node_text (a, n)) \<Longrightarrow> map node_text (rt_tasks (upd_node a f w)) = map node_text (rt_tasks w)"
  by (auto simp: upd_node_def node_text_def)

lemma frame_node:
  assumes "task_frame w v" "\<And>n. node_text (a, f n) = node_text (a, n)"
  shows "task_frame w (upd_node a f v)"
proof -
  have "rt_running (upd_node a f v) = rt_running v \<and> hw_rt_manager (upd_node a f v) = hw_rt_manager v
     \<and> ep_nng_initialized (upd_node a f v) = ep_nng_initialized v \<and> ep_nng_sock (upd_node a f v) = ep_nng_sock v"
    by (simp add: upd_node_def)
  with assms(1) upd_node_texts [of a f v, OF assms(2)] show ?thesis by (simp add: task_frame_def)
qed

lemma frame_filter:
  assumes "task_frame w v"
  shows "task_frame w (v\<lparr>rt_tasks := filter P (rt_tasks v), rt_count := k\<rparr>)"
proof -
  have "subseq (map node_text (filter P (rt_tasks v))) (map node_text (rt_tasks v))"
    by (intro subseq_map subseq_filter_left)
  with assms show ?thesis by (auto simp: task_frame_def intro: subseq_order.order_trans)
qed

lemma keeps_manager: "keeps w v \<Longrightarrow> hw_rt_manager v = hw_rt_manager w"
  by (drule keeps_rt(7)) (cases w; cases v; simp)

lemma frame_event:
  assumes "task_frame w v"
  shows "task_frame w (send_rt_event E a u s v)"
  using assms keeps_manager [of v "send_rt_event E a u s v", OF keeps_rt_event] keeps_rt_event [of v E a u s]
  by (simp add: task_frame_def keeps_def)

lemma frame_sock:
  assumes "task_frame w v"
  shows "task_frame w (snd (call_local_dyn_socklibffi E l j v))"
  using assms dl_keeps_sock [of v E l j] by (auto simp: task_frame_def dl_keeps_def)

interpretation frame: task_client E "task_frame w" for E :: "'d env" and w :: "'a ws_world_scheme"
  by unfold_locales (rule frame_node frame_filter frame_event frame_sock; assumption | simp add: task_frame_def)+

lemma frame_owner: "task_frame w (upd_node a (\<lambda>n. n\<lparr>n_conn_id := i\<rparr>) w)"
  by (rule frame_node [OF frame_refl]) (simp add: node_text_def)

lemma new_text_fits: "text_fits (node_text (a, new_node (task_id_text t n) u created heartbeat))"
  by (auto simp: text_fits_def node_text_def new_node_def task_id_text_def socket_id_text_def stored_uuid_def
      snprintf_buf_def)

lemma find_node_None: "find_node ns u = None \<longleftrightarrow> u \<notin> (\<lambda>x. n_uuid (snd x)) ` set ns"
  by (induction ns u rule: find_node.induct) auto

lemma texts_ok_new:
  assumes "texts_ok (map node_text ns)" "find_node ns u = None"
  shows "texts_ok (map node_text ((a, new_node (task_id_text t n) u created heartbeat) # ns))"
proof -
  have "length u < 63 \<longrightarrow> u \<notin> set (whole_uuids (map node_text ns))"
    using assms(2) by (auto simp: find_node_None whole_uuids_def node_text_def)
  then have "distinct (whole_uuids (node_text (a, new_node (task_id_text t n) u created heartbeat) # map node_text ns))"
    using assms(1) by (auto simp: texts_ok_def whole_uuids_def node_text_def new_node_def stored_uuid_def)
  with assms(1) new_text_fits show ?thesis by (simp add: texts_ok_def)
qed

lemma tasks_ok_keeps: "keeps w v \<Longrightarrow> tasks_ok w \<Longrightarrow> tasks_ok v"
  using keeps_rt [of w v] keeps_manager [of w v]
  by (intro tasks_ok_view [of v w]) (simp_all add: task_view_def keeps_def)

lemma tasks_ok_create:
  assumes "tasks_ok w" "hw_rt_manager w"
  shows "tasks_ok (snd (rt_create_task E u w))"
proof (cases u)
  case None
  with assms show ?thesis by (simp add: rt_create_task_def)
next
  case (Some uuid)
  let ?v = "snd (rt_create_task E u w)"
  show ?thesis
  proof (cases "find_node (rt_tasks w) uuid \<noteq> None \<or> \<not> env_malloc E (w_tick w)")
    case True
    with assms Some tasks_ok_view [of "w\<lparr>w_tick := Suc (w_tick w)\<rparr>" w] show ?thesis
      by (auto simp: rt_create_task_def ask_def)
  next
    case False
    then have v: "?v = send_rt_event E ''create'' (Some uuid) (Some ''created'')
       (w\<lparr>rt_counter := rt_counter w + 1, w_tick := w_tick w + 4, rt_fresh := Suc (rt_fresh w),
          rt_tasks := (rt_fresh w, new_node (task_id_text (env_time E (w_tick w + 3)) (rt_counter w)) uuid
             (env_time E (w_tick w + 1)) (env_time E (w_tick w + 2))) # rt_tasks w, rt_count := rt_count w + 1\<rparr>)"
      (is "_ = send_rt_event E _ _ _ ?w1")
      using Some by (simp add: rt_create_task_def gen_id_def ask_def ask2_def Let_def numeral_eq_Suc)
    have "rt_ok (pusher_socks w) ?v" using assms(1) by (intro rt_ok_create_task) (simp add: tasks_ok_def)
    then have "rt_ok (pusher_socks w) ?w1" by (simp add: v)
    moreover have "texts_ok (map node_text (rt_tasks ?w1))"
      using texts_ok_new [of "rt_tasks w" uuid] assms(1) False by (simp add: tasks_ok_def)
    moreover have "pusher_socks ?w1 = pusher_socks w" by (simp add: pusher_socks_def)
    moreover have "rt_running ?w1" "hw_rt_manager ?w1" using assms by (simp_all add: tasks_ok_def)
    ultimately have "tasks_ok ?w1" by (simp only: tasks_ok_def simp_thms)
    then show ?thesis unfolding v by (rule tasks_ok_keeps [OF keeps_rt_event])
  qed
qed

lemma tasks_ok_manager:
  assumes "tasks_ok w"
  shows "tasks_ok (need_rt w)"
proof -
  have "texts_ok []" by (simp add: texts_ok_def whole_uuids_def)
  with assms show ?thesis
    by (auto simp: need_rt_def rt_init_def tasks_ok_def rt_ok_def pusher_socks_def)
qed

lemma tasks_ok_started:
  assumes "srv_start w" "start_server E listens addr w = Some w'"
  shows "tasks_ok w'"
proof -
  obtain ok w1 where w1: "event_pusher_init E w = (ok, w1)" by (cases "event_pusher_init E w")
  obtain rc w2 where w2: "ws_worker_init E w1 = (rc, w2)" by (cases "ws_worker_init E w1")
  have w': "w' = w2" using assms(2) w1 w2 by (simp add: start_server_def split: if_splits)
  have p: "tasks_ok w1"
  proof -
    have "tasks_ok (snd (event_pusher_init E w))"
      using assms(1)
      by (auto simp: srv_start_def event_pusher_init_def nng_init_internal_def nng_pub0_open_def nng_listen_def nng_close_def
          ask_def tasks_ok_def texts_ok_def whole_uuids_def rt_ok_def pusher_socks_def Let_def split: prod.split)
    with w1 show ?thesis by simp
  qed
  have "task_view (snd (ws_worker_init E w1)) = task_view w1"
    by (simp add: ws_worker_init_def Let_def task_view_create_threads)
  with p w' w2 show ?thesis using tasks_ok_view by fastforce
qed

lemma tasks_ok_steps:
  assumes "tasks_ok w"
  shows "tasks_ok (snd (rt_start_task E t l w))" "tasks_ok (snd (rt_remove_task E t w))"
    "tasks_ok (upd_node a (\<lambda>n. n\<lparr>n_conn_id := i\<rparr>) w)" "tasks_ok (snd (call_local_dyn_libffi E p f j w))"
    "tasks_ok (snd (ws_worker_submit E c rid lib func args tmo w))" "tasks_ok (w\<lparr>wk_done := d\<rparr>)" "tasks_ok (w\<lparr>hw_conns := xs\<rparr>)"
proof -
  have ok: "rt_ok (pusher_socks w) w" using assms by (simp add: tasks_ok_def)
  have "rt_ok (pusher_socks w) (upd_node a (\<lambda>n. n\<lparr>n_conn_id := i\<rparr>) w)" using ok by (simp add: rt_ok_upd_same)
  then show "tasks_ok (snd (rt_start_task E t l w))" "tasks_ok (snd (rt_remove_task E t w))"
    "tasks_ok (upd_node a (\<lambda>n. n\<lparr>n_conn_id := i\<rparr>) w)"
    by (auto intro!: tasks_ok_frame [OF _ assms] frame.start [OF frame_refl] frame.remove [OF frame_refl] frame_owner rt_ok_start_task rt_ok_remove_task ok)
qed (rule tasks_ok_view [OF _ assms], simp add: task_view_submit)+

interpretation tasks: component_inv E tasks_ok for E :: "'d env"
proof
  fix w v :: "'a sse_world_scheme"
  assume a: "tasks_ok w" "pusher_world.more v = pusher_world.more w" "w_nng_socks v = w_nng_socks w"
    "ep_nng_initialized v = ep_nng_initialized w" "ep_nng_sock v = ep_nng_sock w"
  have "task_view v = task_view w" using a(2-) by (cases v; cases w) (simp add: task_view_def)
  then show "tasks_ok v" using a(1) by (rule tasks_ok_view)
next
  fix w w' :: "'a sse_world_scheme" and E :: "'d env" and t
  assume "tasks_ok w" "worker_step E t w = Some w'"
  then show "tasks_ok w'" using tasks_ok_view task_view_thread by blast
next
  fix w :: "'a sse_world_scheme" and ys
  assume "tasks_ok w"
  then show "tasks_ok (w\<lparr>sse_clients := ys\<rparr>)" by (rule tasks_ok_view [rotated]) simp
qed (fact tasks_ok_started tasks_ok_create tasks_ok_manager tasks_ok_steps)+

end
