(* ===== verification/ServerParts.thy ===== *)
theory ServerParts
  imports ServerTasks
begin

text \<open>
  The library cache and the worker of the running server, and what the invariants of the components show
  of the whole program.
\<close>

section \<open>The library cache\<close>

definition cache_ok :: "'a dl_world_scheme \<Rightarrow> bool" where
  "cache_ok w \<longleftrightarrow> length (dl_cache w) \<le> DL_CACHE_MAX \<and> list_all (\<lambda>(p, h). length p < DL_PATH_SIZE) (dl_cache w)"

lemma cache_ok_same: "dl_cache v = dl_cache w \<Longrightarrow> cache_ok w \<Longrightarrow> cache_ok v"
  by (simp add: cache_ok_def)

lemma cache_ok_tick [simp]: "cache_ok (w\<lparr>w_tick := n\<rparr>) \<longleftrightarrow> cache_ok w"
  by (simp add: cache_ok_def)

lemma cache_ok_get: "cache_ok w \<Longrightarrow> dl_get E p w = (r, v) \<Longrightarrow> cache_ok v"
  using length_snprintf_buf [of DL_PATH_SIZE p]
  by (auto simp: dl_get_def ask_def cache_ok_def dl_insert_def DL_PATH_SIZE_def split: option.splits if_splits)

lemma cache_ok_libffi: "cache_ok w \<Longrightarrow> cache_ok (snd (call_local_dyn_libffi E p f j w))"
  by (auto simp: call_local_dyn_libffi_def ask_def split: option.split prod.split dest: cache_ok_get)

lemma cache_ok_sock: "cache_ok w \<Longrightarrow> cache_ok (snd (call_local_dyn_socklibffi E l j w))"
  by (simp add: call_local_dyn_socklibffi_def cache_ok_libffi split: option.split)

lemma cache_ok_event: "cache_ok w \<Longrightarrow> cache_ok (send_rt_event E a u s w)"
  by (rule cache_ok_same [OF keeps_rt(9) [OF keeps_rt_event]])

interpretation cached: task_maker E cache_ok for E :: "'d env"
  by unfold_locales (rule cache_ok_sock cache_ok_event; assumption | simp add: cache_ok_def upd_node_def)+

lemma cache_create_threads [simp]: "dl_cache (create_threads E n w) = dl_cache w"
  by (induction n arbitrary: w) (simp_all add: ask_def)

lemma cache_submit: "dl_cache (snd (ws_worker_submit E c i l s a tmo w)) = dl_cache w"
proof -
  have init: "dl_cache (snd (ws_worker_init E v)) = dl_cache v" for v :: "'a wk_world_scheme"
    by (simp add: ws_worker_init_def Let_def)
  have new: "dl_cache (snd (new_job E c i' l' s' a tmo v)) = dl_cache v" for i' l' s' and v :: "'a wk_world_scheme"
    using new_job_tick [of E c i' l' s' a tmo v] by auto
  have enq: "dl_cache (snd (enqueue_job j v)) = dl_cache v" for j and v :: "'a wk_world_scheme"
    by (simp add: enqueue_job_def Let_def)
  show ?thesis
    by (auto simp: ws_worker_submit_def case_prod_beta init new enq split: option.split)
qed

lemma cache_ok_thread:
  assumes "worker_step E t w = Some w'" "cache_ok w"
  shows "cache_ok w'"
proof -
  have exec: "cache_ok (snd (run_exec E p j w))" for p j
    using assms(2) by (simp add: run_exec_def cache_ok_libffi split: option.split exec_fn.split)
  have reply: "dl_cache (snd (build_reply E j m rc tm el out v)) = dl_cache v" for j m rc tm el out and v :: "'a wk_world_scheme"
    by (simp add: build_reply_def Let_def)
  have push: "dl_cache (push_done E c json v) = dl_cache v" for c json and v :: "'a wk_world_scheme"
    by (simp add: push_done_def ask_def)
  show ?thesis
    using assms exec
    by (auto simp: worker_step_def worker_take_def worker_start_def worker_lock_def worker_call_def worker_reply_def
        record_result_def release_slot_def set_pc_def ask_def Let_def case_prod_beta reply push cache_ok_def
        split: if_splits wk_pc.splits option.splits)
qed

lemma cache_started:
  assumes "srv_start w" "start_server E listens addr w = Some w'"
  shows "cache_ok w'"
proof -
  obtain ok w1 where w1: "event_pusher_init E w = (ok, w1)" by (cases "event_pusher_init E w")
  obtain rc w2 where w2: "ws_worker_init E w1 = (rc, w2)" by (cases "ws_worker_init E w1")
  have "dl_cache (snd (event_pusher_init E w)) = dl_cache w"
    by (auto simp: event_pusher_init_def nng_init_internal_def nng_pub0_open_def nng_listen_def nng_close_def ask_def
        split: prod.split)
  moreover have "dl_cache (snd (ws_worker_init E w1)) = dl_cache w1" by (simp add: ws_worker_init_def Let_def)
  moreover have "w' = w2" using assms(2) w1 w2 by (simp add: start_server_def split: if_splits)
  ultimately show ?thesis using assms(1) w1 w2 by (simp add: srv_start_def cache_ok_def)
qed

lemma cache_ok_rest:
  assumes "cache_ok w"
  shows "cache_ok (need_rt w)" "cache_ok (w\<lparr>hw_conns := xs\<rparr>)" "cache_ok (w\<lparr>wk_done := d\<rparr>)"
    "cache_ok (snd (ws_worker_submit E c i l s a tmo w))" "cache_ok (upd_node n f w)"
  by (rule cache_ok_same [OF _ assms], simp add: need_rt_def rt_init_def cache_submit upd_node_def)+

interpretation cache: component_inv E cache_ok for E :: "'d env"
proof
  fix w v :: "'a sse_world_scheme"
  assume "cache_ok w" "pusher_world.more v = pusher_world.more w"
  moreover from this(2) have "dl_cache v = dl_cache w" by (cases v; cases w) simp
  ultimately show "cache_ok v" by (simp add: cache_ok_def)
next
  fix w w' :: "'a sse_world_scheme" and E :: "'d env" and t
  assume "cache_ok w" "worker_step E t w = Some w'"
  then show "cache_ok w'" using cache_ok_thread by blast
next
  fix w :: "'a sse_world_scheme" and ys
  assume "cache_ok w"
  then show "cache_ok (w\<lparr>sse_clients := ys\<rparr>)" by (simp add: cache_ok_def)
qed (rule cache_started cached.create cached.start cached.remove cache_ok_libffi cache_ok_rest; assumption)+

section \<open>The worker\<close>

definition worker_served :: "'d env \<Rightarrow> 'a wk_world_scheme \<Rightarrow> bool" where
  "worker_served E w \<longleftrightarrow> wk_reachable E w \<and> (\<exists>accepted collected. wk_history E w accepted collected)"

lemma served_same: "worker_served E w \<Longrightarrow> wk_same w v \<Longrightarrow> worker_served E v"
  unfolding worker_served_def by (blast intro: wk_step.elsewhere wk_reachable.step hist_elsewhere)

lemma served_more: "worker_served E w \<Longrightarrow> rt_world.more v = rt_world.more w \<Longrightarrow> worker_served E v"
  by (erule served_same) (rule more_wk)

lemma served_submit:
  assumes "worker_served E w"
  shows "worker_served E (snd (ws_worker_submit E c i l s a tmo w))"
proof -
  obtain rc v where r: "ws_worker_submit E c i l s a tmo w = (rc, v)" by (cases "ws_worker_submit E c i l s a tmo w")
  have "rc = 0 \<or> rc = -1"
    using r by (auto simp: ws_worker_submit_def enqueue_job_def Let_def split: option.splits prod.splits if_splits)
  with r assms show ?thesis
    unfolding worker_served_def by (auto intro: wk_step.submit wk_reachable.step hist_accept hist_refuse)
qed

lemma served_start: "wk_start w \<Longrightarrow> worker_served E w"
  unfolding worker_served_def by (blast intro: wk_reachable.start hist_start)

lemma served_init:
  assumes "worker_served E w"
  shows "worker_served E (snd (ws_worker_init E w))"
proof -
  obtain rc v where r: "ws_worker_init E w = (rc, v)" by (cases "ws_worker_init E w")
  have "wk_reachable E v" using assms wk_step.init [OF r] by (auto simp: worker_served_def intro: wk_reachable.step)
  moreover have "wk_history E (snd (ws_worker_init E w)) acc got" if "wk_history E w acc got" for acc got
    using that by (rule hist_init)
  ultimately show ?thesis using assms r by (auto simp: worker_served_def)
qed

lemma served_thread: "worker_served E w \<Longrightarrow> worker_step E t w = Some w' \<Longrightarrow> worker_served E w'"
  unfolding worker_served_def by (blast intro: wk_step.thread wk_reachable.step hist_thread)

lemma served_drain: "worker_served E w \<Longrightarrow> worker_served E (w\<lparr>wk_done := lq_empty\<rparr>)"
  unfolding worker_served_def by (blast intro: wk_step.drain wk_reachable.step hist_drain)

interpretation served: task_maker E' "worker_served E" for E' :: "'c env" and E :: "'d env"
proof
  show "worker_served E w \<Longrightarrow> worker_served E (send_rt_event E' ac u s w)" for w :: "'a wk_world_scheme" and ac u s
    by (erule served_more, rule keeps_rt(7) [OF keeps_rt_event])
  show "worker_served E w \<Longrightarrow> worker_served E (snd (call_local_dyn_socklibffi E' l j w))" for w :: "'a wk_world_scheme" and l j
    by (erule served_more, rule dl_keeps_rt(6) [OF dl_keeps_sock])
qed (erule served_same, simp add: wk_same_def upd_node_def)+

lemma served_started:
  assumes "srv_start w" "start_server E listens addr w = Some w'"
  shows "worker_served E w'"
proof -
  obtain ok w1 where w1: "event_pusher_init E w = (ok, w1)" by (cases "event_pusher_init E w")
  obtain rc w2 where w2: "ws_worker_init E w1 = (rc, w2)" by (cases "ws_worker_init E w1")
  have "wk_same w (snd (event_pusher_init E w))"
    by (auto simp: event_pusher_init_def nng_init_internal_def nng_pub0_open_def nng_listen_def nng_close_def ask_def
        wk_same_def split: prod.split)
  with assms(1) w1 have "worker_served E w1"
    using served_same [OF served_start] by (auto simp: srv_start_def)
  moreover have "w' = w2" using assms(2) w1 w2 by (simp add: start_server_def split: if_splits)
  ultimately show ?thesis using served_init [of E w1] w2 by simp
qed

lemma served_rest:
  assumes "worker_served E w"
  shows "worker_served E (need_rt w)" "worker_served E (w\<lparr>hw_conns := xs\<rparr>)" "worker_served E (upd_node n f w)"
    "worker_served E (snd (call_local_dyn_libffi E' p fn j w))"
proof -
  show "worker_served E (snd (call_local_dyn_libffi E' p fn j w))"
    using assms by (rule served_more) (rule dl_keeps_rt(6) [OF dl_keeps_call])
qed (rule served_same [OF assms], simp add: wk_same_def need_rt_def rt_init_def upd_node_def)+

interpretation worker: component_inv E "worker_served E" for E :: "'d env"
proof
  fix w v :: "'a sse_world_scheme" and E :: "'d env"
  assume s: "worker_served E w"
  {
    assume "pusher_world.more v = pusher_world.more w"
    then have "rt_world.more v = rt_world.more w" by (cases v; cases w) simp
    with s show "worker_served E v" by (rule served_more)
  }
  show "worker_served E (w\<lparr>sse_clients := ys\<rparr>)" for ys
    using s by (rule served_same) (simp add: wk_same_def)
qed (rule served_started served_rest served.create served.start served.remove served_submit served_thread served_drain;
    assumption)+

section \<open>Properties\<close>



text \<open>C5: No socket leaks in the running server. In every reachable state the open nng sockets are exactly the
  event pusher's, if it has one, and one for each task that holds one; the task count is the number of
  tasks; and no two tasks have the same uuid, unless it was longer than the 63 bytes that are stored.\<close>

theorem server_sockets:
  assumes "srv_reachable E w"
  shows "mset (w_nng_socks w) = (if ep_nng_initialized w then {#ep_nng_sock w#} else {#}) + rt_socks (rt_tasks w)
    \<and> rt_count w = int (length (rt_tasks w))
    \<and> distinct (filter (\<lambda>u. length u < 63) (map (\<lambda>(a, n). n_uuid n) (rt_tasks w)))"
proof -
  have "(\<lambda>(i, s, u). u) \<circ> node_text = (\<lambda>(a, n). n_uuid n)" by (auto simp: node_text_def)
  then show ?thesis
    using tasks.reachable [OF assms]
    by (simp add: tasks_ok_def rt_ok_def pusher_socks_def texts_ok_def whole_uuids_def)
qed

theorem server_sockets_witness:
  "\<exists>w :: sse_world. srv_reachable calm_env w \<and> mset (w_nng_socks w)
     = (if ep_nng_initialized w then {#ep_nng_sock w#} else {#}) + rt_socks (rt_tasks w)"
proof -
  obtain w where s: "start_server calm_env (\<lambda>_. True) (listen_addr ''44944'') demo_srv = Some w"
    using demo_started by auto
  have r: "srv_reachable calm_env w" by (rule srv_reachable.start [OF demo_srv_start s])
  with server_sockets [OF r] show ?thesis by blast
qed

text \<open>C6: The data stay within the C types. In every state of the running server each text fits the array that
  holds it (with its NUL), each table has the size of its array, and each counter is within its
  bounds: a task's number, socket path and uuid; a cached library's path; the library, function and
  arguments of an open stream; the tables of WebSocket connections, streams and libraries; the
  worker's queue.\<close>

theorem server_fields_fit:
  assumes "srv_reachable E w"
  shows "list_all (\<lambda>(a, n). length (n_task_id n) < 64 \<and> length (n_socket_id n) < 128 \<and> length (n_uuid n) < 64) (rt_tasks w)
    \<and> length (dl_cache w) \<le> 32 \<and> list_all (\<lambda>(p, h). length p < 256) (dl_cache w)
    \<and> length (hw_conns w) = 32 \<and> length (sse_clients w) = SSE_MAX_CLIENTS
    \<and> list_all (\<lambda>x. sc_active x \<longrightarrow> length (sc_lib x) < 64 \<and> length (sc_symbol x) < 128 \<and> length (sc_args x) < 1024)
        (sse_clients w)
    \<and> 0 \<le> wk_queue_len w \<and> wk_queue_len w \<le> 64"
proof -
  have "list_all (\<lambda>(a, n). length (n_task_id n) < 64 \<and> length (n_socket_id n) < 128 \<and> length (n_uuid n) < 64) (rt_tasks w)"
    using tasks.reachable [OF assms]
    by (auto simp: tasks_ok_def texts_ok_def text_fits_def node_text_def list_all_iff)
  moreover have "length (dl_cache w) \<le> 32" "list_all (\<lambda>(p, h). length p < 256) (dl_cache w)"
    using cache.reachable [OF assms] by (simp_all add: cache_ok_def DL_CACHE_MAX_def DL_PATH_SIZE_def)
  moreover have "srv_inv w" by (rule inv_reachable [OF assms])
  moreover obtain js ds where "wk_inv w js ds"
    using worker.reachable [OF assms] reachable_inv [of E w] by (auto simp: worker_served_def)
  ultimately show ?thesis
    by (auto simp: srv_inv_def ws_ok_def table_ok_def sse_ok_def client_ok_def list_all_iff wk_inv_def
        WS_MAX_CONNS_def SSE_LIB_MAX_def SSE_SYMBOL_MAX_def SSE_ARGS_MAX_def WS_WORKER_MAX_QUEUE_def)
qed

theorem server_fields_fit_witness:
  "\<exists>w :: sse_world. srv_reachable calm_env w \<and> length (dl_cache w) \<le> 32 \<and> length (hw_conns w) = 32"
proof -
  obtain w where s: "start_server calm_env (\<lambda>_. True) (listen_addr ''44944'') demo_srv = Some w"
    using demo_started by auto
  have r: "srv_reachable calm_env w" by (rule srv_reachable.start [OF demo_srv_start s])
  with server_fields_fit [OF r] show ?thesis by blast
qed

end
