(* ===== verification/ServerCalls.thy ===== *)
theory ServerCalls
  imports ServerParts
begin

text \<open>
  A plugin call from its place in the queue to the frame that answers it: the worker's threads, the main loop and the
  connection table together.
\<close>

lemma same_net_run: "same_net w (worker_run E t n w)"
proof (induction n arbitrary: w)
  case (Suc n)
  show ?case
  proof (cases "worker_step E t w")
    case (Some w1)
    with same_net_thread [OF Some] Suc [of w1] show ?thesis by (simp add: same_net_def)
  qed (simp add: same_net_def)
qed (simp add: same_net_def)

lemma reachable_run: "srv_reachable E w \<Longrightarrow> srv_reachable E (worker_run E t n w)"
proof (induction n arbitrary: w)
  case (Suc n)
  show ?case
  proof (cases "worker_step E t w")
    case (Some w1)
    from Suc.IH [OF srv_reachable.step [OF Suc.prems srv_step.thread [OF Some]]] Some show ?thesis by simp
  qed (simp add: Suc.prems)
qed simp

text \<open>C4: Every call in the queue is answered. In any state of the running server in which a worker thread is at the
  top of its loop, nobody is inside a plugin and memory does not run out, that thread needs at most seven steps a call;
  when the main loop then collects the results, every connection of the WebSocket table that is still open is sent one frame for
  each of its calls, in the order of the queue, after the replies that were waiting, and nobody else
  is sent anything.\<close>

theorem queued_calls_answered:
  assumes "srv_reachable E w" "t < length (wk_pcs w)" "wk_pcs w ! t = Idle" "no_call (wk_pcs w)" "mem_ok E"
  shows "\<exists>js ds es n. lq_rep (wk_jobs w) js \<and> lq_rep (wk_done w) ds \<and> n \<le> 7 * length js \<and> map fst es = map wj_conn_id js
     \<and> srv_reachable E (ws_drain_call_results (worker_run E t n w))
     \<and> (\<forall>a. sent (ws_drain_call_results (worker_run E t n w)) a = sent w a @
          (if a \<in> live w \<and> c_is_websocket (conn_at w a) then replies_to (c_id (conn_at w a)) (ds @ es) else []))
     \<and> lq_rep (wk_jobs (worker_run E t n w)) [] \<and> lq_rep (wk_done (ws_drain_call_results (worker_run E t n w))) []"
proof -
  have "wk_reachable E w" using worker.reachable [OF assms(1)] by (simp add: worker_served_def)
  then obtain js ds where inv: "wk_inv w js ds" using reachable_inv by blast
  obtain n es where n: "n \<le> 7 * length js" "wk_inv (worker_run E t n w) [] (ds @ es)" "map fst es = map wj_conn_id js"
    using serves_all [OF inv assms(2-4), of E] assms(5) by blast
  let ?v = "worker_run E t n w"
  have r: "srv_reachable E ?v" using assms(1) by (rule reachable_run)
  then have ok: "table_ok ?v" "ids_differ ?v" using inv_reachable by (auto simp: srv_inv_def ws_ok_def)
  have "same_net w ?v" by (rule same_net_run)
  then have same: "live ?v = live w" "conn_at ?v a = conn_at w a" "sent ?v a = sent w a" for a
    by (simp_all add: same_net_def live_def conn_at_def sent_def)
  have q: "lq_rep (wk_done ?v) (ds @ es)" using n(2) by (simp add: wk_inv_def)
  have "srv_reachable E (ws_drain_call_results ?v)" using r srv_step.drain by (rule srv_reachable.step)
  then show ?thesis
    using inv n drain_effect [OF ok q] same
    by (intro exI [of _ js] exI [of _ ds] exI [of _ es] exI [of _ n]) (simp add: wk_inv_def)
qed

lemma demo_threads: "case start_server calm_env (\<lambda>_. True) (listen_addr ''44944'') demo_srv of
  Some w \<Rightarrow> wk_pcs w = [Idle, Idle] | None \<Rightarrow> False"
  by code_simp

theorem queued_calls_answered_witness:
  "\<exists>w :: sse_world. \<exists>js n. srv_reachable calm_env w \<and> lq_rep (wk_jobs w) js \<and> n \<le> 7 * length js
     \<and> (\<forall>a. a \<notin> live w \<longrightarrow> sent (ws_drain_call_results (worker_run calm_env 0 n w)) a = sent w a)"
proof -
  obtain w where s: "start_server calm_env (\<lambda>_. True) (listen_addr ''44944'') demo_srv = Some w"
    using demo_started by auto
  have r: "srv_reachable calm_env w" by (rule srv_reachable.start [OF demo_srv_start s])
  have p: "wk_pcs w = [Idle, Idle]" using demo_threads s by simp
  then have "0 < length (wk_pcs w)" "wk_pcs w ! 0 = Idle" "no_call (wk_pcs w)" by (simp_all add: no_call_def slot_held_def)
  moreover have "mem_ok calm_env" by (simp add: mem_ok_def calm_env_def)
  ultimately obtain js n where "lq_rep (wk_jobs w) js" "n \<le> 7 * length js"
    "\<forall>a. a \<notin> live w \<longrightarrow> sent (ws_drain_call_results (worker_run calm_env 0 n w)) a = sent w a"
    using queued_calls_answered [OF r, of 0] by fastforce
  with r show ?thesis by blast
qed

end
