(* ===== verification/HttpRecv.thy ===== *)
theory HttpRecv
  imports World
begin

unbundle bit_operations_syntax

text \<open>
  How requests are taken out of a connection's receive buffer (src/crates/mongoose/mongoose.c, \<open>http_cb\<close> and
  \<open>skip_chunk\<close>). Sizes that the code keeps in \<open>size_t\<close> are 64-bit words; a chunk's are of type \<open>int\<close>, and as a buffer has at most
  3 MB they are kept as integers. The user's event handler is a parameter: it answers with bytes to send, \<open>is_resp\<close> and its own state; the
  server's handlers do not touch the receive buffer. The byte behind the buffer's last one, which \<open>skip_chunk\<close> may look at, is NUL.

  The lemmas: the loop ends for every input and leaves a suffix of what was received; a chunked body is
  put together; and what a delivered body's length has to do with the bytes received.
\<close>

section \<open>Chunks\<close>

definition is_hex_digit :: "char \<Rightarrow> bool" where
  "is_hex_digit c \<longleftrightarrow> isdigit c \<or> 97 \<le> byte c \<and> byte c \<le> 102 \<or> 65 \<le> byte c \<and> byte c \<le> 70"

text \<open>The return value, \<open>*pl\<close> and \<open>*dl\<close>; the two are left alone unless it is positive.\<close>

definition skip_chunk :: "string \<Rightarrow> int \<times> nat \<times> nat" where
  "skip_chunk buf =
     (let len = int (length buf); i = length (takeWhile is_hex_digit buf)
      in if len < 3 then (0, 0, 0)
         else if i = 0 then (-1, 0, 0)
         else if 4 * 2 < i then (-1, 0, 0)
         else if len < int i + 1 \<or> cat buf i \<noteq> CR \<or> cat buf (i + 1) \<noteq> LF then (-1, 0, 0)
         else (case mg_str_to_num (take i buf) 16 4 of
                 None \<Rightarrow> (-1, 0, 0)
               | Some v \<Rightarrow>
                   (let n = sint (word_of_nat v :: 32 word)
                    in if n < 0 then (-1, 0, 0)
                       else if len - int i - 4 < n then (0, 0, 0)
                       else if cat buf (i + nat n + 2) \<noteq> CR \<or> cat buf (i + nat n + 3) \<noteq> LF then (-1, 0, 0)
                       else (int i + 2 + n + 2, i + 2, nat n))))"

lemma skip_chunk_bound:
  assumes "skip_chunk buf = (cl, pl, dl)" "0 < cl"
  shows "nat cl = pl + dl + 2 \<and> 3 \<le> pl \<and> nat cl \<le> length buf \<and> dl < 2 ^ 31"
proof -
  define i where "i = length (takeWhile is_hex_digit buf)"
  have b: "sint (word_of_nat v :: 32 word) < 2 ^ 31" for v using sint_lt [of "word_of_nat v :: 32 word"] by simp
  have "0 < i" using assms unfolding skip_chunk_def Let_def i_def [symmetric] by (cases i) (simp_all split: if_splits)
  moreover have "i \<le> length buf" by (simp add: i_def length_takeWhile_le)
  ultimately show ?thesis
    using assms b unfolding skip_chunk_def Let_def i_def [symmetric]
    by (auto simp: nat_less_iff split: if_splits option.splits)
qed

text \<open>The first pass: the last return value and the offset of its chunk.\<close>

function find_last :: "string \<Rightarrow> nat \<Rightarrow> int \<times> nat" where
  "find_last s k =
     (case skip_chunk (drop k s) of (cl, pl, dl) \<Rightarrow>
        if 0 < cl \<and> dl \<noteq> 0 then find_last s (k + nat cl) else (cl, k))"
  by pat_completeness auto
termination
  by (relation "measure (\<lambda>(s, k). length s - k)") (auto dest!: skip_chunk_bound [OF sym])

text \<open>\<open>memmove(s + pos, ...)\<close> within the buffer.\<close>

definition moved :: "string \<Rightarrow> nat \<Rightarrow> string \<Rightarrow> string" where
  "moved s pos bytes = take (length s) (overwrite s pos bytes)"

text \<open>The second pass: the buffer, the bytes passed and the body's length.\<close>

function join_chunks :: "string \<Rightarrow> nat \<Rightarrow> nat \<Rightarrow> string \<times> nat \<times> nat" where
  "join_chunks s k body =
     (case skip_chunk (drop k s) of (cl, pl, dl) \<Rightarrow>
        if 0 < cl then
          (let s' = moved s body (take dl (drop (k + pl) s))
           in if dl = 0 then (s', k + nat cl, body + dl) else join_chunks s' (k + nat cl) (body + dl))
        else (s, k, body))"
  by pat_completeness auto
termination
  by (relation "measure (\<lambda>(s, k, b). length s - k)") (auto simp: moved_def dest!: skip_chunk_bound [OF sym])

declare find_last.simps [simp del] join_chunks.simps [simp del]

section \<open>The loop\<close>

text \<open>What the user's handler is told: a request's head, a request with the length of its body as the code
  has it and the bytes from the body's start to the end of the buffer, or an error.\<close>

datatype http_note =
    Http_hdrs http_message
  | Http_msg http_message u64 string
  | Http_error string

record 'u http_conn =
  hc_recv :: string
  hc_sent :: string
  hc_is_resp :: bool
  hc_is_draining :: bool
  hc_is_closing :: bool
  hc_user :: 'u

text \<open>The event that \<open>http_cb\<close> is called for.\<close>

datatype io_event = Ev_read | Ev_close | Ev_poll | Ev_other_io

text \<open>The user's handler is told what happened and \<open>is_resp\<close>; it answers with the bytes it sends, \<open>is_resp\<close> and its state.\<close>

type_synonym 'u http_fn = "http_note \<Rightarrow> bool \<Rightarrow> 'u \<Rightarrow> string \<times> bool \<times> 'u"

definition tell :: "'u http_fn \<Rightarrow> http_note \<Rightarrow> 'u http_conn \<Rightarrow> 'u http_conn" where
  "tell fn x c = (case fn x (hc_is_resp c) (hc_user c) of (s, r, u) \<Rightarrow>
     c\<lparr>hc_sent := hc_sent c @ s, hc_is_resp := r, hc_user := u\<rparr>)"

definition fail :: "'u http_fn \<Rightarrow> string \<Rightarrow> 'u http_conn \<Rightarrow> 'u http_conn" where
  "fail fn msg c = tell fn (Http_error msg) (c\<lparr>hc_is_closing := True\<rparr>)"

text \<open>How a round of the loop ends: \<open>return\<close>, \<open>break\<close>, or the next round; the offset with the last two.\<close>

datatype 'u round = Return "'u http_conn" | Break u64 "'u http_conn" | Next u64 "'u http_conn"

definition none_len :: u64 where "none_len = -1"

definition note_len :: "http_message \<Rightarrow> u64" where
  "note_len hm = (case hm_body_len hm of Some n \<Rightarrow> word_of_nat n | None \<Rightarrow> none_len)"

text \<open>A request that must have a body but says nothing of its length; and a reply without one.\<close>

definition is_response_buf :: "string \<Rightarrow> bool" where
  "is_response_buf buf \<longleftrightarrow> mg_ncasecmp buf ''HTTP/'' 5 = 0"

definition is_posting :: "http_message \<Rightarrow> string \<Rightarrow> bool" where
  "is_posting hm buf \<longleftrightarrow> \<not> is_response_buf buf
     \<and> (mg_strcasecmp (hm_method hm) ''POST'' = 0 \<or> mg_strcasecmp (hm_method hm) ''PUT'' = 0)"

definition needs_length :: "http_message \<Rightarrow> string \<Rightarrow> bool" where
  "needs_length hm buf \<longleftrightarrow> is_posting hm buf
     \<or> is_response_buf buf \<and> (let status = atoi (hm_uri hm) in 200 \<le> status \<and> status \<noteq> 204 \<and> status \<noteq> 304)"

text \<open>The end of a round, for a message whose last byte is before \<open>ofs\<close>.\<close>

definition deliver ::
  "'u http_fn \<Rightarrow> bool \<Rightarrow> http_message \<Rightarrow> u64 \<Rightarrow> string \<Rightarrow> u64 \<Rightarrow> 'u http_conn \<Rightarrow> 'u round" where
  "deliver fn accepted hm blen rest ofs c =
     (let c1 = tell fn (Http_msg hm blen rest) (if accepted then c\<lparr>hc_is_resp := True\<rparr> else c)
      in if accepted \<and> \<not> hc_is_resp c1
            \<and> (case mg_http_get_header (hm_headers hm) ''Connection'' of
                 Some v \<Rightarrow> mg_strcasecmp v ''close'' = 0 | None \<Rightarrow> False)
         then Break ofs (c1\<lparr>hc_is_draining := True\<rparr>)
         else Next ofs c1)"

definition http_round ::
  "'u http_fn \<Rightarrow> bool \<Rightarrow> bool \<Rightarrow> io_event \<Rightarrow> u64 \<Rightarrow> 'u http_conn \<Rightarrow> 'u round" where
  "http_round fn accepted client ev ofs c =
     (let buf = drop (unat ofs) (hc_recv c); rlen = word_of_nat (length (hc_recv c)) :: u64
      in case mg_http_parse buf of (n, res) \<Rightarrow>
        if n < 0 then Return (c\<lparr>hc_is_draining := True, hc_recv := []\<rparr>)
        else (case res of
                None \<Rightarrow> Break ofs c
              | Some hm \<Rightarrow>
                  (let hlen = word_of_int n :: u64; c1 = tell fn (Http_hdrs hm) c;
                       blen = (if ev = Ev_close then rlen - ofs - hlen else note_len hm);
                       rest = drop (nat n) buf
                   in case mg_http_get_header (hm_headers hm) ''Transfer-Encoding'' of
                        Some te \<Rightarrow>
                          if mg_strcasecmp te ''chunked'' \<noteq> 0 then Return (fail fn ''Invalid Transfer-Encoding'' c1)
                          else (case find_last rest 0 of (cl, k) \<Rightarrow>
                            if cl = 0 then Break ofs c1
                            else if cl < 0 then Break ofs (fail fn ''Invalid chunk'' c1)
                            else (case join_chunks rest 0 0 of (rest', k', body) \<Rightarrow>
                              deliver fn accepted hm (word_of_nat body) rest' (ofs + (hlen + word_of_nat k'))
                                (c1\<lparr>hc_recv := take (unat ofs + nat n) (hc_recv c) @ rest'\<rparr>)))
                      | None \<Rightarrow>
                          (let missing = mg_http_get_header (hm_headers hm) ''Content-length'' = None;
                               ofs1 = (if missing \<and> is_posting hm buf then ofs + hlen else ofs);
                               c2 = (if missing \<and> needs_length hm buf \<and> \<not> client
                                     then c1\<lparr>hc_sent := hc_sent c1 @ http_reply_bytes 411 [] [], hc_is_resp := False\<rparr> else c1)
                           in if rlen - ofs1 - hlen < blen then Break ofs1 c2
                              else deliver fn accepted hm blen rest (ofs1 + (hlen + blen)) c2))))"

text \<open>\<open>while (c->is_resp == 0 && ofs < c->recv.len)\<close>; a \<open>return\<close> has no offset.\<close>

partial_function (option) http_rounds ::
  "'u http_fn \<Rightarrow> bool \<Rightarrow> bool \<Rightarrow> io_event \<Rightarrow> u64 \<Rightarrow> 'u http_conn
     \<Rightarrow> (u64 option \<times> 'u http_conn) option" where
  "http_rounds fn accepted client ev ofs c =
     (if hc_is_resp c \<or> \<not> ofs < word_of_nat (length (hc_recv c)) then Some (Some ofs, c)
      else (case http_round fn accepted client ev ofs c of
              Return c1 \<Rightarrow> Some (None, c1)
            | Break ofs1 c1 \<Rightarrow> Some (Some ofs1, c1)
            | Next ofs1 c1 \<Rightarrow> http_rounds fn accepted client ev ofs1 c1))"

text \<open>\<open>mg_iobuf_del(&c->recv, 0, ofs)\<close> clamps the offset to the buffer.\<close>

definition http_cb ::
  "'u http_fn \<Rightarrow> bool \<Rightarrow> bool \<Rightarrow> io_event \<Rightarrow> 'u http_conn \<Rightarrow> 'u http_conn option" where
  "http_cb fn accepted client ev c =
     (if ev = Ev_read \<or> ev = Ev_close
         \<or> ev = Ev_poll \<and> accepted \<and> \<not> hc_is_draining c \<and> hc_recv c \<noteq> []
      then (case http_rounds fn accepted client ev 0 c of
              None \<Rightarrow> None
            | Some (None, c1) \<Rightarrow> Some c1
            | Some (Some ofs, c1) \<Rightarrow> Some (if 0 < ofs then c1\<lparr>hc_recv := drop (unat ofs) (hc_recv c1)\<rparr> else c1))
      else Some c)"

section \<open>What a round does to the offset\<close>

lemma request_len_bound: "request_len_loop seen cs \<le> int (length seen + length cs)"
  by (induction seen cs rule: request_len_loop.induct) auto

lemma http_parse_len:
  assumes "mg_http_parse s = (n, res)"
  shows "n \<le> int (length s)" "0 < n \<longleftrightarrow> res \<noteq> None"
proof -
  have "mg_http_get_request_len s \<le> int (length s)"
    using request_len_bound [of "[]" s] by (simp add: mg_http_get_request_len_def)
  with assms show "n \<le> int (length s)" "0 < n \<longleftrightarrow> res \<noteq> None"
    by (auto simp: mg_http_parse_def Let_def split: if_splits prod.splits option.splits)
qed

lemma strcasecmp_length: "mg_strcasecmp a b = 0 \<Longrightarrow> length a = length b"
  by (induction a b rule: mg_strcasecmp.induct) (auto simp: Let_def split: if_splits)

lemma ncasecmp_fold: "map mg_tolc a = map mg_tolc b \<Longrightarrow> mg_ncasecmp k a n = mg_ncasecmp k b n"
proof (induction k a n arbitrary: b rule: mg_ncasecmp.induct)
  case (2 c cs d ds n)
  then obtain d' ds' where b: "b = d' # ds'" "mg_tolc d' = mg_tolc d" "map mg_tolc ds' = map mg_tolc ds"
    by (cases b) auto
  show ?case using 2(1) [OF refl, of ds'] b by (auto simp: Let_def)
qed auto

lemma header_fold:
  assumes "map mg_tolc a = map mg_tolc b"
  shows "mg_http_get_header hs a = mg_http_get_header hs b"
proof -
  have "length a = length b" using assms by (metis length_map)
  then show ?thesis
    using ncasecmp_fold [OF assms] by (induction hs b rule: mg_http_get_header.induct) auto
qed

lemma content_length_fold: "mg_http_get_header hs ''Content-length'' = mg_http_get_header hs ''Content-Length''"
  by (rule header_fold) code_simp

lemma parse_body_len:
  assumes "mg_http_parse s = (n, Some hm)"
  shows "hm_body_len hm = body_len (5 < length (hm_method hm) \<and> mg_ncasecmp (hm_method hm) ''HTTP/'' 5 = 0)
    (hm_method hm) (hm_uri hm)
    (case mg_http_get_header (hm_headers hm) ''Content-Length'' of None \<Rightarrow> None | Some v \<Rightarrow> mg_to_size_t v)"
  using assms unfolding mg_http_parse_def Let_def
  by (auto split: if_split_asm prod.split_asm option.split_asm simp del: mg_ncasecmp.simps mg_strcasecmp.simps)

lemma posting_len:
  assumes "mg_http_parse s = (n, Some hm)" "is_posting hm buf" "mg_http_get_header (hm_headers hm) ''Content-length'' = None"
  shows "hm_body_len hm = None"
proof -
  have "length (hm_method hm) < 5" using assms(2) strcasecmp_length by (fastforce simp: is_posting_def)
  then show ?thesis
    using assms(2,3) by (auto simp: parse_body_len [OF assms(1)] body_len_def is_posting_def content_length_fold)
qed

lemma length_moved [simp]: "length (moved s pos bytes) = length s"
  by (simp add: moved_def overwrite_def)

lemma drop_moved: "pos + length bytes \<le> k \<Longrightarrow> k \<le> length s \<Longrightarrow> drop k (moved s pos bytes) = drop k s"
  by (simp add: moved_def overwrite_def)

lemma join_chunks_bound:
  "join_chunks s k body = (s', k', body') \<Longrightarrow> k \<le> length s \<Longrightarrow> body \<le> k
    \<Longrightarrow> length s' = length s \<and> k' \<le> length s \<and> body' \<le> k' \<and> k \<le> k' \<and> drop k' s' = drop k' s"
proof (induction s k body arbitrary: s' k' body' rule: join_chunks.induct)
  case (1 s k body)
  obtain cl pl dl where sk: "skip_chunk (drop k s) = (cl, pl, dl)" by (metis prod_cases3)
  show ?case
  proof (cases "0 < cl")
    case False
    with 1 sk show ?thesis by (simp add: join_chunks.simps [of s k])
  next
    case True
    note b = skip_chunk_bound [OF sk True]
    show ?thesis
    proof (cases "dl = 0")
      case True
      with 1 sk b \<open>0 < cl\<close> drop_moved [of body "[]" "k + nat cl" s] show ?thesis
        by (auto simp: join_chunks.simps [of s k] Let_def)
    next
      case False
      let ?s = "moved s body (take dl (drop (k + pl) s))"
      have j: "join_chunks ?s (k + nat cl) (body + dl) = (s', k', body')"
        using 1(2) sk True False by (simp add: join_chunks.simps [of s k] Let_def)
      have "k + nat cl \<le> length ?s" "body + dl \<le> k + nat cl" using b 1(3,4) by auto
      from 1(1) [OF sk [symmetric] refl True refl False j this]
      have i: "length s' = length s \<and> k' \<le> length s \<and> body' \<le> k' \<and> drop k' s' = drop k' ?s" "k + nat cl \<le> k'" by simp_all
      have "drop k' ?s = drop k' s" using i b 1(4) by (intro drop_moved) auto
      with i show ?thesis by simp
    qed
  qed
qed

lemma tell_simps [simp]:
  "hc_recv (tell fn x c) = hc_recv c" "hc_is_closing (tell fn x c) = hc_is_closing c"
  "hc_is_draining (tell fn x c) = hc_is_draining c" "hc_recv (fail fn m c) = hc_recv c" "hc_is_closing (fail fn m c)"
  by (simp_all add: tell_def fail_def split: prod.split)

lemma deliver_cases:
  "\<exists>c'. hc_recv c' = hc_recv c \<and> (deliver fn acc hm bl rest ofs c = Next ofs c' \<or> deliver fn acc hm bl rest ofs c = Break ofs c')"
  by (auto simp: deliver_def Let_def split: option.split)

definition moves_on :: "u64 \<Rightarrow> u64 \<Rightarrow> string \<Rightarrow> string \<Rightarrow> bool" where
  "moves_on ofs ofs' r r' \<longleftrightarrow> ofs < ofs' \<and> length r' = length r \<and> drop (unat ofs') r' = drop (unat ofs') r"

lemma add64: "unat x + unat y < 2 ^ 64 \<Longrightarrow> unat (x + y) = unat x + unat y" for x y :: u64
  by (simp add: unat_plus_if_size word_size)

text \<open>The arithmetic of a message without chunks: where its end is, whatever its length field says.\<close>

lemma rest_len:
  fixes ofs hlen rlen :: u64
  assumes "unat ofs + unat hlen \<le> unat rlen"
  shows "unat (rlen - ofs - hlen) = unat rlen - unat ofs - unat hlen"
  using assms by (simp add: unat_sub_if' word_le_nat_alt)

lemma end_of_body:
  fixes ofs hlen blen rlen :: u64
  assumes fit: "unat ofs + unat hlen \<le> unat rlen" "0 < unat hlen" "unat rlen < 2 ^ 31"
    and start: "ofs1 = ofs \<or> ofs1 = ofs + hlen \<and> (blen = none_len \<or> blen = rlen - ofs - hlen)"
    and le: "blen \<le> rlen - ofs1 - hlen"
  shows "ofs < ofs1 + (hlen + blen)"
    and "unat blen \<le> unat rlen - unat ofs - unat hlen \<or> blen = none_len \<and> unat rlen + 1 = unat ofs + 2 * unat hlen"
proof -
  note r = rest_len [OF fit(1)]
  have "ofs < ofs1 + (hlen + blen) \<and> (unat blen \<le> unat rlen - unat ofs - unat hlen
     \<or> blen = none_len \<and> unat rlen + 1 = unat ofs + 2 * unat hlen)"
  proof (cases "ofs1 = ofs")
    case True
    then have b: "unat blen \<le> unat rlen - unat ofs - unat hlen" using le r by (simp add: word_le_nat_alt)
    then have "unat (hlen + blen) = unat hlen + unat blen" using fit by (simp add: unat_plus_if_size word_size)
    then have "unat (ofs + (hlen + blen)) = unat ofs + (unat hlen + unat blen)"
      using b fit by (simp add: unat_plus_if_size word_size)
    with True b fit show ?thesis by (simp add: word_less_nat_alt)
  next
    case False
    with start have o: "ofs1 = ofs + hlen" and "blen = none_len \<or> blen = rlen - ofs - hlen" by auto
    from this(2) show ?thesis
    proof
      assume b: "blen = none_len"
      then have e: "rlen - ofs1 - hlen = -1" using le by (simp add: none_len_def word_order.extremum_unique)
      then have "ofs1 + (hlen + blen) = rlen" unfolding b none_len_def by (simp add: algebra_simps)
      moreover have "ofs < rlen" using fit by (simp add: word_less_nat_alt)
      moreover have "rlen + 1 = ofs + hlen + hlen" using e o by (simp add: algebra_simps)
      moreover note add = add64
      then have "unat (ofs + hlen + hlen) = unat ofs + 2 * unat hlen" "unat (rlen + 1) = unat rlen + 1"
        using fit add [of ofs hlen] add [of "ofs + hlen" hlen] add [of rlen 1] by simp_all
      ultimately have "unat rlen + 1 = unat ofs + 2 * unat hlen" "ofs < rlen" "ofs1 + (hlen + blen) = rlen" by metis+
      then show ?thesis using b by simp
    next
      assume b: "blen = rlen - ofs - hlen"
      then have "ofs1 + (hlen + blen) = rlen + hlen" using o by simp
      moreover have "unat (rlen + hlen) = unat rlen + unat hlen" using fit by (simp add: unat_plus_if_size word_size)
      ultimately have "unat ofs < unat (ofs1 + (hlen + blen))" using fit by (simp only:)
      moreover have "unat blen \<le> unat rlen - unat ofs - unat hlen" using r b by simp
      ultimately show ?thesis unfolding word_less_nat_alt by blast
    qed
  qed
  then show "ofs < ofs1 + (hlen + blen)"
    "unat blen \<le> unat rlen - unat ofs - unat hlen \<or> blen = none_len \<and> unat rlen + 1 = unat ofs + 2 * unat hlen" by simp_all
qed

lemma moves_on_same: "ofs < ofs' \<Longrightarrow> moves_on ofs ofs' r r"
  by (simp add: moves_on_def)

text \<open>A round ends the connection, waits where it is, or moves on.\<close>

definition settled :: "u64 \<Rightarrow> string \<Rightarrow> 'u round \<Rightarrow> bool" where
  "settled ofs r x =
     (case x of
        Return c \<Rightarrow> hc_is_closing c \<or> hc_recv c = []
      | Break q c \<Rightarrow> q = ofs \<and> hc_recv c = r \<or> moves_on ofs q r (hc_recv c)
      | Next q c \<Rightarrow> moves_on ofs q r (hc_recv c))"

lemma settled_simps [simp]:
  "settled ofs r (Return (fail fn m c))" "settled ofs r (Return (c\<lparr>hc_is_draining := d, hc_recv := []\<rparr>))"
  "hc_recv c = r \<Longrightarrow> settled ofs r (Break ofs c)"
  by (simp_all add: settled_def)

lemma settled_deliver: "moves_on ofs q r (hc_recv c) \<Longrightarrow> settled ofs r (deliver fn acc hm bl rest q c)"
  using deliver_cases [of c fn acc hm bl rest q] by (auto simp: settled_def)

text \<open>The head that was parsed lies in the buffer.\<close>

lemma head_fits:
  fixes ofs :: u64
  assumes "mg_http_parse (drop (unat ofs) r) = (n, Some hm)" "length r < 2 ^ 31" "ofs < word_of_nat (length r)"
  obtains m where "n = int m" "unat (word_of_int n :: u64) = m" "0 < m" "unat ofs + m \<le> length r"
    "unat ofs + unat (word_of_int n :: u64) \<le> unat (word_of_nat (length r) :: u64)" "0 < unat (word_of_int n :: u64)"
    "unat (word_of_nat (length r) :: u64) < 2 ^ 31" "unat (word_of_nat (length r) :: u64) = length r"
proof -
  have N: "unat (word_of_nat (length r) :: u64) = length r" using assms(2) by (simp add: unat_of_nat)
  have "0 < n" using http_parse_len(2) [OF assms(1)] by simp
  moreover have "nat n \<le> length (drop (unat ofs) r)" using http_parse_len(1) [OF assms(1)] by linarith
  ultimately obtain m where n: "n = int m" "0 < m" "m \<le> length r - unat ofs"
    using that [of "nat n"] unfolding length_drop by (metis nat_0_le order_less_imp_le zero_less_nat_eq)
  have ofs: "unat ofs < length r" using assms(3) unfolding word_less_nat_alt N .
  have h: "unat (word_of_int n :: u64) = m" using n assms(2) by (simp add: unat_of_nat)
  have le: "unat ofs + m \<le> length r" using n(3) ofs by linarith
  show ?thesis by (rule that [OF n(1) h n(2) le]; unfold h N; use n(2) le assms(2) in \<open>simp only:\<close>)
qed

text \<open>A round for a message without chunks.\<close>

lemma plain_round:
  fixes c :: "'u http_conn"
  assumes "mg_http_parse (drop (unat ofs) (hc_recv c)) = (int m, Some hm)"
    and "mg_http_get_header (hm_headers hm) ''Transfer-Encoding'' = None"
  obtains ofs1 blen c2 where "http_round fn acc cl ev ofs c = (if word_of_nat (length (hc_recv c)) - ofs1 - word_of_nat m < blen then Break ofs1 c2
       else deliver fn acc hm blen (drop m (drop (unat ofs) (hc_recv c))) (ofs1 + (word_of_nat m + blen)) c2)"
    "ofs1 = ofs \<or> ofs1 = ofs + word_of_nat m \<and> (blen = none_len \<or> blen = word_of_nat (length (hc_recv c)) - ofs - word_of_nat m)"
    "blen = note_len hm \<or> blen = word_of_nat (length (hc_recv c)) - ofs - word_of_nat m"
    "hc_recv c2 = hc_recv c" "hc_user c2 = hc_user (tell fn (Http_hdrs hm) c)"
proof -
  let ?buf = "drop (unat ofs) (hc_recv c)" and ?N = "word_of_nat (length (hc_recv c)) :: u64" and ?h = "word_of_nat m :: u64"
  define ofs1 where "ofs1 = (if mg_http_get_header (hm_headers hm) ''Content-length'' = None \<and> is_posting hm ?buf then ofs + ?h else ofs)"
  define blen where "blen = (if ev = Ev_close then ?N - ofs - ?h else note_len hm)"
  define c1 where "c1 = tell fn (Http_hdrs hm) c"
  define c2 where "c2 = (if mg_http_get_header (hm_headers hm) ''Content-length'' = None \<and> needs_length hm ?buf \<and> \<not> cl
     then c1\<lparr>hc_sent := hc_sent c1 @ http_reply_bytes 411 [] [], hc_is_resp := False\<rparr> else c1)"
  have "http_round fn acc cl ev ofs c = (if ?N - ofs1 - ?h < blen then Break ofs1 c2
     else deliver fn acc hm blen (drop m ?buf) (ofs1 + (?h + blen)) c2)"
    unfolding http_round_def Let_def assms prod.case option.case ofs1_def blen_def c2_def c1_def of_int_of_nat_eq nat_int
    by (rule if_not_P) simp
  moreover have "ofs1 = ofs \<or> ofs1 = ofs + ?h \<and> (blen = none_len \<or> blen = ?N - ofs - ?h)"
    using posting_len [OF assms(1), of ?buf] by (auto simp: ofs1_def blen_def note_len_def)
  ultimately show ?thesis by (rule that) (simp_all add: blen_def c2_def c1_def)
qed

lemma round_settled:
  assumes small: "length (hc_recv c) < 2 ^ 31" and more: "ofs < word_of_nat (length (hc_recv c))"
  shows "settled ofs (hc_recv c) (http_round fn acc cl ev ofs c)"
proof -
  let ?r = "hc_recv c"
  obtain n res where p: "mg_http_parse (drop (unat ofs) ?r) = (n, res)" by (cases "mg_http_parse (drop (unat ofs) ?r)")
  show ?thesis
  proof (cases res)
    case None
    with p show ?thesis by (simp add: http_round_def Let_def)
  next
    case (Some hm)
    with p have p: "mg_http_parse (drop (unat ofs) ?r) = (n, Some hm)" by simp
    obtain m where n: "n = int m" and h: "unat (word_of_int n :: u64) = m" and m: "0 < m" "unat ofs + m \<le> length ?r"
      and fit: "unat ofs + unat (word_of_int n :: u64) \<le> unat (word_of_nat (length ?r) :: u64)" "0 < unat (word_of_int n :: u64)"
        "unat (word_of_nat (length ?r) :: u64) < 2 ^ 31" by (rule head_fits [OF p small more])
    let ?rest = "drop m (drop (unat ofs) ?r)"
    show ?thesis
    proof (cases "mg_http_get_header (hm_headers hm) ''Transfer-Encoding''")
      case (Some te)
      obtain d k where f: "find_last ?rest 0 = (d, k)" by (cases "find_last ?rest 0")
      obtain s' k' b' where j: "join_chunks ?rest 0 0 = (s', k', b')" by (metis prod_cases3)
      have b: "length s' = length ?rest" "k' \<le> length ?rest" "drop k' s' = drop k' ?rest" using join_chunks_bound [OF j] by simp_all
      let ?q = "ofs + (word_of_int n + word_of_nat k')" and ?r' = "take (unat ofs + m) ?r @ s'"
      have k: "unat (word_of_nat k' :: u64) = k'" using b(2) small by (simp add: unat_of_nat)
      note add = add64
      have "unat (word_of_int n + word_of_nat k' :: u64) = m + k'"
        using b(2) small m add [of "word_of_int n" "word_of_nat k'"] unfolding h k by simp
      then have q: "unat ?q = unat ofs + m + k'"
        using b(2) small m add [of ofs "word_of_int n + word_of_nat k'"] by simp
      have "drop (unat ofs + m + k') ?r' = drop k' s'" using m by simp
      also have "\<dots> = drop (unat ofs + m + k') ?r" using b(3) by (simp add: add.commute add.left_commute)
      finally have "moves_on ofs ?q ?r ?r'"
        unfolding moves_on_def word_less_nat_alt q using b(1) m by simp
      then show ?thesis
        using Some p f j n by (simp add: http_round_def Let_def settled_deliver)
    next
      case None
      obtain ofs1 blen c2 where r: "http_round fn acc cl ev ofs c = (if word_of_nat (length ?r) - ofs1 - word_of_nat m < blen then Break ofs1 c2
          else deliver fn acc hm blen ?rest (ofs1 + (word_of_nat m + blen)) c2)"
        and o: "ofs1 = ofs \<or> ofs1 = ofs + word_of_nat m \<and> (blen = none_len \<or> blen = word_of_nat (length ?r) - ofs - word_of_nat m)"
        and "blen = note_len hm \<or> blen = word_of_nat (length ?r) - ofs - word_of_nat m"
        and c2: "hc_recv c2 = ?r" "hc_user c2 = hc_user (tell fn (Http_hdrs hm) c)"
        by (rule plain_round [OF p [unfolded n] None])
      note f = fit [unfolded n of_int_of_nat_eq]
      have s: "settled ofs ?r (Break ofs1 c2)"
      proof (cases "ofs1 = ofs")
        case False
        with o have "ofs1 = ofs + word_of_nat m" by blast
        moreover have "unat (ofs + word_of_nat m) = unat ofs + unat (word_of_nat m :: u64)"
          using f by (intro add64) (simp del: unsigned_of_nat)
        ultimately have "unat ofs1 = unat ofs + unat (word_of_nat m :: u64)" by (simp only:)
        then have "ofs < ofs1" using f(2) unfolding word_less_nat_alt by linarith
        with c2 show ?thesis by (simp add: settled_def moves_on_same)
      qed (simp add: c2)
      show ?thesis
        using end_of_body(1) [OF f o] s c2 by (simp add: r not_less settled_deliver moves_on_same)
    qed
  qed
qed

section \<open>The loop ends\<close>

lemma http_rounds_end:
  assumes "length (hc_recv c) < 2 ^ 31"
  shows "\<exists>q c'. http_rounds fn acc cl ev ofs c = Some (q, c')
    \<and> (case q of None \<Rightarrow> hc_is_closing c' \<or> hc_recv c' = []
       | Some ofs' \<Rightarrow> ofs' = ofs \<and> hc_recv c' = hc_recv c \<or> moves_on ofs ofs' (hc_recv c) (hc_recv c'))"
  using assms
proof (induction "length (hc_recv c) - unat ofs" arbitrary: ofs c rule: less_induct)
  case less
  let ?r = "hc_recv c"
  show ?case
  proof (cases "hc_is_resp c \<or> \<not> ofs < word_of_nat (length ?r)")
    case True
    then show ?thesis by (simp add: http_rounds.simps [of fn acc cl ev ofs c])
  next
    case False
    then have go: "http_rounds fn acc cl ev ofs c = (case http_round fn acc cl ev ofs c of
        Return c1 \<Rightarrow> Some (None, c1) | Break ofs1 c1 \<Rightarrow> Some (Some ofs1, c1) | Next ofs1 c1 \<Rightarrow> http_rounds fn acc cl ev ofs1 c1)"
      and s: "settled ofs ?r (http_round fn acc cl ev ofs c)"
      using round_settled [OF less.prems] by (simp_all add: http_rounds.simps [of fn acc cl ev ofs c])
    show ?thesis
    proof (cases "http_round fn acc cl ev ofs c")
      case (Next q c1)
      then have m: "moves_on ofs q ?r (hc_recv c1)" using s by (simp add: settled_def)
      have "unat (word_of_nat (length ?r) :: u64) = length ?r" using less.prems by (simp add: unat_of_nat)
      then have "unat ofs < length ?r" using False by (simp add: word_less_nat_alt)
      then have "length (hc_recv c1) - unat q < length ?r - unat ofs" and small: "length (hc_recv c1) < 2 ^ 31"
        using m less.prems unfolding moves_on_def word_less_nat_alt by linarith+
      from less.hyps [OF this] obtain q' c' where i: "http_rounds fn acc cl ev q c1 = Some (q', c')"
        "case q' of None \<Rightarrow> hc_is_closing c' \<or> hc_recv c' = []
         | Some ofs' \<Rightarrow> ofs' = q \<and> hc_recv c' = hc_recv c1 \<or> moves_on q ofs' (hc_recv c1) (hc_recv c')" by blast
      have "moves_on ofs ofs' ?r (hc_recv c')" if "moves_on q ofs' (hc_recv c1) (hc_recv c')" for ofs'
      proof -
        have "unat q \<le> unat ofs'" using that by (simp add: moves_on_def word_less_nat_alt)
        then have "drop (unat ofs') (hc_recv c1) = drop (unat ofs') ?r"
          using m unfolding moves_on_def by (metis drop_drop le_add_diff_inverse2)
        with m that show ?thesis by (auto simp: moves_on_def)
      qed
      with i m Next go show ?thesis by (auto split: option.splits)
    qed (use s go in \<open>auto simp: settled_def\<close>)
  qed
qed

text \<open>C7: Reading requests always comes to an end. Whatever bytes a connection has received (the library
  takes at most 3 MB), whatever event it is called for and whatever the handlers answer, the loop of
  \<open>http_cb\<close> over pipelined requests and their chunks returns; and unless the connection is being
  closed, what stays in the buffer is the end of what was received, so that nothing is read
  twice or lost in the middle.\<close>

theorem http_cb_returns:
  assumes "length (hc_recv c) < 2 ^ 31"
  shows "\<exists>c'. http_cb fn accepted client ev c = Some c' \<and> (hc_is_closing c' \<or> (\<exists>k. hc_recv c' = drop k (hc_recv c)))"
proof -
  obtain q c' where l: "http_rounds fn accepted client ev 0 c = Some (q, c')"
    "case q of None \<Rightarrow> hc_is_closing c' \<or> hc_recv c' = []
     | Some ofs' \<Rightarrow> ofs' = 0 \<and> hc_recv c' = hc_recv c \<or> moves_on 0 ofs' (hc_recv c) (hc_recv c')"
    using http_rounds_end [OF assms, of fn accepted client ev 0] by blast
  have "\<exists>k. hc_recv c = drop k (hc_recv c)" by (rule exI [of _ 0]) simp
  moreover have "\<exists>k. [] = drop k (hc_recv c)" by (rule exI [of _ "length (hc_recv c)"]) simp
  ultimately show ?thesis
    using l by (cases q) (auto simp: http_cb_def moves_on_def)
qed

section \<open>What the loop leaves alone\<close>

text \<open>It never makes the buffer longer, and a connection that is being closed stays so.\<close>

definition conn_kept :: "'u http_conn \<Rightarrow> 'u http_conn \<Rightarrow> bool" where
  "conn_kept c d \<longleftrightarrow> length (hc_recv d) \<le> length (hc_recv c) \<and> (hc_is_closing c \<longrightarrow> hc_is_closing d)"

definition round_conn :: "'u round \<Rightarrow> 'u http_conn" where
  "round_conn x = (case x of Return c \<Rightarrow> c | Break q c \<Rightarrow> c | Next q c \<Rightarrow> c)"

lemma kept_tell: "conn_kept c d \<Longrightarrow> conn_kept c (tell fn x d)"
  by (simp add: conn_kept_def)

lemma kept_fail: "conn_kept c d \<Longrightarrow> conn_kept c (fail fn m d)"
  by (simp add: conn_kept_def)

lemma kept_deliver: "conn_kept c d \<Longrightarrow> conn_kept c (round_conn (deliver fn acc hm bl rest q d))"
  by (auto simp: conn_kept_def deliver_def Let_def round_conn_def split: option.split)

lemma round_kept: "conn_kept c (round_conn (http_round fn acc cl ev ofs c))"
proof -
  obtain n res where p: "mg_http_parse (drop (unat ofs) (hc_recv c)) = (n, res)" by (cases "mg_http_parse (drop (unat ofs) (hc_recv c))")
  have same: "conn_kept c c" by (simp add: conn_kept_def)
  show ?thesis
  proof (cases "n < 0 \<or> res = None")
    case True
    with p show ?thesis by (auto simp: http_round_def Let_def round_conn_def conn_kept_def)
  next
    case False
    then obtain hm where hm: "res = Some hm" "\<not> n < 0" by auto
    let ?rest = "drop (nat n) (drop (unat ofs) (hc_recv c))" and ?c1 = "tell fn (Http_hdrs hm) c"
    obtain d k where f: "find_last ?rest 0 = (d, k)" by (cases "find_last ?rest 0")
    obtain s' k' b' where j: "join_chunks ?rest 0 0 = (s', k', b')" by (metis prod_cases3)
    have "length s' = length ?rest" using join_chunks_bound [OF j] by simp
    then have chunked: "conn_kept c (?c1\<lparr>hc_recv := take (unat ofs + nat n) (hc_recv c) @ s'\<rparr>)" by (simp add: conn_kept_def)
    have plain: "conn_kept c (?c1\<lparr>hc_sent := s, hc_is_resp := r\<rparr>)" for s r by (simp add: conn_kept_def)
    show ?thesis
      using p hm f j kept_deliver [OF chunked] kept_deliver [OF plain] kept_deliver [OF kept_tell [OF same]] plain kept_tell [OF same] kept_fail [OF kept_tell [OF same]]
      by (simp add: http_round_def Let_def round_conn_def [of "Return _"] round_conn_def [of "Break _ _"] split: option.split)
  qed
qed

lemma rounds_kept:
  "http_rounds fn acc cl ev ofs c = Some r \<Longrightarrow> conn_kept c (snd r)"
proof (induction fn acc cl ev ofs c r rule: http_rounds.raw_induct [rotated, consumes 1, case_names step])
  case (step rounds fn acc cl ev ofs c r)
  note k = round_kept [of c fn acc cl ev ofs]
  show ?case
  proof (cases "hc_is_resp c \<or> \<not> ofs < word_of_nat (length (hc_recv c))")
    case True
    with step(2) show ?thesis by (auto simp: conn_kept_def)
  next
    case False
    show ?thesis
    proof (cases "http_round fn acc cl ev ofs c")
      case (Next q c1)
      then have "conn_kept c1 (snd r)" using False step(1) step(2) by simp
      with k Next show ?thesis by (auto simp: conn_kept_def round_conn_def)
    qed (use False step(2) k in \<open>auto simp: round_conn_def\<close>)
  qed
qed

lemma http_cb_kept: "http_cb fn acc cl ev c = Some c' \<Longrightarrow> conn_kept c c'"
  by (fastforce simp: http_cb_def conn_kept_def split: if_splits option.splits dest: rounds_kept)

end
