(* ===== verification/HttpChunks.thy ===== *)
theory HttpChunks
  imports HttpRecv
begin

text \<open>What \<open>http_cb\<close> delivers: bodies that came in chunks, and the length of a body.\<close>

section \<open>Chunked bodies\<close>

text \<open>A chunk: its length in hexadecimal as it was sent, and its data.\<close>

definition chunk_ok :: "string \<times> string \<Rightarrow> bool" where
  "chunk_ok x \<longleftrightarrow> fst x \<noteq> [] \<and> length (fst x) \<le> 8 \<and> list_all is_hex_digit (fst x)
     \<and> mg_str_to_num (fst x) 16 4 = Some (length (snd x)) \<and> length (snd x) < 2 ^ 31"

definition chunk_text :: "string \<times> string \<Rightarrow> string" where
  "chunk_text x = fst x @ CRLF @ snd x @ CRLF"

lemma skip_chunk_text:
  assumes "chunk_ok x"
  shows "skip_chunk (chunk_text x @ rest) = (int (length (chunk_text x)), length (fst x) + 2, length (snd x))"
proof -
  let ?b = "chunk_text x @ rest"
  have cr: "\<not> is_hex_digit CR" by (simp add: is_hex_digit_def isdigit_def)
  have tw: "takeWhile is_hex_digit ?b = fst x"
    using assms cr by (simp add: chunk_text_def chunk_ok_def list_all_iff takeWhile_append)
  have n: "sint (word_of_nat (length (snd x)) :: 32 word) = int (length (snd x))"
    using assms by (simp add: chunk_ok_def signed_of_nat signed_take_bit_int_eq_self)
  have c: "cat ?b (length (fst x)) = CR" "cat ?b (length (fst x) + 1) = LF"
    "cat ?b (length (fst x) + length (snd x) + 2) = CR" "cat ?b (length (fst x) + length (snd x) + 3) = LF"
    by (simp_all add: chunk_text_def cat_def nth_append)
  have l: "0 < length (fst x)" "length (fst x) \<le> 8" "length ?b = length (fst x) + length (snd x) + 4 + length rest"
    using assms by (auto simp: chunk_ok_def chunk_text_def)
  have t: "take (length (fst x)) ?b = fst x" by (simp add: chunk_text_def)
  show ?thesis
    using assms l c unfolding skip_chunk_def tw t Let_def
    by (simp add: n chunk_ok_def chunk_text_def)
qed

lemma find_last_chunks:
  assumes "\<forall>x \<in> set cs. chunk_ok x \<and> snd x \<noteq> []" "chunk_ok z" "snd z = []"
  shows "\<exists>k. find_last (pre @ concat (map chunk_text cs) @ chunk_text z @ tail) (length pre) = (int (length (chunk_text z)), k)"
  using assms(1)
proof (induction cs arbitrary: pre)
  case Nil
  show ?case by (simp add: find_last.simps [of _ "length pre"] skip_chunk_text [OF assms(2)] assms(3))
next
  case (Cons x cs)
  let ?rest = "concat (map chunk_text cs) @ chunk_text z @ tail"
  have "skip_chunk (drop (length pre) (pre @ chunk_text x @ ?rest)) = (int (length (chunk_text x)), length (fst x) + 2, length (snd x))"
    using skip_chunk_text [of x ?rest] Cons.prems by simp
  moreover have "0 < length (chunk_text x)" "snd x \<noteq> []" using Cons.prems by (simp_all add: chunk_text_def)
  ultimately have "find_last (pre @ chunk_text x @ ?rest) (length pre) = find_last ((pre @ chunk_text x) @ ?rest) (length (pre @ chunk_text x))"
    by (simp add: find_last.simps [of _ "length pre"])
  with Cons.IH [of "pre @ chunk_text x"] Cons.prems show ?case by simp
qed

lemma moved_front:
  assumes "length d \<le> length x"
  shows "moved (b @ x @ r) (length b) d = b @ d @ drop (length d) x @ r"
  using assms by (simp add: moved_def overwrite_def)

lemma join_step:
  assumes "skip_chunk (drop k s) = (cl, pl, dl)" "0 < cl" "dl \<noteq> 0"
  shows "join_chunks s k b = join_chunks (moved s b (take dl (drop (k + pl) s))) (k + nat cl) (b + dl)"
  using assms by (simp add: join_chunks.simps [of s k b] Let_def)

lemma join_chunks_text:
  assumes "\<forall>x \<in> set cs. chunk_ok x \<and> snd x \<noteq> []" "chunk_ok z" "snd z = []"
  shows "\<exists>g'. join_chunks (b @ g @ concat (map chunk_text cs) @ chunk_text z @ tail) (length (b @ g)) (length b)
      = (b @ concat (map snd cs) @ g' @ tail, length (b @ concat (map snd cs) @ g'), length (b @ concat (map snd cs)))
     \<and> length (b @ concat (map snd cs) @ g') = length (b @ g @ concat (map chunk_text cs) @ chunk_text z)"
  using assms(1)
proof (induction cs arbitrary: b g)
  case Nil
  let ?s = "b @ g @ chunk_text z @ tail"
  have k: "skip_chunk (drop (length (b @ g)) ?s) = (int (length (chunk_text z)), length (fst z) + 2, 0)"
    using skip_chunk_text [OF assms(2), of tail] assms(3) by simp
  have "0 < length (chunk_text z)" by (simp add: chunk_text_def)
  moreover have "moved ?s (length b) [] = ?s" using moved_front [of "[]" "[]" b "g @ chunk_text z @ tail"] by simp
  ultimately have "join_chunks ?s (length (b @ g)) (length b) = (?s, length (b @ g) + length (chunk_text z), length b)"
    using k by (simp add: join_chunks.simps [of _ "length (b @ g)" "length b", unfolded length_append])
  then show ?case by (intro exI [of _ "g @ chunk_text z"]) simp
next
  case (Cons x cs)
  let ?rest = "concat (map chunk_text cs) @ chunk_text z @ tail"
  let ?s = "b @ g @ chunk_text x @ ?rest"
  let ?g = "drop (length (snd x)) (g @ chunk_text x)"
  have k: "skip_chunk (drop (length (b @ g)) ?s) = (int (length (chunk_text x)), length (fst x) + 2, length (snd x))"
    using skip_chunk_text [of x ?rest] Cons.prems by simp
  have d: "take (length (snd x)) (drop (length (b @ g) + (length (fst x) + 2)) ?s) = snd x"
    by (simp add: chunk_text_def)
  have m: "moved ?s (length b) (snd x) = (b @ snd x) @ ?g @ ?rest"
    using moved_front [of "snd x" "g @ chunk_text x" b ?rest] by (simp add: chunk_text_def)
  have p: "0 < int (length (chunk_text x))" "length (snd x) \<noteq> 0" using Cons.prems by (simp_all add: chunk_text_def)
  have e: "length (b @ g) + nat (int (length (chunk_text x))) = length ((b @ snd x) @ ?g)"
    "length b + length (snd x) = length (b @ snd x)" by (simp_all add: chunk_text_def)
  have "join_chunks ?s (length (b @ g)) (length b) = join_chunks ((b @ snd x) @ ?g @ ?rest) (length ((b @ snd x) @ ?g)) (length (b @ snd x))"
    unfolding join_step [OF k p] d m e ..
  moreover obtain g' where "join_chunks ((b @ snd x) @ ?g @ ?rest) (length ((b @ snd x) @ ?g)) (length (b @ snd x))
      = ((b @ snd x) @ concat (map snd cs) @ g' @ tail, length ((b @ snd x) @ concat (map snd cs) @ g'),
         length ((b @ snd x) @ concat (map snd cs)))"
    "length ((b @ snd x) @ concat (map snd cs) @ g') = length ((b @ snd x) @ ?g @ concat (map chunk_text cs) @ chunk_text z)"
    using Cons.IH [of "b @ snd x" ?g] Cons.prems by auto
  moreover have "length ((b @ snd x) @ ?g @ concat (map chunk_text cs) @ chunk_text z)
      = length (b @ g @ concat (map chunk_text (x # cs)) @ chunk_text z)"
    by (simp add: chunk_text_def)
  ultimately show ?case
    unfolding list.map concat.simps append_assoc by (intro exI [of _ g'] conjI) (simp only: append_assoc)+
qed

text \<open>A handler that notes what it is told and leaves \<open>is_resp\<close> alone.\<close>

definition collect :: "http_note list http_fn" where
  "collect x r u = ([], r, u @ [x])"

lemma chunked_round:
  fixes head body tail
  defines "r \<equiv> head @ body @ tail"
  assumes p: "mg_http_parse r = (int (length head), Some hm)"
    and te: "mg_http_get_header (hm_headers hm) ''Transfer-Encoding'' = Some te" "mg_strcasecmp te ''chunked'' = 0"
    and body: "body = concat (map chunk_text cs) @ chunk_text z"
      "\<forall>x \<in> set cs. chunk_ok x \<and> snd x \<noteq> []" "chunk_ok z" "snd z = []"
    and c: "hc_recv c = r" "length r < 2 ^ 31"
  shows "\<exists>g q. http_round fn acc cl ev 0 c = deliver fn acc hm (word_of_nat (length (concat (map snd cs)))) (concat (map snd cs) @ g @ tail) q
        ((tell fn (Http_hdrs hm) c)\<lparr>hc_recv := head @ concat (map snd cs) @ g @ tail\<rparr>)
     \<and> unat q = length (head @ concat (map snd cs) @ g)"
proof -
  let ?D = "concat (map snd cs)"
  obtain k where k: "find_last (body @ tail) 0 = (int (length (chunk_text z)), k)"
    using find_last_chunks [OF body(2-4), of "[]" tail] by (auto simp: body(1))
  obtain g where g: "join_chunks (body @ tail) 0 0 = (?D @ g @ tail, length (?D @ g), length ?D)"
    "length (?D @ g) = length body"
    using join_chunks_text [OF body(2-4), of "[]" "[]" tail] by (auto simp: body(1))
  let ?q = "word_of_nat (length head) + word_of_nat (length (?D @ g)) :: u64"
  have "0 < int (length (chunk_text z))" by (simp add: chunk_text_def)
  then have "http_round fn acc cl ev 0 c = deliver fn acc hm (word_of_nat (length ?D)) (?D @ g @ tail) ?q
      ((tell fn (Http_hdrs hm) c)\<lparr>hc_recv := head @ ?D @ g @ tail\<rparr>)"
    unfolding http_round_def Let_def c(1) using p te k g by (simp add: r_def)
  moreover have "length head + length (?D @ g) < 2 ^ 31" using c(2) g(2) by (simp add: r_def)
  then have "unat ?q = length (head @ ?D @ g)" by (simp add: unat_plus_if_size word_size unat_of_nat)
  ultimately show ?thesis by blast
qed

lemma one_round:
  assumes "http_round fn acc cl ev ofs c = Next q c1" "hc_is_resp c1" "\<not> hc_is_resp c" "ofs < word_of_nat (length (hc_recv c))"
  shows "http_rounds fn acc cl ev ofs c = Some (Some q, c1)"
  using assms by (simp add: http_rounds.simps [of _ _ _ _ ofs c] http_rounds.simps [of _ _ _ _ q c1])


section \<open>The length of a body\<close>

definition note_ok :: "http_note \<Rightarrow> bool" where
  "note_ok x =
     (case x of
        Http_msg hm len bytes \<Rightarrow> unat len \<le> length bytes
          \<or> len = none_len \<and> mg_http_get_header (hm_headers hm) ''Content-Length'' = None
            \<and> (\<exists>head. mg_http_parse (head @ bytes) = (int (length head), Some hm) \<and> length head = length bytes + 1)
      | _ \<Rightarrow> True)"

definition noting :: "(http_note \<Rightarrow> bool \<Rightarrow> http_note list \<Rightarrow> string \<times> bool) \<Rightarrow> http_note list http_fn" where
  "noting g x r u = (fst (g x r u), snd (g x r u), u @ [x])"

lemma collect_noting: "collect = noting (\<lambda>x r u. ([], r))"
  by (intro ext) (simp add: collect_def noting_def)

abbreviation log_ok :: "http_note list http_conn \<Rightarrow> bool" where
  "log_ok c \<equiv> list_all note_ok (hc_user c)"

definition round_ok :: "http_note list round \<Rightarrow> bool" where
  "round_ok x = (case x of Return c \<Rightarrow> log_ok c | Break q c \<Rightarrow> log_ok c | Next q c \<Rightarrow> log_ok c)"

lemma log_tell [simp]: "log_ok (tell (noting g) x c) \<longleftrightarrow> log_ok c \<and> note_ok x"
  by (simp add: tell_def noting_def)

lemma log_fail [simp]: "log_ok (fail (noting g) m c) \<longleftrightarrow> log_ok c"
  by (simp add: fail_def note_ok_def)

lemma round_ok_deliver:
  assumes "log_ok c" "note_ok (Http_msg hm bl rest)"
  shows "round_ok (deliver (noting g) acc hm bl rest q c)"
  using assms by (simp add: deliver_def Let_def round_ok_def)

lemma unat_none_len: "unat none_len = 2 ^ 64 - 1"
  by (simp add: none_len_def unsigned_minus_1_eq_mask mask_eq_exp_minus_1)

text \<open>A length field that says \<open>unknown\<close> belongs to a head without one.\<close>

lemma none_len_missing:
  assumes "mg_http_parse s = (n, Some hm)" "note_len hm = none_len"
  shows "mg_http_get_header (hm_headers hm) ''Content-Length'' = None"
proof (rule ccontr)
  assume "mg_http_get_header (hm_headers hm) ''Content-Length'' \<noteq> None"
  then obtain v where v: "hm_body_len hm = Some v" "nat n + v < 2 ^ 64"
    using assms(1) by (auto simp: mg_http_parse_def Let_def body_len_def split: if_splits prod.splits option.splits)
  then have "unat (word_of_nat v :: u64) = v" by (simp add: unat_of_nat)
  moreover have "word_of_nat v = none_len" using assms(2) v(1) by (simp add: note_len_def)
  ultimately have "v = 2 ^ 64 - 1" using unat_none_len by metis
  moreover have "0 < nat n" using http_parse_len(2) [OF assms(1)] by simp
  ultimately show False using v(2) by simp
qed

lemma round_ok_round:
  assumes small: "length (hc_recv c) < 2 ^ 31" and more: "ofs < word_of_nat (length (hc_recv c))" and log: "log_ok c"
  shows "round_ok (http_round (noting g) acc cl ev ofs c)"
proof -
  let ?r = "hc_recv c"
  obtain n res where p: "mg_http_parse (drop (unat ofs) ?r) = (n, res)" by (cases "mg_http_parse (drop (unat ofs) ?r)")
  show ?thesis
  proof (cases res)
    case None
    with p log show ?thesis by (simp add: http_round_def Let_def round_ok_def)
  next
    case (Some hm)
    with p have p: "mg_http_parse (drop (unat ofs) ?r) = (n, Some hm)" by simp
    obtain m where n: "n = int m" and h: "unat (word_of_int n :: u64) = m" and m: "0 < m" "unat ofs + m \<le> length ?r"
      and fit: "unat ofs + unat (word_of_int n :: u64) \<le> unat (word_of_nat (length ?r) :: u64)" "0 < unat (word_of_int n :: u64)"
        "unat (word_of_nat (length ?r) :: u64) < 2 ^ 31" and N: "unat (word_of_nat (length ?r) :: u64) = length ?r"
      by (rule head_fits [OF p small more])
    let ?rest = "drop m (drop (unat ofs) ?r)"
    have log1: "log_ok (tell (noting g) (Http_hdrs hm) c)" using log by (simp add: note_ok_def)
    show ?thesis
    proof (cases "mg_http_get_header (hm_headers hm) ''Transfer-Encoding''")
      case (Some te)
      obtain d k where f: "find_last ?rest 0 = (d, k)" by (cases "find_last ?rest 0")
      obtain s' k' b' where j: "join_chunks ?rest 0 0 = (s', k', b')" by (metis prod_cases3)
      have b: "b' \<le> length s'" "b' < 2 ^ 31" using join_chunks_bound [OF j] small by auto
      then have "note_ok (Http_msg hm (word_of_nat b') s')" by (simp add: note_ok_def unat_of_nat)
      then show ?thesis
        using Some p f j n log1
        by (simp add: http_round_def Let_def round_ok_deliver) (simp add: round_ok_def)
    next
      case None
      obtain ofs1 blen c2 where r: "http_round (noting g) acc cl ev ofs c = (if word_of_nat (length ?r) - ofs1 - word_of_nat m < blen then Break ofs1 c2
          else deliver (noting g) acc hm blen ?rest (ofs1 + (word_of_nat m + blen)) c2)"
        and o: "ofs1 = ofs \<or> ofs1 = ofs + word_of_nat m \<and> (blen = none_len \<or> blen = word_of_nat (length ?r) - ofs - word_of_nat m)"
        and b: "blen = note_len hm \<or> blen = word_of_nat (length ?r) - ofs - word_of_nat m"
        and c2: "hc_recv c2 = ?r" "hc_user c2 = hc_user (tell (noting g) (Http_hdrs hm) c)"
        by (rule plain_round [OF p [unfolded n] None])
      note f = fit [unfolded n of_int_of_nat_eq] and h' = h [unfolded n of_int_of_nat_eq]
      have "note_ok (Http_msg hm blen ?rest)" if le: "blen \<le> word_of_nat (length ?r) - ofs1 - word_of_nat m"
        using end_of_body(2) [OF f o le]
      proof
        assume "unat blen \<le> unat (word_of_nat (length ?r) :: u64) - unat ofs - unat (word_of_nat m :: u64)"
        then have "unat blen \<le> length ?rest" unfolding N h' by simp
        then show ?thesis by (simp add: note_ok_def)
      next
        assume a: "blen = none_len \<and> unat (word_of_nat (length ?r) :: u64) + 1 = unat ofs + 2 * unat (word_of_nat m :: u64)"
        have l: "length (take m (drop (unat ofs) ?r)) = m" using m by simp
        have "length ?rest = length ?r - unat ofs - m" by simp
        with a have l: "length (take m (drop (unat ofs) ?r)) = m" "m = length ?rest + 1" using m l unfolding N h' by linarith+
        have "note_len hm = none_len"
        proof (rule ccontr)
          assume "note_len hm \<noteq> none_len"
          with a b have "unat none_len = length ?r - unat ofs - m" using rest_len [OF f(1)] unfolding N h' by simp
          with small show False by (simp add: unat_none_len)
        qed
        moreover have "mg_http_parse (take m (drop (unat ofs) ?r) @ ?rest) = (int (length (take m (drop (unat ofs) ?r))), Some hm)"
          unfolding append_take_drop_id l(1) using p n by simp
        ultimately show ?thesis
          using none_len_missing [OF p] a l unfolding note_ok_def http_note.case by metis
      qed
      then show ?thesis
        using log1 c2(2) by (simp add: r round_ok_deliver not_less) (simp add: round_ok_def)
    qed
  qed
qed

lemma log_rounds:
  "http_rounds fn acc cl ev ofs c = Some r \<Longrightarrow> fn = noting g \<Longrightarrow> length (hc_recv c) < 2 ^ 31 \<Longrightarrow> log_ok c
    \<Longrightarrow> log_ok (snd r)"
proof (induction fn acc cl ev ofs c r rule: http_rounds.raw_induct [rotated, consumes 1, case_names step])
  case (step rounds fn acc cl ev ofs c r)
  note prems = step(2) step.prems
  show ?case
  proof (cases "hc_is_resp c \<or> \<not> ofs < word_of_nat (length (hc_recv c))")
    case True
    with prems show ?thesis by auto
  next
    case False
    then have ok: "round_ok (http_round (noting g) acc cl ev ofs c)" and s: "settled ofs (hc_recv c) (http_round fn acc cl ev ofs c)"
      using round_ok_round [of c ofs g acc cl ev] round_settled [of c ofs fn acc cl ev] prems by blast+
    show ?thesis
    proof (cases "http_round fn acc cl ev ofs c")
      case (Next q c1)
      then have "rounds fn acc cl ev q c1 = Some r" using False prems by simp
      moreover have "length (hc_recv c1) < 2 ^ 31" using s prems Next by (simp add: settled_def moves_on_def)
      moreover have "log_ok c1" using ok Next prems by (simp add: round_ok_def)
      ultimately show ?thesis using step(1) prems by blast
    qed (use False prems ok in \<open>auto simp: round_ok_def\<close>)
  qed
qed


text \<open>The exception happens: \<open>POST /a/b\<close> with 21 more bytes.\<close>

definition short_post :: string where
  "short_post = ''POST /a/b HTTP/1.1'' @ CRLF @ CRLF"

definition receiving :: "string \<Rightarrow> 'u \<Rightarrow> 'u http_conn" where
  "receiving s u = \<lparr>hc_recv = s, hc_sent = [], hc_is_resp = False, hc_is_draining = False, hc_is_closing = False, hc_user = u\<rparr>"

lemma short_post_parse: "mg_http_parse (short_post @ replicate 21 (CHR ''x''))
  = (22, Some \<lparr>hm_method = ''POST'', hm_uri = ''/a/b'', hm_query = None, hm_proto = ''HTTP/1.1'', hm_headers = [], hm_body_len = None\<rparr>)"
  by code_simp

definition short_message :: http_message where
  "short_message = \<lparr>hm_method = ''POST'', hm_uri = ''/a/b'', hm_query = None, hm_proto = ''HTTP/1.1'', hm_headers = [], hm_body_len = None\<rparr>"

lemma short_round: "case http_round collect True False Ev_read 0 (receiving (short_post @ replicate 21 (CHR ''x'')) []) of
    Next q c \<Rightarrow> q = 43 \<and> hc_is_resp c \<and> hc_recv c = short_post @ replicate 21 (CHR ''x'')
      \<and> hc_user c = [Http_hdrs short_message, Http_msg short_message none_len (replicate 21 (CHR ''x''))]
  | _ \<Rightarrow> False"
  by code_simp

lemma short_cb: "\<exists>c. http_cb collect True False Ev_read (receiving (short_post @ replicate 21 (CHR ''x'')) []) = Some c
    \<and> hc_user c = [Http_hdrs short_message, Http_msg short_message none_len (replicate 21 (CHR ''x''))]"
proof -
  let ?c = "receiving (short_post @ replicate 21 (CHR ''x'')) []"
  obtain q c where r: "http_round collect True False Ev_read 0 ?c = Next q c" "hc_is_resp c"
    "hc_user c = [Http_hdrs short_message, Http_msg short_message none_len (replicate 21 (CHR ''x''))]"
    using short_round by (auto split: round.splits)
  have "http_rounds collect True False Ev_read 0 ?c = Some (Some q, c)"
    by (rule one_round [OF r(1,2)]) (simp_all add: receiving_def short_post_def)
  then show ?thesis using r(3) by (simp add: http_cb_def)
qed


text \<open>Two chunks, and one more request behind them.\<close>

definition chunk_head :: string where
  "chunk_head = ''POST /a HTTP/1.1'' @ CRLF @ ''Transfer-Encoding: chunked'' @ CRLF @ CRLF"

definition chunk_body :: string where
  "chunk_body = ''3'' @ CRLF @ ''abc'' @ CRLF @ ''02'' @ CRLF @ ''de'' @ CRLF @ ''0'' @ CRLF @ CRLF"

lemma chunk_message: "mg_http_parse (chunk_head @ chunk_body @ ''GET '') = (int (length chunk_head), Some
   \<lparr>hm_method = ''POST'', hm_uri = ''/a'', hm_query = None, hm_proto = ''HTTP/1.1'',
     hm_headers = [(''Transfer-Encoding'', ''chunked'')], hm_body_len = None\<rparr>)"
  by code_simp


theorem http_cb_returns_witness:
  "\<exists>c'. http_cb collect True False Ev_poll (receiving ''GET / HTTP/1.1'' []) = Some c'"
  using http_cb_returns [of "receiving ''GET / HTTP/1.1'' []" collect True False Ev_poll] by (auto simp: receiving_def)

end
