(* ===== verification/MgMatch.thy ===== *)
theory MgMatch
  imports MgServe
begin

text \<open>
  What \<open>mg_match\<close> (src/crates/mongoose/mongoose.c) decides, against a declarative reading of the patterns: \<open>?\<close> is one byte, \<open>#\<close>
  any bytes, \<open>*\<close> any bytes but \<open>/\<close>. The code goes back to its last wildcard only; the proof is that this
  loses nothing where the wildcards' meanings agree, and an example shows that it does elsewhere.
\<close>

section \<open>The reference\<close>

fun glob :: "string \<Rightarrow> string \<Rightarrow> bool" where
  "glob [] s \<longleftrightarrow> s = []"
| "glob (c # p) s \<longleftrightarrow>
     (if c = CHR ''#'' then list_ex (\<lambda>k. glob p (drop k s)) [0..<length s + 1]
      else if c = CHR ''*'' then list_ex (\<lambda>k. CHR ''/'' \<notin> set (take k s) \<and> glob p (drop k s)) [0..<length s + 1]
      else (case s of [] \<Rightarrow> False | d # ds \<Rightarrow> (c = CHR ''?'' \<or> d = c) \<and> glob p ds))"

abbreviation wild :: "char \<Rightarrow> bool" where
  "wild c \<equiv> c = CHR ''*'' \<or> c = CHR ''#''"

text \<open>Where \<open>*\<close> and \<open>#\<close> mean the same.\<close>

definition agree :: "string \<Rightarrow> string \<Rightarrow> bool" where
  "agree p s \<longleftrightarrow> CHR ''*'' \<notin> set p \<or> CHR ''/'' \<notin> set s"

lemma glob_wild:
  assumes "agree (c # p) s" "wild c"
  shows "glob (c # p) s \<longleftrightarrow> (\<exists>k \<le> length s. glob p (drop k s))"
proof -
  have "CHR ''/'' \<notin> set (take k s)" if "c = CHR ''*''" for k
    using assms(1) that in_set_takeD by (fastforce simp: agree_def)
  then show ?thesis using assms(2) by (auto simp: list_ex_iff less_Suc_eq_le simp del: upt_Suc)
qed

lemma glob_plain:
  assumes "\<not> wild c"
  shows "glob (c # p) s \<longleftrightarrow> s \<noteq> [] \<and> (c = CHR ''?'' \<or> hd s = c) \<and> glob p (tl s)"
  using assms by (cases s) auto

text \<open>A stretch without wildcards takes as many bytes as it is long.\<close>

lemma glob_stretch:
  "list_all (\<lambda>c. \<not> wild c) q \<Longrightarrow> glob (q @ p) s \<Longrightarrow> length q \<le> length s \<and> glob p (drop (length q) s)"
proof (induction q arbitrary: s)
  case (Cons c q)
  then have g: "s \<noteq> []" "glob (q @ p) (tl s)" using glob_plain [of c "q @ p" s] by auto
  with Cons show ?case by (cases s) auto
qed simp

text \<open>What is left to try after the wildcard at ni: it takes up at nj or later.\<close>

definition later :: "string \<Rightarrow> string \<Rightarrow> nat \<Rightarrow> nat \<Rightarrow> bool" where
  "later s p ni nj \<longleftrightarrow> 0 < nj \<and> (\<exists>k \<ge> nj. k \<le> length s \<and> glob (drop (ni + 1) p) (drop k s))"

text \<open>The bookkeeping: since the last wildcard only other characters were passed, one for each byte.\<close>

definition stretch :: "string \<Rightarrow> nat \<Rightarrow> nat \<Rightarrow> nat \<Rightarrow> nat \<Rightarrow> bool" where
  "stretch p i j ni nj \<longleftrightarrow> nj = 0 \<or>
     (ni < i \<and> i \<le> length p \<and> wild (p ! ni) \<and> list_all (\<lambda>c. \<not> wild c) (drop (ni + 1) (take i p))
      \<and> j = nj - 1 + (i - (ni + 1)))"

lemma later_here:
  assumes "stretch p i j ni nj" "later s p ni nj"
  obtains k where "j < k" "k \<le> length s" "glob (drop i p) (drop k s)"
proof -
  let ?q = "drop (ni + 1) (take i p)"
  have s: "ni < i" "i \<le> length p" "list_all (\<lambda>c. \<not> wild c) ?q" "j = nj - 1 + (i - (ni + 1))" and "0 < nj"
    using assms by (auto simp: stretch_def later_def)
  obtain k where k: "nj \<le> k" "k \<le> length s" "glob (drop (ni + 1) p) (drop k s)" using assms(2) by (auto simp: later_def)
  have "drop (ni + 1) p = ?q @ drop i p"
    using s(1,2) by (metis append_take_drop_id drop_append drop_take le_add_diff_inverse Suc_leI Suc_eq_plus1 drop_drop add.commute)
  with k(3) have g: "length ?q \<le> length s - k" "glob (drop i p) (drop (length ?q) (drop k s))"
    using glob_stretch [OF s(3), of "drop i p" "drop k s"] by auto
  have "length ?q = i - (ni + 1)" using s(2) by simp
  moreover have "j < k + (i - (ni + 1))" using k(1) s(4) \<open>0 < nj\<close> by linarith
  ultimately show ?thesis using g k(2) by (intro that [of "k + length ?q"]) (simp_all add: add.commute)
qed

lemma from_here: "j \<le> n \<Longrightarrow> (\<exists>k \<ge> j. k \<le> (n :: nat) \<and> P k) \<longleftrightarrow> P j \<or> (\<exists>k \<ge> j + 1. k \<le> n \<and> P k)"
  by (metis Suc_eq_plus1 le_Suc_eq le_antisym not_less_eq_eq order_refl Suc_leD)

lemma take_back:
  assumes "0 < nj" "nj \<le> length s"
  shows "later s p ni nj \<longleftrightarrow> glob (drop (ni + 1) p) (drop nj s) \<or> later s p ni (nj + 1)"
  using from_here [OF assms(2), of "\<lambda>k. glob (drop (ni + 1) p) (drop k s)"] assms(1) by (simp add: later_def)

lemma stretch_step:
  "stretch p i j ni nj \<Longrightarrow> i < length p \<Longrightarrow> \<not> wild (p ! i) \<Longrightarrow> stretch p (i + 1) (j + 1) ni nj"
  by (auto simp: stretch_def take_Suc_conv_app_nth Suc_diff_le)

lemma stretch_wild: "i < length p \<Longrightarrow> wild (p ! i) \<Longrightarrow> stretch p (i + 1) j i (j + 1)"
  by (simp add: stretch_def)

lemma stretch_back: "stretch p i j ni nj \<Longrightarrow> 0 < nj \<Longrightarrow> stretch p (ni + 1) nj ni (nj + 1)"
  by (auto simp: stretch_def)

lemma agree_drop: "agree p s \<Longrightarrow> agree (drop i p) (drop j s)"
  using in_set_dropD by (fastforce simp: agree_def)

lemma glob_here:
  assumes "agree p s" "i < length p" "wild (p ! i)" "j \<le> length s"
  shows "glob (drop i p) (drop j s) \<longleftrightarrow> (\<exists>k \<ge> j. k \<le> length s \<and> glob (drop (i + 1) p) (drop k s))"
proof -
  have "drop i p = p ! i # drop (i + 1) p" using assms(2) by (simp add: Cons_nth_drop_Suc)
  then have "glob (drop i p) (drop j s) \<longleftrightarrow> (\<exists>m \<le> length s - j. glob (drop (i + 1) p) (drop (m + j) s))"
    using glob_wild [of "p ! i" "drop (i + 1) p" "drop j s"] agree_drop [OF assms(1), of i j] assms(3) by simp
  also have "\<dots> \<longleftrightarrow> (\<exists>k \<ge> j. k \<le> length s \<and> glob (drop (i + 1) p) (drop k s))"
  proof
    assume "\<exists>m \<le> length s - j. glob (drop (i + 1) p) (drop (m + j) s)"
    then obtain m where "m \<le> length s - j" "glob (drop (i + 1) p) (drop (m + j) s)" by blast
    then show "\<exists>k \<ge> j. k \<le> length s \<and> glob (drop (i + 1) p) (drop k s)" using assms(4) by (intro exI [of _ "m + j"]) simp
  next
    assume "\<exists>k \<ge> j. k \<le> length s \<and> glob (drop (i + 1) p) (drop k s)"
    then obtain k where "j \<le> k" "k \<le> length s" "glob (drop (i + 1) p) (drop k s)" by blast
    then show "\<exists>m \<le> length s - j. glob (drop (i + 1) p) (drop (m + j) s)" by (intro exI [of _ "k - j"]) simp
  qed
  finally show ?thesis .
qed

text \<open>A new wildcard makes going back to the one before it unnecessary.\<close>

lemma later_absorbed:
  assumes "agree p s" "i < length p" "wild (p ! i)" "j \<le> length s" "stretch p i j ni nj" "later s p ni nj"
  shows "glob (drop i p) (drop j s)"
proof -
  obtain k where "j < k" "k \<le> length s" "glob (drop i p) (drop k s)" using assms(5,6) by (rule later_here)
  then obtain m where "k \<le> m" "m \<le> length s" "glob (drop (i + 1) p) (drop m s)"
    using glob_here [OF assms(1-3), of k] by blast
  then show ?thesis using glob_here [OF assms(1-4)] \<open>j < k\<close> by (meson less_imp_le order_trans)
qed

lemma glob_stuck:
  assumes "i < length p \<or> j < length s" "\<not> (i < length p \<and> wild (p ! i))"
    and "\<not> (i < length p \<and> j < length s \<and> (p ! i = CHR ''?'' \<or> (p ! i \<noteq> CHR ''*'' \<and> p ! i \<noteq> CHR ''#'' \<and> s ! j = p ! i)))"
  shows "\<not> glob (drop i p) (drop j s)"
  using assms glob_plain [of "p ! i" "drop (i + 1) p" "drop j s"]
  by (cases "i < length p") (auto simp: Cons_nth_drop_Suc hd_drop_conv_nth)

lemma match_loop_glob:
  "agree p s \<Longrightarrow> stretch p i j ni nj \<Longrightarrow> i \<le> length p \<Longrightarrow> j \<le> length s
    \<Longrightarrow> match_loop s b p i j ni nj \<longleftrightarrow> glob (drop i p) (drop j s) \<or> later s p ni nj"
proof (induction s b p i j ni nj rule: match_loop.induct)
  case (1 s b p i j ni nj)
  note a = 1(4) and st = 1(5) and le = 1(6,7)
  let ?fin = "\<not> (i < length p \<or> j < length s)"
  let ?same = "i < length p \<and> j < length s \<and> (p ! i = CHR ''?'' \<or> (p ! i \<noteq> CHR ''*'' \<and> p ! i \<noteq> CHR ''#'' \<and> s ! j = p ! i))"
  let ?wild = "i < length p \<and> wild (p ! i)"
  let ?again = "0 < nj \<and> nj \<le> length s \<and> ((ni < length p \<and> p ! ni = CHR ''#'') \<or> (s @ [b]) ! j \<noteq> CHR ''/'')"
  consider "?fin" | "\<not> ?fin" "?same" | "\<not> ?fin" "\<not> ?same" "?wild" | "\<not> ?fin" "\<not> ?same" "\<not> ?wild" by blast
  then show ?case
  proof cases
    case 1
    then have "drop i p = []" "drop j s = []" by simp_all
    moreover have "match_loop s b p i j ni nj" using 1 by (subst match_loop.simps) simp
    ultimately show ?thesis by simp
  next
    case 2
    have "glob (drop i p) (drop j s) \<longleftrightarrow> glob (drop (i + 1) p) (drop (j + 1) s)"
      using 2 by (auto simp: Cons_nth_drop_Suc [symmetric])
    then show ?thesis
      using "1.IH"(1) [OF 2 a stretch_step [OF st]] 2 by (auto simp: match_loop.simps [of s b p i j])
  next
    case 3
    have "match_loop s b p i j ni nj \<longleftrightarrow> glob (drop (i + 1) p) (drop j s) \<or> later s p i (j + 1)"
      using "1.IH"(2) [OF 3 a stretch_wild] 3 le by (auto simp: match_loop.simps [of s b p i j])
    also have "\<dots> \<longleftrightarrow> (\<exists>k \<ge> j. k \<le> length s \<and> glob (drop (i + 1) p) (drop k s))"
      using from_here [OF le(2), of "\<lambda>k. glob (drop (i + 1) p) (drop k s)"] by (simp add: later_def)
    also have "\<dots> \<longleftrightarrow> glob (drop i p) (drop j s) \<or> later s p ni nj"
      using glob_here [OF a _ _ le(2)] later_absorbed [OF a _ _ le(2) st] 3 by blast
    finally show ?thesis .
  next
    case 4
    have no: "\<not> glob (drop i p) (drop j s)" using 4 glob_stuck by blast
    show ?thesis
    proof (cases ?again)
      case True
      have n: "ni + 1 \<le> length p" using st True by (simp add: stretch_def)
      have "match_loop s b p i j ni nj = match_loop s b p (ni + 1) nj ni (nj + 1)" using 4 True by (subst match_loop.simps) argo
      also have "\<dots> \<longleftrightarrow> glob (drop (ni + 1) p) (drop nj s) \<or> later s p ni (nj + 1)"
        using "1.IH"(3) [OF 4 True a stretch_back [OF st]] n True by blast
      finally show ?thesis using take_back True no by blast
    next
      case False
      have "\<not> later s p ni nj"
      proof
        assume l: "later s p ni nj"
        then have n: "0 < nj" "nj \<le> length s" by (auto simp: later_def)
        have "ni < length p" "p ! ni = CHR ''*''" using st n False by (auto simp: stretch_def)
        then have "CHR ''*'' \<in> set p" by (metis nth_mem)
        then have "j = length s" using a False n le(2) by (auto simp: agree_def nth_append in_set_conv_nth split: if_splits)
        with later_here [OF st l] show False by (metis not_le)
      qed
      then show ?thesis using 4 False no by (auto simp: match_loop.simps [of s b p i j])
    qed
  qed
qed

text \<open>C20: Matching a pattern. For a pattern without \<open>*\<close>, and for any pattern on a text without \<open>/\<close>, \<open>mg_match\<close> with its
  one place to go back to decides exactly what the pattern says, whatever byte lies behind the text.\<close>

theorem mg_match_glob:
  assumes "CHR ''*'' \<notin> set p \<or> CHR ''/'' \<notin> set s"
  shows "mg_match s behind p \<longleftrightarrow> glob p s"
  using match_loop_glob [of p s 0 0 0 0 behind] assms by (simp add: mg_match_def agree_def stretch_def later_def)

theorem mg_match_glob_witness:
  "mg_match ''deflate, gzip'' CR ''*gzip*'' \<and> glob ''#-----BEGIN #'' ''x-----BEGIN ''"
proof -
  have "glob ''*gzip*'' ''deflate, gzip''" "mg_match ''x-----BEGIN '' NUL ''#-----BEGIN #''" by code_simp+
  then show ?thesis using mg_match_glob [of "''*gzip*''" "''deflate, gzip''"] mg_match_glob [of "''#-----BEGIN #''" "''x-----BEGIN ''"] by simp
qed

text \<open>Elsewhere the two differ, both ways: \<open>*\<close> can pass a slash, and a slash taken by \<open>?\<close> can stop it.\<close>

lemma star_passes_slash: "mg_match ''a/c/b'' NUL ''*/b'' \<and> \<not> glob ''*/b'' ''a/c/b''"
  by code_simp

lemma star_stops_early: "\<not> mg_match ''xy/b'' NUL ''*?b'' \<and> glob ''*?b'' ''xy/b''"
  by code_simp

end
