(* ===== verification/MgIo.thy ===== *)
theory MgIo
  imports MgHttp
begin

text \<open>
  mongoose's growing byte buffers (src/crates/mongoose/mongoose.c, \<open>mg_iobuf_*\<close>). The block is the string of its bytes, sizes are
  64-bit words, and which sizes \<open>mg_calloc\<close> answers for is an argument. A copy that would leave the block gives None, so
  that memory safety is a theorem about the values. A buffer is then refined to the list of its bytes.
\<close>

section \<open>The operations\<close>

record iobuf =
  io_buf :: "string option"
  io_size :: u64
  io_len :: u64
  io_align :: u64

definition roundup :: "u64 \<Rightarrow> u64 \<Rightarrow> u64" where
  "roundup n align = (if align = 0 then n else (n + align - 1) div align * align)"

text \<open>\<open>memmove\<close> into the block: k bytes from src, or given bytes. Moving nothing is always allowed.\<close>

definition mem_write :: "string option \<Rightarrow> nat \<Rightarrow> string \<Rightarrow> string option option" where
  "mem_write m pos s =
     (if s = [] then Some m
      else case m of
        Some b \<Rightarrow> if pos + length s \<le> length b then Some (Some (overwrite b pos s)) else None
      | None \<Rightarrow> None)"

definition mem_move :: "string option \<Rightarrow> nat \<Rightarrow> nat \<Rightarrow> nat \<Rightarrow> string option option" where
  "mem_move m dst src k =
     (if k = 0 then Some m
      else case m of
        Some b \<Rightarrow> if src + k \<le> length b then mem_write m dst (take k (drop src b)) else None
      | None \<Rightarrow> None)"

definition mg_iobuf_resize :: "(u64 \<Rightarrow> bool) \<Rightarrow> iobuf \<Rightarrow> u64 \<Rightarrow> bool \<times> iobuf" where
  "mg_iobuf_resize alloc io new =
     (let n = roundup new (io_align io)
      in if n = 0 then (True, io\<lparr>io_buf := None, io_size := 0, io_len := 0\<rparr>)
         else if n \<noteq> io_size io then
           (if alloc n then
              (let len = (if n < io_len io then n else io_len io); p = replicate (unat n) NUL
               in (True, io\<lparr>io_buf := Some (case io_buf io of
                                Some b \<Rightarrow> overwrite p 0 (take (unat len) b)
                              | None \<Rightarrow> p),
                            io_size := n, io_len := len\<rparr>))
            else (False, io))
         else (True, io))"

definition mg_iobuf_init :: "(u64 \<Rightarrow> bool) \<Rightarrow> u64 \<Rightarrow> u64 \<Rightarrow> bool \<times> iobuf" where
  "mg_iobuf_init alloc n align =
     mg_iobuf_resize alloc \<lparr>io_buf = None, io_size = 0, io_len = 0, io_align = align\<rparr> n"

text \<open>The bytes given are those at \<open>buf\<close>, of which there are len; \<open>buf\<close> may be NULL.\<close>

definition mg_iobuf_add :: "(u64 \<Rightarrow> bool) \<Rightarrow> iobuf \<Rightarrow> u64 \<Rightarrow> string option \<Rightarrow> u64 \<Rightarrow> (u64 \<times> iobuf) option" where
  "mg_iobuf_add alloc io ofs buf len =
     (let n = roundup (io_len io + len) (io_align io);
          io1 = snd (mg_iobuf_resize alloc io n);
          k = (if n \<noteq> io_size io1 then 0 else len)
      in case (if ofs < io_len io1 then mem_move (io_buf io1) (unat (ofs + k)) (unat ofs) (unat (io_len io1 - ofs))
               else Some (io_buf io1)) of
           None \<Rightarrow> None
         | Some m \<Rightarrow>
             (case (case buf of Some b \<Rightarrow> mem_write m (unat ofs) (take (unat k) b) | None \<Rightarrow> Some m) of
                None \<Rightarrow> None
              | Some m' \<Rightarrow>
                  Some (k, io1\<lparr>io_buf := m', io_len := (if io_len io1 < ofs then ofs else io_len io1) + k\<rparr>)))"

text \<open>The freed end is zeroed.\<close>

definition mg_iobuf_del :: "iobuf \<Rightarrow> u64 \<Rightarrow> u64 \<Rightarrow> (u64 \<times> iobuf) option" where
  "mg_iobuf_del io ofs len =
     (let o1 = (if io_len io < ofs then io_len io else ofs);
          k = (if io_len io < o1 + len then io_len io - o1 else len)
      in if io_buf io = None then Some (k, io\<lparr>io_len := io_len io - k\<rparr>)
         else case mem_move (io_buf io) (unat o1) (unat (o1 + k)) (unat (io_len io - o1 - k)) of
                None \<Rightarrow> None
              | Some m \<Rightarrow>
                  (case mem_write m (unat (io_len io - k)) (replicate (unat k) NUL) of
                     None \<Rightarrow> None
                   | Some m' \<Rightarrow> Some (k, io\<lparr>io_buf := m', io_len := io_len io - k\<rparr>)))"

definition mg_iobuf_free :: "iobuf \<Rightarrow> iobuf" where
  "mg_iobuf_free io = snd (mg_iobuf_resize (\<lambda>n. False) io 0)"

section \<open>Rounding up\<close>

lemma unat_roundup:
  assumes "unat n + unat align \<le> 2 ^ 64"
  shows "unat (roundup n align) = (if align = 0 then unat n else (unat n + unat align - 1) div unat align * unat align)"
proof (cases "align = 0")
  case False
  then have a: "0 < unat align" by (simp add: unat_gt_0)
  have s: "unat (n + align - 1) = unat n + unat align - 1"
  proof -
    have "n + align - 1 = n + (align - 1)" by simp
    moreover have "unat (align - 1) = unat align - 1" using a by (simp add: unat_sub_if_size)
    moreover have "unat n + unat (align - 1) < 2 ^ LENGTH(64)" using assms a calculation(2) by simp
    ultimately show ?thesis using a unat_add_lem [of n "align - 1"] unfolding add_diff_eq [symmetric] by simp
  qed
  have "(unat n + unat align - 1) div unat align * unat align \<le> unat n + unat align - 1" by simp
  then have "(unat n + unat align - 1) div unat align * unat align < 2 ^ 64" using assms a by linarith
  then show ?thesis using False s by (simp add: roundup_def unat_mult_lem [THEN iffD1] unat_div)
qed (simp add: roundup_def)

lemma roundup_ge:
  assumes "unat n + unat align \<le> 2 ^ 64"
  shows "n \<le> roundup n align" "align \<noteq> 0 \<Longrightarrow> unat align dvd unat (roundup n align)"
    "unat n + 2 * unat align \<le> 2 ^ 64 \<Longrightarrow> roundup (roundup n align) align = roundup n align"
proof -
  show ge: "n \<le> roundup n align"
  proof (cases "align = 0")
    case False
    then have a: "0 < unat align" by (simp add: unat_gt_0)
    define m where "m = (unat n + unat align - 1) div unat align * unat align"
    have "unat n + unat align - 1 < unat align + m" unfolding m_def by (rule dividend_less_div_times [OF a])
    moreover have "unat (roundup n align) = m" unfolding m_def unat_roundup [OF assms] if_not_P [OF False] by (rule refl)
    ultimately have "unat n \<le> unat (roundup n align)" using a by linarith
    then show ?thesis by (simp only: word_le_nat_alt)
  qed (simp add: roundup_def)
  show "unat align dvd unat (roundup n align)" if "align \<noteq> 0"
    unfolding unat_roundup [OF assms] if_not_P [OF that] by simp
  show "roundup (roundup n align) align = roundup n align" if small: "unat n + 2 * unat align \<le> 2 ^ 64"
  proof (cases "align = 0")
    case False
    then have a: "0 < unat align" by (simp add: unat_gt_0)
    let ?m = "unat (roundup n align)"
    obtain q where q: "?m = q * unat align" using unat_roundup [OF assms] unfolding if_not_P [OF False] by (rule that)
    have "?m + unat align - 1 = q * unat align + (unat align - 1)" using q a by simp
    also have "\<dots> div unat align = q" using a by (subst div_mult_self3) simp_all
    finally have d: "(?m + unat align - 1) div unat align * unat align = ?m" using q by simp
    have "?m \<le> unat n + unat align - 1" unfolding unat_roundup [OF assms] if_not_P [OF False] by simp
    then have f: "?m + unat align \<le> 2 ^ 64" using small a by linarith
    have "unat (roundup (roundup n align) align) = ?m" unfolding unat_roundup [OF f] if_not_P [OF False] by (rule d)
    then show ?thesis by (simp only: word_unat_eq_iff)
  qed (simp add: roundup_def)
qed

text \<open>Sums that stay far from 2 ^ 64, so that rounding up cannot wrap.\<close>

abbreviation io_fits :: "iobuf \<Rightarrow> nat \<Rightarrow> bool" where
  "io_fits io n \<equiv> unat (io_len io) + n + 2 * unat (io_align io) \<le> 2 ^ 64 - 1"

section \<open>What a buffer holds\<close>

definition io_bytes :: "iobuf \<Rightarrow> string" where
  "io_bytes io = (case io_buf io of None \<Rightarrow> [] | Some b \<Rightarrow> take (unat (io_len io)) b)"

definition io_ok :: "iobuf \<Rightarrow> bool" where
  "io_ok io \<longleftrightarrow> io_len io \<le> io_size io
     \<and> (case io_buf io of None \<Rightarrow> io_size io = 0 | Some b \<Rightarrow> length b = unat (io_size io))"

lemma io_bytes_len: "io_ok io \<Longrightarrow> length (io_bytes io) = unat (io_len io)"
  by (auto simp: io_ok_def io_bytes_def word_le_nat_alt split: option.splits)

lemma io_init: "snd (mg_iobuf_init alloc n align) = io \<Longrightarrow> io_ok io \<and> io_bytes io = [] \<and> io_align io = align"
  by (auto simp: mg_iobuf_init_def mg_iobuf_resize_def Let_def io_ok_def io_bytes_def split: if_splits)

lemma io_resize:
  assumes "io_ok io" "mg_iobuf_resize alloc io new = (r, io')"
  shows "io_ok io'" "io_align io' = io_align io"
    and "r \<Longrightarrow> io_size io' = roundup new (io_align io) \<and> io_bytes io' = take (unat (roundup new (io_align io))) (io_bytes io)"
    and "alloc (roundup new (io_align io)) \<Longrightarrow> r" "\<not> r \<Longrightarrow> io' = io \<and> roundup new (io_align io) \<noteq> io_size io"
  using assms
  by (auto simp: mg_iobuf_resize_def Let_def io_ok_def io_bytes_def word_le_nat_alt word_less_nat_alt overwrite_def
      split: if_splits option.splits)

section \<open>Adding and removing\<close>

lemma word_add_fits: "unat (a :: u64) + unat b \<le> 2 ^ 64 - 1 \<Longrightarrow> unat (a + b) = unat a + unat b"
  by (rule unat_add_lem [THEN iffD1]) simp

lemma mem_write_ok: "pos + length s \<le> length b \<Longrightarrow> mem_write (Some b) pos s = Some (Some (overwrite b pos s))"
  by (simp add: mem_write_def overwrite_def)

lemma mem_move_ok:
  "dst + k \<le> length b \<Longrightarrow> src + k \<le> length b
    \<Longrightarrow> mem_move (Some b) dst src k = Some (Some (overwrite b dst (take k (drop src b))))"
  by (simp add: mem_move_def mem_write_ok) (simp add: overwrite_def)

lemma mem_nothing [simp]: "mem_write m pos [] = Some m" "mem_move m dst src 0 = Some m"
  by (simp_all add: mem_write_def mem_move_def)

lemma take_overwrite: "i \<le> length b \<Longrightarrow> take i (overwrite b i s) = take i b"
  by (simp add: overwrite_def)

lemma length_overwrite: "i + length s \<le> length b \<Longrightarrow> length (overwrite b i s) = length b"
  by (simp add: overwrite_def)

text \<open>A gap opened in the middle and filled.\<close>

lemma overwrite_gap:
  assumes "o' \<le> l" "l + length s \<le> length b"
  shows "take (l + length s) (overwrite (overwrite b (o' + length s) (take (l - o') (drop o' b))) o' s)
    = take o' (take l b) @ s @ drop o' (take l b)"
proof -
  let ?h = "take (o' + length s) b" and ?q = "take (l - o') (drop o' b)"
  have h: "length ?h = o' + length s" "length ?q = l - o'" using assms by simp_all
  have "overwrite (overwrite b (o' + length s) ?q) o' s = take o' b @ s @ ?q @ drop (o' + length s + length ?q) b"
    using h by (simp add: overwrite_def)
  also have "take (l + length s) \<dots> = take o' b @ s @ ?q" using h assms by simp
  finally show ?thesis using assms(1) by (simp add: drop_take min_absorb1)
qed

lemma overwrite_same: "src \<le> length b \<Longrightarrow> overwrite b src (take k (drop src b)) = b"
proof -
  assume a: "src \<le> length b"
  have "take k (drop src b) @ drop (src + length (take k (drop src b))) b = drop src b"
    using a by (simp add: min_def) (metis add.commute append_take_drop_id drop_drop)
  then show ?thesis by (simp add: overwrite_def)
qed

lemma mem_move_same: "src + k \<le> length b \<Longrightarrow> mem_move (Some b) src src k = Some (Some b)"
  by (simp add: mem_move_ok overwrite_same)

lemma iobuf_add:
  assumes ok: "io_ok io" and fits: "io_fits io (unat len)" and ofs: "ofs \<le> io_len io" and b: "length b = unat len"
  obtains k io' where "mg_iobuf_add alloc io ofs (Some b) len = Some (k, io')" "io_ok io'" "io_align io' = io_align io"
    "k = len \<and> io_bytes io' = take (unat ofs) (io_bytes io) @ b @ drop (unat ofs) (io_bytes io)
      \<or> k = 0 \<and> \<not> alloc (roundup (io_len io + len) (io_align io)) \<and> io_bytes io' = io_bytes io"
proof -
  define n where "n = roundup (io_len io + len) (io_align io)"
  have l: "unat (io_len io + len) = unat (io_len io) + unat len" using fits by (intro word_add_fits) simp
  then have f: "unat (io_len io + len) + 2 * unat (io_align io) \<le> 2 ^ 64" using fits by linarith
  have n: "roundup n (io_align io) = n" "io_len io + len \<le> n" using roundup_ge [of "io_len io + len" "io_align io"] f by (simp_all add: n_def)
  obtain r io1 where rs: "mg_iobuf_resize alloc io n = (r, io1)" by (cases "mg_iobuf_resize alloc io n")
  note s = io_resize [OF ok rs, unfolded n(1)]
  show ?thesis
  proof (cases r)
    case False
    then have e: "io1 = io" "n \<noteq> io_size io" "\<not> alloc n" using s(4,5) by auto
    have m: "(if ofs < io_len io then mem_move (io_buf io) (unat (ofs + 0)) (unat ofs) (unat (io_len io - ofs)) else Some (io_buf io))
      = Some (io_buf io)"
    proof (cases "io_buf io")
      case None
      with ok have "unat (io_len io) = 0" by (auto simp: io_ok_def word_le_nat_alt)
      with None show ?thesis by (simp add: word_less_nat_alt)
    next
      case (Some c)
      with ok ofs have "unat ofs + unat (io_len io - ofs) \<le> length c"
        by (simp add: io_ok_def unat_sub word_le_nat_alt)
      with Some show ?thesis by (simp add: mem_move_same)
    qed
    show ?thesis
      by (rule that [of 0 io])
        (use ok e rs m ofs in \<open>simp_all add: mg_iobuf_add_def n_def [symmetric] not_less\<close>)
  next
    case True
    with s have size: "io_size io1 = n" "io_bytes io1 = take (unat n) (io_bytes io)" and ok1: "io_ok io1" by simp_all
    have bytes: "io_bytes io1 = io_bytes io" using size(2) io_bytes_len [OF ok] n(2) l by (simp add: word_le_nat_alt)
    then have len: "io_len io1 = io_len io" using io_bytes_len [OF ok] io_bytes_len [OF ok1] by (simp add: word_unat_eq_iff)
    have room: "unat (io_len io) + unat len \<le> unat n" using n(2) l by (simp add: word_le_nat_alt)
    show ?thesis
    proof (cases "io_buf io1")
      case None
      then have "n = 0" using ok1 size(1) by (simp add: io_ok_def)
      with room have "b = []" "len = 0" "io_len io = 0" "ofs = 0" using b ofs by (simp_all add: word_unat_eq_iff word_le_nat_alt)
      moreover have "roundup (io_len io + len) (io_align io) = 0" using \<open>n = 0\<close> by (simp only: n_def)
      ultimately show ?thesis
        using None rs \<open>n = 0\<close> size len bytes s(1,2)
        by (intro that [of 0 "io1\<lparr>io_len := 0\<rparr>"]) (simp_all add: mg_iobuf_add_def io_bytes_def io_ok_def)
    next
      case (Some c)
      let ?o = "unat ofs" and ?L = "unat (io_len io)"
      define c' where "c' = overwrite c (?o + length b) (take (?L - ?o) (drop ?o c))"
      have o: "?o \<le> ?L" "unat (ofs + len) = ?o + length b" "unat (io_len io - ofs) = ?L - ?o"
        using ofs b fits by (simp_all add: word_le_nat_alt unat_sub word_add_fits)
      have c: "length c = unat n" "take ?L c = io_bytes io"
        using ok1 Some size(1) bytes len by (simp_all add: io_ok_def io_bytes_def)
      have c': "length c' = unat n" using o c(1) room b by (simp add: c'_def overwrite_def)
      have m1: "(if ofs < io_len io then mem_move (Some c) (unat (ofs + len)) ?o (unat (io_len io - ofs)) else Some (Some c)) = Some (Some c')"
        using o c(1) room b by (auto simp: c'_def mem_move_ok overwrite_def word_less_nat_alt add_ac)
      have m2: "mem_write (Some c') ?o (take (unat len) b) = Some (Some (overwrite c' ?o b))"
        using o c' room b by (simp add: mem_write_ok)
      have e: "mg_iobuf_add alloc io ofs (Some b) len = Some (len, io1\<lparr>io_buf := Some (overwrite c' ?o b), io_len := io_len io + len\<rparr>)"
        using ofs by (simp only: mg_iobuf_add_def n_def [symmetric] Let_def rs snd_conv size(1) len Some simp_thms if_False m1 option.case m2
          not_less [symmetric])
      have "take (?L + length b) (overwrite c' ?o b) = take ?o (io_bytes io) @ b @ drop ?o (io_bytes io)"
        unfolding c'_def c(2) [symmetric] using o room b c by (intro overwrite_gap) simp_all
      then show ?thesis
        using e l b c' o room n(2) size s(2)
        by (intro that [OF e]) (simp_all add: io_ok_def io_bytes_def overwrite_def)
    qed
  qed
qed

lemma iobuf_del:
  assumes ok: "io_ok io" and fits: "unat ofs + unat len < 2 ^ 64"
  obtains k io' where "mg_iobuf_del io ofs len = Some (k, io')" "io_ok io'" "io_size io' = io_size io" "io_align io' = io_align io"
    "io_bytes io' = take (unat ofs) (io_bytes io) @ drop (unat ofs + unat len) (io_bytes io)"
    "unat k + length (io_bytes io') = length (io_bytes io)"
proof -
  define o1 k where "o1 = (if io_len io < ofs then io_len io else ofs)" and "k = (if io_len io < o1 + len then io_len io - o1 else len)"
  have o1: "unat o1 = min (unat ofs) (unat (io_len io))" by (auto simp: o1_def word_less_nat_alt min_def)
  have "unat o1 + unat len \<le> 2 ^ 64 - 1" using o1 fits by simp
  then have a: "unat (o1 + len) = unat o1 + unat len" by (rule word_add_fits)
  have k: "unat k = min (unat len) (unat (io_len io) - unat o1)"
    using o1 a by (auto simp: k_def word_less_nat_alt min_def unat_sub word_le_nat_alt)
  let ?L = "unat (io_len io)"
  have s: "unat (o1 + k) = unat o1 + unat k" "unat (io_len io - o1 - k) = ?L - unat o1 - unat k" "unat (io_len io - k) = ?L - unat k"
  proof -
    have b: "unat o1 + unat k \<le> ?L" using o1 k by linarith
    moreover have "?L \<le> 2 ^ 64 - 1" using unsigned_less [where 'a = nat, of "io_len io"] by simp
    ultimately show "unat (o1 + k) = unat o1 + unat k" by (intro word_add_fits) linarith
    have "unat (io_len io - o1) = ?L - unat o1" using b by (simp add: unat_sub word_le_nat_alt)
    then show "unat (io_len io - o1 - k) = ?L - unat o1 - unat k" using b by (simp add: unat_sub word_le_nat_alt)
    show "unat (io_len io - k) = ?L - unat k" using b by (simp add: unat_sub word_le_nat_alt)
  qed
  have bytes: "take (unat o1) (io_bytes io) @ drop (unat o1 + unat k) (io_bytes io)
    = take (unat ofs) (io_bytes io) @ drop (unat ofs + unat len) (io_bytes io)"
    using o1 k io_bytes_len [OF ok] by (auto simp: min_def)
  show ?thesis
  proof (cases "io_buf io")
    case None
    with ok have "io_len io = 0" "io_bytes io = []" by (simp_all add: io_ok_def io_bytes_def word_le_nat_alt word_unat_eq_iff)
    then have "k = 0" using k by (simp add: word_unat_eq_iff)
    have "mg_iobuf_del io ofs len = Some (k, io\<lparr>io_len := io_len io - k\<rparr>)"
      unfolding mg_iobuf_del_def o1_def [symmetric] Let_def k_def [symmetric] using None by simp
    then show ?thesis
      using ok \<open>k = 0\<close> \<open>io_len io = 0\<close> \<open>io_bytes io = []\<close> by (intro that [of 0 io]) simp_all
  next
    case (Some c)
    let ?c = "overwrite c (unat o1) (take (?L - unat o1 - unat k) (drop (unat o1 + unat k) c))"
    let ?z = "replicate (unat k) NUL"
    have c: "?L \<le> length c" "take ?L c = io_bytes io" "length c = unat (io_size io)"
      using ok Some by (simp_all add: io_ok_def io_bytes_def word_le_nat_alt)
    have b: "unat o1 + unat k \<le> ?L" using o1 k by linarith
    have m1: "mem_move (Some c) (unat o1) (unat (o1 + k)) (unat (io_len io - o1 - k)) = Some (Some ?c)"
      unfolding s using b c(1) by (intro mem_move_ok) simp_all
    have lc: "length ?c = length c" using b c(1) by (simp add: overwrite_def)
    have m2: "mem_write (Some ?c) (unat (io_len io - k)) ?z = Some (Some (overwrite ?c (?L - unat k) ?z))"
      unfolding s using b c(1) lc by (intro mem_write_ok) simp
    have e: "mg_iobuf_del io ofs len = Some (k, io\<lparr>io_buf := Some (overwrite ?c (?L - unat k) ?z), io_len := io_len io - k\<rparr>)"
      unfolding mg_iobuf_del_def o1_def [symmetric] Let_def k_def [symmetric] using Some m1 m2 by simp
    have "take (?L - unat k) (overwrite ?c (?L - unat k) ?z) = take (?L - unat k) ?c" using b c(1) lc by (intro take_overwrite) linarith
    also have "\<dots> = take (unat o1) c @ take (?L - unat o1 - unat k) (drop (unat o1 + unat k) c)"
      using b c(1) by (simp add: overwrite_def add.commute)
    also have "\<dots> = take (unat o1) (io_bytes io) @ drop (unat o1 + unat k) (io_bytes io)"
      using b c(1) unfolding c(2) [symmetric] by (simp add: drop_take min_absorb1 add.commute)
    finally have t: "take (?L - unat k) (overwrite ?c (?L - unat k) ?z)
      = take (unat ofs) (io_bytes io) @ drop (unat ofs + unat len) (io_bytes io)" by (simp only: bytes)
    have lz: "length (overwrite ?c (?L - unat k) ?z) = length c" using b c(1) lc by (subst length_overwrite) simp_all
    show ?thesis
    proof (rule that [OF e])
      show "io_ok (io\<lparr>io_buf := Some (overwrite ?c (?L - unat k) ?z), io_len := io_len io - k\<rparr>)"
        using c lz s(3) ok by (simp add: io_ok_def word_le_nat_alt)
      show nb: "io_bytes (io\<lparr>io_buf := Some (overwrite ?c (?L - unat k) ?z), io_len := io_len io - k\<rparr>)
        = take (unat ofs) (io_bytes io) @ drop (unat ofs + unat len) (io_bytes io)"
        unfolding t [symmetric] using s(3) by (simp add: io_bytes_def)
      show "unat k + length (io_bytes (io\<lparr>io_buf := Some (overwrite ?c (?L - unat k) ?z), io_len := io_len io - k\<rparr>)) = length (io_bytes io)"
        unfolding nb bytes [symmetric] using b io_bytes_len [OF ok] by simp
    qed simp_all
  qed
qed

text \<open>C23: A buffer is the list of its bytes. Inserting at a place of the buffer and deleting any range stay within the
  block, keep the buffer well formed and do to the bytes what they do to a list; an insertion fails as a whole, and only when memory
  is out. The sums must stay clear of 2 ^ 64.\<close>

theorem iobuf_refines_list:
  assumes "io_ok io" "unat (io_len io) + length b + 2 * unat (io_align io) < 2 ^ 64"
    and "ofs \<le> io_len io" "unat from_ofs + unat len < 2 ^ 64"
  shows "(\<exists>k io'. mg_iobuf_add alloc io ofs (Some b) (word_of_nat (length b)) = Some (k, io') \<and> io_ok io' \<and>
      (unat k = length b \<and> io_bytes io' = take (unat ofs) (io_bytes io) @ b @ drop (unat ofs) (io_bytes io)
        \<or> k = 0 \<and> \<not> alloc (roundup (io_len io + word_of_nat (length b)) (io_align io)) \<and> io_bytes io' = io_bytes io))
    \<and> (\<exists>k io'. mg_iobuf_del io from_ofs len = Some (k, io') \<and> io_ok io' \<and>
      io_bytes io' = take (unat from_ofs) (io_bytes io) @ drop (unat from_ofs + unat len) (io_bytes io)
        \<and> unat k + length (io_bytes io') = length (io_bytes io))"
proof
  have l: "unat (word_of_nat (length b) :: u64) = length b" using assms(2) by (simp add: unat_of_nat)
  show "\<exists>k io'. mg_iobuf_add alloc io ofs (Some b) (word_of_nat (length b)) = Some (k, io') \<and> io_ok io' \<and>
      (unat k = length b \<and> io_bytes io' = take (unat ofs) (io_bytes io) @ b @ drop (unat ofs) (io_bytes io)
        \<or> k = 0 \<and> \<not> alloc (roundup (io_len io + word_of_nat (length b)) (io_align io)) \<and> io_bytes io' = io_bytes io)"
    by (rule iobuf_add [OF assms(1) _ assms(3), of "word_of_nat (length b)" b alloc]) (use assms(2) l in auto)
  show "\<exists>k io'. mg_iobuf_del io from_ofs len = Some (k, io') \<and> io_ok io' \<and>
      io_bytes io' = take (unat from_ofs) (io_bytes io) @ drop (unat from_ofs + unat len) (io_bytes io)
        \<and> unat k + length (io_bytes io') = length (io_bytes io)"
    by (rule iobuf_del [OF assms(1,4)]) auto
qed

definition io_ab :: iobuf where
  "io_ab = \<lparr>io_buf = Some [CHR ''a'', CHR ''b'', NUL, NUL], io_size = 4, io_len = 2, io_align = 4\<rparr>"

theorem iobuf_refines_list_witness:
  "(\<exists>k io'. mg_iobuf_add (\<lambda>n. True) io_ab 1 (Some ''xyz'') 3 = Some (k, io') \<and> io_bytes io' = ''axyzb'')
    \<and> (\<exists>k io'. mg_iobuf_del io_ab 0 1 = Some (k, io') \<and> io_bytes io' = ''b'')"
proof -
  have ok: "io_ok io_ab" "io_bytes io_ab = ''ab''" by (simp_all add: io_ab_def io_ok_def io_bytes_def)
  have "unat (io_len io_ab) + length ''xyz'' + 2 * unat (io_align io_ab) < 2 ^ 64" "1 \<le> io_len io_ab"
    "unat (0 :: u64) + unat (1 :: u64) < 2 ^ 64" by (simp_all add: io_ab_def)
  note t = iobuf_refines_list [OF ok(1) this, of "\<lambda>n. True"]
  have "(word_of_nat (length ''xyz'') :: u64) = 3" "take (unat (1 :: u64)) ''ab'' = ''a''" "drop (unat (1 :: u64)) ''ab'' = ''b''"
    "take (unat (0 :: u64)) ''ab'' = []" "drop (unat (0 :: u64) + unat (1 :: u64)) ''ab'' = ''b''" by simp_all
  note t = t [unfolded ok(2) this append.simps]
  show ?thesis
  proof
    show "\<exists>k io'. mg_iobuf_add (\<lambda>n. True) io_ab 1 (Some ''xyz'') 3 = Some (k, io') \<and> io_bytes io' = ''axyzb''"
      using conjunct1 [OF t] by (elim exE conjE disjE) (intro exI conjI, assumption+, simp)
    show "\<exists>k io'. mg_iobuf_del io_ab 0 1 = Some (k, io') \<and> io_bytes io' = ''b''"
      using conjunct2 [OF t] by (elim exE conjE) (intro exI conjI)
  qed
qed

text \<open>The conditions are needed: an insertion behind the end, and a range whose end wraps, leave the block.\<close>

lemma iobuf_add_outside: "mg_iobuf_add (\<lambda>n. True) io_ab 6 (Some ''xy'') 2 = None"
  by (simp add: mg_iobuf_add_def io_ab_def mg_iobuf_resize_def roundup_def mem_write_def overwrite_def)

lemma iobuf_del_outside: "mg_iobuf_del io_ab 1 (- 1) = None"
proof -
  have "unat (- 1 :: u64) = 2 ^ 64 - 1" by (simp add: unsigned_minus_1_eq_mask mask_eq_exp_minus_1)
  then have "mem_write (Some b) i (replicate (unat (- 1 :: u64)) c) = None" if "length b \<le> 100" for b c i
    using that by (simp add: mem_write_def)
  then show ?thesis by (simp add: mg_iobuf_del_def Let_def io_ab_def mem_move_def mem_write_ok overwrite_def)
qed

end
