(* ===== verification/MgNet.thy ===== *)
theory MgNet
  imports MgIo HttpRecv "HOL-Library.Sublist"
begin

text \<open>
  mongoose's sockets and its event loop (src/crates/mongoose/mongoose.c): \<open>ioalloc\<close>, \<open>read_conn\<close>, \<open>write_conn\<close>, \<open>iolog\<close>, \<open>accept_conn\<close>,
  \<open>mg_alloc_conn\<close>, \<open>mg_close_conn\<close>, \<open>mg_iotest\<close> and \<open>mg_mgr_poll\<close>, for TCP connections without TLS, which is what the server
  uses. What the kernel answers is an argument; so is the event handler, which works on the whole manager,
  as the server's handlers write to other connections too. None is a copy outside a buffer.
  \<open>nc_wire\<close> and \<open>mg_done\<close> are not in the code: they keep what the kernel has taken, for the theorems.
\<close>

section \<open>State\<close>

record net_conn =
  nc_id :: u64
  nc_recv :: iobuf
  nc_send :: iobuf
  nc_is_listening :: bool
  nc_is_accepted :: bool
  nc_is_resp :: bool
  nc_is_draining :: bool
  nc_is_closing :: bool
  nc_is_readable :: bool
  nc_is_writable :: bool
  nc_wire :: string

record 'u mgr =
  mg_list :: "nat list"
  mg_conns :: "nat \<rightharpoonup> net_conn"
  mg_nextid :: u64
  mg_user :: 'u
  mg_done :: "(u64 \<times> string) list"

datatype net_ev = Net_error string | Net_open | Net_accept | Net_poll | Net_read | Net_write | Net_close

type_synonym 'u net_fn = "net_ev \<Rightarrow> nat \<Rightarrow> 'u mgr \<Rightarrow> 'u mgr"

definition MG_MAX_RECV_SIZE :: u64 where "MG_MAX_RECV_SIZE = 3 * 1024 * 1024"
definition MG_IO_SIZE :: u64 where "MG_IO_SIZE = 16384"

definition upd :: "nat \<Rightarrow> (net_conn \<Rightarrow> net_conn) \<Rightarrow> 'u mgr \<Rightarrow> 'u mgr" where
  "upd a f m = (case mg_conns m a of Some c \<Rightarrow> m\<lparr>mg_conns := (mg_conns m)(a \<mapsto> f c)\<rparr> | None \<Rightarrow> m)"

text \<open>No C library hands out 2 ^ 62 bytes; below that it may refuse.\<close>

definition mg_calloc :: "(u64 \<Rightarrow> bool) \<Rightarrow> u64 \<Rightarrow> bool" where
  "mg_calloc alloc n \<longleftrightarrow> n < 2 ^ 62 \<and> alloc n"

section \<open>Reading and writing\<close>

text \<open>\<open>recv\<close> stores at most the bytes it is given room for, \<open>send\<close> takes at most what it is given.\<close>

datatype rx = Rx_bytes string | Rx_pending | Rx_reset | Rx_error
datatype tx = Tx_sent nat | Tx_pending | Tx_reset | Tx_error

definition MG_IO_ERR :: int where "MG_IO_ERR = -1"
definition MG_IO_WAIT :: int where "MG_IO_WAIT = -2"
definition MG_IO_RESET :: int where "MG_IO_RESET = -3"

definition recv_raw :: "rx \<Rightarrow> nat \<Rightarrow> int \<times> string" where
  "recv_raw k len =
     (case k of
        Rx_pending \<Rightarrow> (MG_IO_WAIT, [])
      | Rx_reset \<Rightarrow> (MG_IO_RESET, [])
      | Rx_error \<Rightarrow> (MG_IO_ERR, [])
      | Rx_bytes s \<Rightarrow> (let t = take len s in if t = [] then (MG_IO_ERR, []) else (int (length t), t)))"

definition mg_io_send :: "tx \<Rightarrow> nat \<Rightarrow> int" where
  "mg_io_send k len =
     (case k of
        Tx_pending \<Rightarrow> MG_IO_WAIT
      | Tx_reset \<Rightarrow> MG_IO_RESET
      | Tx_error \<Rightarrow> MG_IO_ERR
      | Tx_sent n \<Rightarrow> (if min n len = 0 then MG_IO_ERR else int (min n len)))"

definition mg_error :: "'u net_fn \<Rightarrow> string \<Rightarrow> nat \<Rightarrow> 'u mgr \<Rightarrow> 'u mgr" where
  "mg_error call msg a m = call (Net_error msg) a (upd a (\<lambda>c. c\<lparr>nc_is_closing := True\<rparr>) m)"

definition ioalloc :: "'u net_fn \<Rightarrow> (u64 \<Rightarrow> bool) \<Rightarrow> nat \<Rightarrow> net_conn \<Rightarrow> 'u mgr \<Rightarrow> bool \<times> 'u mgr" where
  "ioalloc call alloc a c m =
     (let io = nc_recv c
      in if MG_MAX_RECV_SIZE \<le> io_len io then (False, mg_error call ''MG_MAX_RECV_SIZE'' a m)
         else if io_size io \<le> io_len io
         then (case mg_iobuf_resize (mg_calloc alloc) io (io_size io + MG_IO_SIZE) of
                 (True, io') \<Rightarrow> (True, upd a (\<lambda>c. c\<lparr>nc_recv := io'\<rparr>) m)
               | (False, _) \<Rightarrow> (False, mg_error call ''OOM'' a m))
         else (True, m))"

text \<open>\<open>iolog\<close> after a read: the bytes are behind the buffer's last one already.\<close>

definition iolog_read :: "'u net_fn \<Rightarrow> int \<Rightarrow> nat \<Rightarrow> 'u mgr \<Rightarrow> 'u mgr" where
  "iolog_read call n a m =
     (if n = MG_IO_WAIT then m
      else if n \<le> 0 then upd a (\<lambda>c. c\<lparr>nc_is_closing := True\<rparr>) m
      else call Net_read a (upd a (\<lambda>c. c\<lparr>nc_recv := (nc_recv c)\<lparr>io_len := io_len (nc_recv c) + word_of_int n\<rparr>\<rparr>) m))"

definition read_conn :: "'u net_fn \<Rightarrow> (u64 \<Rightarrow> bool) \<Rightarrow> rx \<Rightarrow> nat \<Rightarrow> 'u mgr \<Rightarrow> 'u mgr option" where
  "read_conn call alloc k a m =
     (case mg_conns m a of
        None \<Rightarrow> None
      | Some c \<Rightarrow>
          (case ioalloc call alloc a c m of
             (False, m1) \<Rightarrow> Some m1
           | (True, m1) \<Rightarrow>
               (case mg_conns m1 a of
                  None \<Rightarrow> None
                | Some c1 \<Rightarrow>
                    (let io = nc_recv c1; (n, s) = recv_raw k (unat (io_size io - io_len io))
                     in case mem_write (io_buf io) (unat (io_len io)) s of
                          None \<Rightarrow> None
                        | Some b \<Rightarrow> Some (iolog_read call n a (upd a (\<lambda>c. c\<lparr>nc_recv := io\<lparr>io_buf := b\<rparr>\<rparr>) m1))))))"

definition write_conn :: "'u net_fn \<Rightarrow> tx \<Rightarrow> nat \<Rightarrow> 'u mgr \<Rightarrow> 'u mgr option" where
  "write_conn call k a m =
     (case mg_conns m a of
        None \<Rightarrow> None
      | Some c \<Rightarrow>
          (let s = io_bytes (nc_send c); n = mg_io_send k (length s)
           in if n = MG_IO_WAIT then Some m
              else if n \<le> 0 then Some (upd a (\<lambda>c. c\<lparr>nc_is_closing := True\<rparr>) m)
              else (case mg_iobuf_del (nc_send c) 0 (word_of_int n) of
                      None \<Rightarrow> None
                    | Some (_, io) \<Rightarrow>
                        Some (call Net_write a
                          (upd a (\<lambda>c. c\<lparr>nc_send := io, nc_wire := nc_wire c @ take (nat n) s\<rparr>) m)))))"

section \<open>Connections come and go\<close>

definition new_conn :: "u64 \<Rightarrow> net_conn" where
  "new_conn i =
     (let io = \<lparr>io_buf = None, io_size = 0, io_len = 0, io_align = MG_IO_SIZE\<rparr>
      in \<lparr>nc_id = i, nc_recv = io, nc_send = io, nc_is_listening = False, nc_is_accepted = False, nc_is_resp = False,
          nc_is_draining = False, nc_is_closing = False, nc_is_readable = False, nc_is_writable = False, nc_wire = []\<rparr>)"

text \<open>\<open>slot\<close>: the address \<open>mg_calloc\<close> returns. The caller puts the connection into the list.\<close>

definition mg_alloc_conn :: "nat \<Rightarrow> 'u mgr \<Rightarrow> 'u mgr" where
  "mg_alloc_conn a m =
     (let i = mg_nextid m + 1 in m\<lparr>mg_nextid := i, mg_conns := (mg_conns m)(a \<mapsto> new_conn i)\<rparr>)"

text \<open>None: \<open>accept\<close> failed, or there was no memory.\<close>

definition accept_conn :: "'u net_fn \<Rightarrow> nat option \<Rightarrow> 'u mgr \<Rightarrow> 'u mgr" where
  "accept_conn call slot m =
     (case slot of
        None \<Rightarrow> m
      | Some a \<Rightarrow>
          (let m1 = mg_alloc_conn a m;
               m2 = upd a (\<lambda>c. c\<lparr>nc_is_accepted := True\<rparr>) (m1\<lparr>mg_list := a # mg_list m1\<rparr>)
           in call Net_accept a (call Net_open a m2)))"

definition close_conn :: "'u net_fn \<Rightarrow> nat \<Rightarrow> 'u mgr \<Rightarrow> 'u mgr" where
  "close_conn call a m =
     (let m1 = call Net_close a (m\<lparr>mg_list := remove1 a (mg_list m)\<rparr>)
      in m1\<lparr>mg_conns := (mg_conns m1)(a := None),
            mg_done := (case mg_conns m1 a of Some c \<Rightarrow> [(nc_id c, nc_wire c)] | None \<Rightarrow> []) @ mg_done m1\<rparr>)"

section \<open>The loop\<close>

text \<open>What \<open>epoll_wait\<close> reports of a connection: an error, input, room for output.\<close>

definition iotest_conn :: "'u net_fn \<Rightarrow> (bool \<times> bool \<times> bool) option \<Rightarrow> nat \<Rightarrow> 'u mgr \<Rightarrow> 'u mgr" where
  "iotest_conn call e a m =
     (case e of
        None \<Rightarrow> m
      | Some (err, rd, wr) \<Rightarrow>
          if err then mg_error call ''socket error'' a m
          else upd a (\<lambda>c. c\<lparr>nc_is_readable := rd, nc_is_writable := (0 < io_len (nc_send c) \<and> wr)\<rparr>) m)"

definition mg_iotest :: "'u net_fn \<Rightarrow> (nat \<Rightarrow> (bool \<times> bool \<times> bool) option) \<Rightarrow> 'u mgr \<Rightarrow> 'u mgr" where
  "mg_iotest call evs m =
     foldl (\<lambda>m a. iotest_conn call (evs a) a m)
       (foldl (\<lambda>m a. upd a (\<lambda>c. c\<lparr>nc_is_readable := False, nc_is_writable := False\<rparr>) m) m (mg_list m))
       (mg_list m)"

text \<open>What the outside answers while one connection is served. The address for a new connection depends on those in use.\<close>

record visit =
  v_alloc :: "u64 \<Rightarrow> bool"
  v_rx :: rx
  v_tx :: tx
  v_slot :: "nat list \<Rightarrow> nat option"

definition poll_io :: "'u net_fn \<Rightarrow> visit \<Rightarrow> nat \<Rightarrow> 'u mgr \<Rightarrow> 'u mgr option" where
  "poll_io call v a m =
     (case mg_conns m a of
        None \<Rightarrow> None
      | Some c \<Rightarrow>
          if nc_is_closing c then Some m
          else if nc_is_listening c then Some (if nc_is_readable c then accept_conn call (v_slot v (mg_list m)) m else m)
          else (case (if nc_is_readable c then read_conn call (v_alloc v) (v_rx v) a m else Some m) of
                  None \<Rightarrow> None
                | Some m1 \<Rightarrow>
                    (case mg_conns m1 a of
                       None \<Rightarrow> None
                     | Some c1 \<Rightarrow> if nc_is_writable c1 then write_conn call (v_tx v) a m1 else Some m1)))"

definition poll_conn :: "'u net_fn \<Rightarrow> visit \<Rightarrow> nat \<Rightarrow> 'u mgr \<Rightarrow> 'u mgr option" where
  "poll_conn call v a m =
     (let resp = (\<lambda>m. case mg_conns m a of Some c \<Rightarrow> nc_is_resp c | None \<Rightarrow> False);
          m1 = call Net_poll a m;
          m2 = (if resp m \<and> \<not> resp m1 then call Net_read a m1 else m1)
      in case poll_io call v a m2 of
           None \<Rightarrow> None
         | Some m3 \<Rightarrow>
             (let m4 = upd a (\<lambda>c. if nc_is_draining c \<and> io_len (nc_send c) = 0 then c\<lparr>nc_is_closing := True\<rparr> else c) m3
              in case mg_conns m4 a of
                   None \<Rightarrow> None
                 | Some c \<Rightarrow> Some (if nc_is_closing c then close_conn call a m4 else m4)))"

text \<open>A connection's successor is read before it is served; serving it takes at most itself out of the list and puts
  new ones before it. So the connections served are those of the list at the start.\<close>

primrec poll_list :: "'u net_fn \<Rightarrow> (nat \<Rightarrow> visit) \<Rightarrow> nat list \<Rightarrow> 'u mgr \<Rightarrow> 'u mgr option" where
  "poll_list call vs [] m = Some m"
| "poll_list call vs (a # as) m =
     (case poll_conn call (vs a) a m of None \<Rightarrow> None | Some m1 \<Rightarrow> poll_list call vs as m1)"

definition mg_mgr_poll ::
  "'u net_fn \<Rightarrow> (nat \<Rightarrow> (bool \<times> bool \<times> bool) option) \<Rightarrow> (nat \<Rightarrow> visit) \<Rightarrow> 'u mgr \<Rightarrow> 'u mgr option" where
  "mg_mgr_poll call evs vs m = poll_list call vs (mg_list m) (mg_iotest call evs m)"

section \<open>The HTTP protocol handler on top of it\<close>

text \<open>\<open>mg_send\<close> for TCP. No object has 2 ^ 62 bytes.\<close>

definition mg_send :: "(u64 \<Rightarrow> bool) \<Rightarrow> string \<Rightarrow> iobuf \<Rightarrow> bool \<times> iobuf" where
  "mg_send alloc s io =
     (if s = [] then (True, io)
      else if 2 ^ 62 \<le> length s then (False, io)
      else case mg_iobuf_add (mg_calloc alloc) io (io_len io) (Some s) (word_of_nat (length s)) of
             Some (n, io') \<Rightarrow> (n \<noteq> 0, io')
           | None \<Rightarrow> (False, io))"

text \<open>The receive buffer after \<open>http_cb\<close>: it took bytes off its front, or moved some within it.\<close>

definition io_put :: "iobuf \<Rightarrow> string \<Rightarrow> iobuf" where
  "io_put io s =
     (case io_buf io of
        None \<Rightarrow> io
      | Some b \<Rightarrow> if s = io_bytes io then io else io\<lparr>io_buf := Some (overwrite (replicate (length b) NUL) 0 s), io_len := word_of_nat (length s)\<rparr>)"

definition http_event :: "net_ev \<Rightarrow> io_event" where
  "http_event ev = (case ev of Net_read \<Rightarrow> Ev_read | Net_close \<Rightarrow> Ev_close | Net_poll \<Rightarrow> Ev_poll | _ \<Rightarrow> Ev_other_io)"

definition http_view :: "net_conn \<Rightarrow> 'u \<Rightarrow> 'u http_conn" where
  "http_view c u = \<lparr>hc_recv = io_bytes (nc_recv c), hc_sent = [], hc_is_resp = nc_is_resp c, hc_is_draining = nc_is_draining c,
     hc_is_closing = nc_is_closing c, hc_user = u\<rparr>"

text \<open>\<open>mg_call\<close> for a connection with \<open>http_cb\<close> as its protocol handler; what the handlers send goes into the send buffer.
  A listening connection's protocol handler is copied to those it accepts, and has nothing to do itself.\<close>

definition http_net :: "(u64 \<Rightarrow> bool) \<Rightarrow> 'u http_fn \<Rightarrow> 'u net_fn" where
  "http_net alloc fn ev a m =
     (case mg_conns m a of
        None \<Rightarrow> m
      | Some c \<Rightarrow>
          if nc_is_listening c then m
          else (case http_cb fn (nc_is_accepted c) (\<not> nc_is_accepted c) (http_event ev) (http_view c (mg_user m)) of
                  None \<Rightarrow> m
                | Some h \<Rightarrow>
                    m\<lparr>mg_user := hc_user h,
                      mg_conns := (mg_conns m)(a \<mapsto> c\<lparr>nc_recv := io_put (nc_recv c) (hc_recv h),
                        nc_send := snd (mg_send alloc (hc_sent h) (nc_send c)), nc_is_resp := hc_is_resp h,
                        nc_is_draining := hc_is_draining h, nc_is_closing := hc_is_closing h\<rparr>)\<rparr>))"

end
