(* ===== verification/MgNetProofs.thy ===== *)
theory MgNetProofs
  imports MgNet
begin

text \<open>
  What the event loop keeps: the contract of event handlers (a locale) and what the loop makes of it: every copy stays
  within its buffer, no receive buffer is longer than \<open>MG_MAX_RECV_SIZE\<close>, connection numbers are unique, and what a
  connection was given to send reaches the kernel in order and without loss.
\<close>

section \<open>Well-formed managers\<close>

definition conn_ok :: "net_conn \<Rightarrow> bool" where
  "conn_ok c \<longleftrightarrow> io_ok (nc_recv c) \<and> io_align (nc_recv c) = MG_IO_SIZE \<and> io_ok (nc_send c) \<and> io_align (nc_send c) = MG_IO_SIZE
     \<and> io_size (nc_send c) < 2 ^ 62
     \<and> io_size (nc_recv c) \<le> MG_MAX_RECV_SIZE \<and> unat MG_IO_SIZE dvd unat (io_size (nc_recv c))"

definition mgr_ok :: "'u mgr \<Rightarrow> bool" where
  "mgr_ok m \<longleftrightarrow> distinct (mg_list m) \<and> set (mg_list m) \<subseteq> dom (mg_conns m)
     \<and> (\<forall>a c. mg_conns m a = Some c \<longrightarrow> conn_ok c \<and> 0 < unat (nc_id c) \<and> nc_id c \<le> mg_nextid m)
     \<and> (\<forall>a b c d. mg_conns m a = Some c \<longrightarrow> mg_conns m b = Some d \<longrightarrow> nc_id c = nc_id d \<longrightarrow> a = b)"

text \<open>What was given to a connection to send: what the kernel has taken, and what is in the buffer.\<close>

definition nc_out :: "net_conn \<Rightarrow> string" where
  "nc_out c = nc_wire c @ io_bytes (nc_send c)"

text \<open>What may happen to a connection that stays.\<close>

definition conn_grows :: "net_conn \<Rightarrow> net_conn \<Rightarrow> bool" where
  "conn_grows c d \<longleftrightarrow> conn_ok d \<and> nc_id d = nc_id c \<and> nc_is_listening d = nc_is_listening c \<and> prefix (nc_out c) (nc_out d)
     \<and> (nc_is_closing c \<longrightarrow> nc_is_closing d)"

definition grows :: "'u mgr \<Rightarrow> 'u mgr \<Rightarrow> bool" where
  "grows m m' \<longleftrightarrow> mg_list m' = mg_list m \<and> mg_nextid m' = mg_nextid m \<and> mg_done m' = mg_done m
     \<and> (\<forall>a. rel_option conn_grows (mg_conns m a) (mg_conns m' a))"

lemma conn_grows_trans: "conn_grows c d \<Longrightarrow> conn_grows d e \<Longrightarrow> conn_grows c e"
  by (auto simp: conn_grows_def)

lemma conn_grows_refl: "conn_ok c \<Longrightarrow> conn_grows c c"
  by (simp add: conn_grows_def)

lemma grows_conn: "grows m m' \<Longrightarrow> mg_conns m a = Some c \<Longrightarrow> \<exists>d. mg_conns m' a = Some d \<and> conn_grows c d"
  unfolding grows_def by (metis option_rel_Some1)

lemma grows_back: "grows m m' \<Longrightarrow> mg_conns m' a = Some d \<Longrightarrow> \<exists>c. mg_conns m a = Some c \<and> conn_grows c d"
  unfolding grows_def by (metis option_rel_Some2)

lemma grows_trans:
  assumes "grows m m1" "grows m1 m2"
  shows "grows m m2"
proof -
  have "rel_option conn_grows (mg_conns m a) (mg_conns m2 a)" for a
  proof -
    have "rel_option conn_grows (mg_conns m a) (mg_conns m1 a)" "rel_option conn_grows (mg_conns m1 a) (mg_conns m2 a)"
      using assms by (auto simp: grows_def)
    then show ?thesis
      by (cases "mg_conns m a"; cases "mg_conns m1 a"; cases "mg_conns m2 a") (auto intro: conn_grows_trans)
  qed
  then show ?thesis using assms by (simp add: grows_def)
qed

lemma conn_of_ok: "mgr_ok m \<Longrightarrow> mg_conns m a = Some c \<Longrightarrow> conn_ok c"
  by (auto simp: mgr_ok_def)

lemma grows_refl: "mgr_ok m \<Longrightarrow> grows m m"
  by (auto simp: grows_def option.rel_refl_strong conn_grows_refl conn_of_ok intro!: option.rel_refl_strong conn_grows_refl)

lemma grows_ok:
  assumes "mgr_ok m" "grows m m'"
  shows "mgr_ok m'"
proof -
  have "dom (mg_conns m') = dom (mg_conns m)" using grows_conn [OF assms(2)] grows_back [OF assms(2)] by fast
  moreover have "conn_ok d \<and> 0 < unat (nc_id d) \<and> nc_id d \<le> mg_nextid m'" if "mg_conns m' a = Some d" for a d
    using grows_back [OF assms(2) that] assms by (auto simp: conn_grows_def mgr_ok_def grows_def)
  moreover have "a = b" if eq: "mg_conns m' a = Some c" "mg_conns m' b = Some d" "nc_id c = nc_id d" for a b c d
  proof -
    obtain c0 d0 where "mg_conns m a = Some c0" "nc_id c = nc_id c0" "mg_conns m b = Some d0" "nc_id d = nc_id d0"
      using grows_back [OF assms(2)] eq(1,2) unfolding conn_grows_def by metis
    with eq(3) assms(1) show ?thesis unfolding mgr_ok_def by metis
  qed
  ultimately show ?thesis using assms by (simp add: mgr_ok_def grows_def)
qed

lemma grows_upd:
  assumes "mgr_ok m" "\<And>c. mg_conns m a = Some c \<Longrightarrow> conn_ok c \<Longrightarrow> conn_grows c (f c)"
  shows "grows m (upd a f m)"
proof (cases "mg_conns m a")
  case (Some c)
  then have "conn_grows c (f c)" using assms conn_of_ok by blast
  moreover have "grows m m" using assms(1) by (rule grows_refl)
  ultimately show ?thesis using Some by (auto simp: upd_def grows_def)
qed (simp add: upd_def grows_refl assms(1))

text \<open>Setting flags.\<close>

lemma grows_flags:
  assumes "mgr_ok m" "\<And>c. nc_id (f c) = nc_id c \<and> nc_is_listening (f c) = nc_is_listening c \<and> nc_recv (f c) = nc_recv c
    \<and> nc_send (f c) = nc_send c \<and> nc_wire (f c) = nc_wire c \<and> (nc_is_closing c \<longrightarrow> nc_is_closing (f c))"
  shows "grows m (upd a f m)"
  using assms by (intro grows_upd) (simp_all add: conn_grows_def conn_ok_def nc_out_def)

section \<open>Room in the receive buffer\<close>

lemma grow_recv:
  assumes ok: "conn_ok c" and full: "io_len (nc_recv c) < MG_MAX_RECV_SIZE" "io_size (nc_recv c) \<le> io_len (nc_recv c)"
    and rs: "mg_iobuf_resize al (nc_recv c) (io_size (nc_recv c) + MG_IO_SIZE) = (True, io')"
  shows "conn_ok (c\<lparr>nc_recv := io'\<rparr>)" "io_len io' = io_len (nc_recv c)" "io_len io' < io_size io'"
proof -
  let ?io = "nc_recv c"
  have io: "io_ok ?io" "io_align ?io = MG_IO_SIZE" "unat (io_size ?io) \<le> 3145728" "16384 dvd unat (io_size ?io)"
    using ok by (simp_all add: conn_ok_def word_le_nat_alt MG_MAX_RECV_SIZE_def MG_IO_SIZE_def)
  have l: "io_len ?io = io_size ?io" using io(1) full(2) by (simp add: io_ok_def)
  obtain q where q: "unat (io_size ?io) = 16384 * q" using io(4) by (auto elim: dvdE)
  have "unat (io_size ?io) < 3145728" using full l by (simp add: word_less_nat_alt MG_MAX_RECV_SIZE_def)
  then have "q < 192" using q by simp
  have s: "unat (io_size ?io + MG_IO_SIZE) = 16384 * (q + 1)"
    using q \<open>q < 192\<close> by (subst word_add_fits) (simp_all add: MG_IO_SIZE_def)
  have r: "roundup (io_size ?io + MG_IO_SIZE) MG_IO_SIZE = io_size ?io + MG_IO_SIZE"
  proof -
    have "unat (roundup (io_size ?io + MG_IO_SIZE) MG_IO_SIZE) = (16384 * (q + 1) + 16384 - 1) div 16384 * 16384"
      using s \<open>q < 192\<close> by (subst unat_roundup) (simp_all add: MG_IO_SIZE_def)
    also have "\<dots> = 16384 * (q + 1)" by simp
    finally show ?thesis using s by (simp add: word_unat_eq_iff)
  qed
  note i = io_resize [OF io(1) rs, unfolded io(2) r]
  have b: "io_size io' = io_size ?io + MG_IO_SIZE" "io_bytes io' = io_bytes ?io" and i2: "io_ok io'" "io_align io' = MG_IO_SIZE"
    using i io_bytes_len [OF io(1)] s q l by (simp_all add: io(2))
  show "io_len io' = io_len ?io" using io_bytes_len [OF io(1)] io_bytes_len [OF i2(1)] b(2) by (simp add: word_unat_eq_iff)
  then show "io_len io' < io_size io'" using b(1) s q l by (simp add: word_less_nat_alt)
  show "conn_ok (c\<lparr>nc_recv := io'\<rparr>)"
    using ok i2 b(1) s \<open>q < 192\<close> by (simp add: conn_ok_def word_le_nat_alt MG_MAX_RECV_SIZE_def) (simp add: MG_IO_SIZE_def)
qed

text \<open>Bytes put behind the buffer's last one, and then counted.\<close>

lemma io_behind:
  assumes ok: "io_ok io" and room: "length s \<le> unat (io_size io - io_len io)"
  obtains b where "mem_write (io_buf io) (unat (io_len io)) s = Some b" "io_ok (io\<lparr>io_buf := b\<rparr>)"
    "io_bytes (io\<lparr>io_buf := b\<rparr>) = io_bytes io"
    "io_ok (io\<lparr>io_buf := b, io_len := io_len io + word_of_nat (length s)\<rparr>)"
    "io_bytes (io\<lparr>io_buf := b, io_len := io_len io + word_of_nat (length s)\<rparr>) = io_bytes io @ s"
proof (cases "s = []")
  case True
  with ok show ?thesis by (intro that [of "io_buf io"]) simp_all
next
  case False
  have d: "unat (io_size io - io_len io) = unat (io_size io) - unat (io_len io)" using ok by (simp add: io_ok_def unat_sub)
  obtain c where c: "io_buf io = Some c" "length c = unat (io_size io)"
    using ok False room d by (cases "io_buf io") (auto simp: io_ok_def)
  have l: "unat (io_len io) + length s \<le> length c" using room d c False by (cases s) simp_all
  have u: "unat (io_size io) \<le> 2 ^ 64 - 1" using unsigned_less [where 'a = nat, of "io_size io"] by simp
  have n: "unat (word_of_nat (length s) :: u64) = length s" using l c(2) u by (simp add: unat_of_nat)
  have a: "unat (io_len io + word_of_nat (length s)) = unat (io_len io) + length s"
    using l c(2) u n by (subst word_add_fits) simp_all
  let ?b = "overwrite c (unat (io_len io)) s"
  have t: "take (unat (io_len io) + length s) ?b = take (unat (io_len io)) c @ s" using l by (simp add: overwrite_def)
  have "length ?b = length c" using l by (rule length_overwrite)
  with ok c l a t show ?thesis
    by (intro that [of "Some ?b"]) (simp_all add: mem_write_ok io_ok_def io_bytes_def word_le_nat_alt take_overwrite)
qed

section \<open>What serving a connection does to all\<close>

text \<open>Between events the connections are those of the list.\<close>

definition mgr_full :: "'u mgr \<Rightarrow> bool" where
  "mgr_full m \<longleftrightarrow> mgr_ok m \<and> set (mg_list m) = dom (mg_conns m)"

text \<open>Every connection is there still, with more to send, or it was closed, and then the log has what the kernel took.\<close>

definition followed :: "net_conn \<Rightarrow> 'u mgr \<Rightarrow> bool" where
  "followed c m \<longleftrightarrow>
     (\<exists>b d. mg_conns m b = Some d \<and> nc_id d = nc_id c \<and> prefix (nc_out c) (nc_out d))
     \<or> (\<exists>w t. (nc_id c, w) \<in> set (mg_done m) \<and> prefix (nc_out c) t \<and> prefix w t)"

definition served :: "'u mgr \<Rightarrow> 'u mgr \<Rightarrow> bool" where
  "served m m' \<longleftrightarrow> (\<forall>a c. mg_conns m a = Some c \<longrightarrow> followed c m') \<and> set (mg_done m) \<subseteq> set (mg_done m')"

lemma followed_here: "mg_conns m b = Some d \<Longrightarrow> nc_id d = nc_id c \<Longrightarrow> prefix (nc_out c) (nc_out d) \<Longrightarrow> followed c m"
  unfolding followed_def by blast

lemma followed_gone: "(nc_id c, w) \<in> set (mg_done m) \<Longrightarrow> prefix (nc_out c) t \<Longrightarrow> prefix w t \<Longrightarrow> followed c m"
  unfolding followed_def by blast

lemma followed_mono:
  assumes "followed d m" "nc_id d = nc_id c" "prefix (nc_out c) (nc_out d)"
  shows "followed c m"
  using assms(1) unfolding followed_def [of d]
proof (elim disjE exE conjE)
  fix b e assume "mg_conns m b = Some e" "nc_id e = nc_id d" "prefix (nc_out d) (nc_out e)"
  with assms(2,3) show ?thesis by (intro followed_here [of m b e]) (auto intro: prefix_order.trans)
next
  fix w t assume "(nc_id d, w) \<in> set (mg_done m)" "prefix (nc_out d) t" "prefix w t"
  with assms(2,3) show ?thesis by (intro followed_gone [of c w m t]) (auto intro: prefix_order.trans)
qed

lemma served_trans:
  assumes "served m m1" "served m1 m2"
  shows "served m m2"
proof -
  have "followed c m2" if c: "mg_conns m a = Some c" for a c
  proof -
    have "followed c m1" using assms(1) c by (auto simp: served_def)
    then show ?thesis unfolding followed_def [of c m1]
    proof (elim disjE exE conjE)
      fix b d assume d: "mg_conns m1 b = Some d" "nc_id d = nc_id c" "prefix (nc_out c) (nc_out d)"
      then have "followed d m2" using assms(2) by (auto simp: served_def)
      then show ?thesis using d(2,3) by (rule followed_mono)
    next
      fix w t assume "(nc_id c, w) \<in> set (mg_done m1)" "prefix (nc_out c) t" "prefix w t"
      then show ?thesis using assms(2) by (intro followed_gone [of c w m2 t]) (auto simp: served_def)
    qed
  qed
  then show ?thesis using assms by (auto simp: served_def)
qed

lemma grows_served: "grows m m' \<Longrightarrow> served m m'"
proof -
  assume g: "grows m m'"
  have "followed c m'" if c: "mg_conns m a = Some c" for a c
  proof -
    obtain d where "mg_conns m' a = Some d" "conn_grows c d" using grows_conn [OF g c] by blast
    then show ?thesis by (intro followed_here [of m' a d]) (simp_all add: conn_grows_def)
  qed
  moreover have "mg_done m' = mg_done m" using g by (simp add: grows_def)
  ultimately show "served m m'" by (simp add: served_def)
qed

lemma grows_full: "mgr_full m \<Longrightarrow> grows m m' \<Longrightarrow> mgr_full m'"
proof -
  assume f: "mgr_full m" and g: "grows m m'"
  have "dom (mg_conns m') = dom (mg_conns m)" using grows_conn [OF g] grows_back [OF g] by fast
  moreover have "mgr_ok m'" using f g grows_ok by (auto simp: mgr_full_def)
  ultimately show "mgr_full m'" using f g by (simp add: mgr_full_def grows_def)
qed

lemma grows_alive: "mgr_full m \<Longrightarrow> a \<in> set (mg_list m) \<Longrightarrow> \<exists>c. mg_conns m a = Some c"
  by (auto simp: mgr_full_def)

lemma new_conn_ok: "conn_ok (new_conn i)" "nc_id (new_conn i) = i"
  by (simp_all add: conn_ok_def new_conn_def io_ok_def MG_IO_SIZE_def MG_MAX_RECV_SIZE_def Let_def)

text \<open>A new connection has the next number.\<close>

lemma add_full:
  assumes f: "mgr_full m" and a: "a \<notin> set (mg_list m)" and n: "unat (mg_nextid m) < 2 ^ 64 - 1"
    and c: "conn_ok c" "nc_id c = mg_nextid m + 1"
  shows "mgr_full (m\<lparr>mg_nextid := mg_nextid m + 1, mg_list := a # mg_list m, mg_conns := (mg_conns m)(a \<mapsto> c)\<rparr>)"
proof -
  have i: "unat (mg_nextid m + 1) = unat (mg_nextid m) + 1" using n by (subst word_add_fits) simp_all
  have o: "conn_ok d \<and> 0 < unat (nc_id d) \<and> unat (nc_id d) \<le> unat (mg_nextid m)" if "mg_conns m b = Some d" for b d
    using f that by (auto simp: mgr_full_def mgr_ok_def word_le_nat_alt)
  have nid: "nc_id d \<noteq> nc_id c" if "mg_conns m b = Some d" for b d using o [OF that] c(2) i by auto
  have old: "b = b'" if "mg_conns m b = Some d" "mg_conns m b' = Some d'" "nc_id d = nc_id d'" for b b' d d'
    using f that unfolding mgr_full_def mgr_ok_def by metis
  let ?m = "m\<lparr>mg_nextid := mg_nextid m + 1, mg_list := a # mg_list m, mg_conns := (mg_conns m)(a \<mapsto> c)\<rparr>"
  have "b = b'" if "mg_conns ?m b = Some d" "mg_conns ?m b' = Some d'" "nc_id d = nc_id d'" for b b' d d'
    using that nid [of b d] nid [of b' d'] old [of b d b' d'] by (cases "b = a"; cases "b' = a") auto
  moreover have "conn_ok d \<and> 0 < unat (nc_id d) \<and> nc_id d \<le> mg_nextid ?m" if "mg_conns ?m b = Some d" for b d
    using that o [of b d] c i by (cases "b = a") (auto simp: word_le_nat_alt)
  moreover have "distinct (mg_list ?m)" "set (mg_list ?m) = dom (mg_conns ?m)" using f a by (auto simp: mgr_full_def mgr_ok_def)
  ultimately show ?thesis unfolding mgr_full_def mgr_ok_def by (intro conjI allI impI) (blast | simp)+
qed

lemma drop_full:
  assumes f: "mgr_ok m" and "set (mg_list m) = dom (mg_conns m) - {a}"
  shows "mgr_full (m\<lparr>mg_conns := (mg_conns m)(a := None), mg_done := l\<rparr>)"
  using assms by (auto simp: mgr_full_def mgr_ok_def split: if_splits)

text \<open>What one connection's turn does: it may go, others may come, and the rest is followed.\<close>

definition turn :: "nat set \<Rightarrow> nat \<Rightarrow> 'u mgr \<Rightarrow> 'u mgr \<Rightarrow> bool" where
  "turn gone n m m' \<longleftrightarrow> mgr_full m' \<and> served m m' \<and> set (mg_list m) - gone \<subseteq> set (mg_list m')
     \<and> unat (mg_nextid m') \<le> unat (mg_nextid m) + n"

lemma turn_trans: "turn g n m m1 \<Longrightarrow> turn h k m1 m2 \<Longrightarrow> turn (g \<union> h) (n + k) m m2"
  unfolding turn_def using served_trans by (auto 0 3)

section \<open>The contract of event handlers\<close>

text \<open>A handler may add to what is sent, take out of what was received, and set flags.\<close>

definition handled :: "net_conn \<Rightarrow> net_conn \<Rightarrow> bool" where
  "handled c d \<longleftrightarrow> conn_grows c d \<and> nc_wire d = nc_wire c"

locale io_handler =
  fixes call :: "'u net_fn"
  assumes keeps: "mgr_ok m \<Longrightarrow> mg_list (call ev a m) = mg_list m \<and> mg_nextid (call ev a m) = mg_nextid m
      \<and> mg_done (call ev a m) = mg_done m"
    and handles: "mgr_ok m \<Longrightarrow> rel_option handled (mg_conns m b) (mg_conns (call ev a m) b)"
begin

lemma call_grows: "mgr_ok m \<Longrightarrow> grows m (call ev a m)"
  using keeps unfolding grows_def by (auto intro!: option.rel_mono_strong [OF handles] simp: handled_def)

lemma error_grows:
  assumes "mgr_ok m"
  shows "grows m (mg_error call msg a m)"
proof -
  have "grows m (upd a (\<lambda>c. c\<lparr>nc_is_closing := True\<rparr>) m)" using assms by (rule grows_flags) simp
  with assms show ?thesis unfolding mg_error_def using grows_ok grows_trans call_grows by metis
qed

lemma upd_call_grows: "mgr_ok m \<Longrightarrow> grows m (upd a f m) \<Longrightarrow> grows m (call ev a (upd a f m))"
  using grows_ok grows_trans call_grows by metis

lemma ioalloc_room:
  assumes ok: "mgr_ok m" and c: "mg_conns m a = Some c"
  obtains m1 where "ioalloc call alloc a c m = (False, m1)" "grows m m1"
  | m1 d where "ioalloc call alloc a c m = (True, m1)" "grows m m1" "mg_conns m1 a = Some d"
      "io_len (nc_recv d) < MG_MAX_RECV_SIZE" "io_len (nc_recv d) < io_size (nc_recv d)"
proof -
  consider "MG_MAX_RECV_SIZE \<le> io_len (nc_recv c)"
    | "io_len (nc_recv c) < MG_MAX_RECV_SIZE" "io_size (nc_recv c) \<le> io_len (nc_recv c)"
    | "io_len (nc_recv c) < MG_MAX_RECV_SIZE" "io_len (nc_recv c) < io_size (nc_recv c)" by fastforce
  then show thesis
  proof cases
    case 1
    then show ?thesis using error_grows [OF ok] by (intro that(1)) (simp_all add: ioalloc_def Let_def)
  next
    case 2
    obtain r io' where rs: "mg_iobuf_resize (mg_calloc alloc) (nc_recv c) (io_size (nc_recv c) + MG_IO_SIZE) = (r, io')"
      by (cases "mg_iobuf_resize (mg_calloc alloc) (nc_recv c) (io_size (nc_recv c) + MG_IO_SIZE)")
    show ?thesis
    proof (cases r)
      case True
      note g = grow_recv [OF conn_of_ok [OF ok c] 2, of "mg_calloc alloc" io'] 
      have g: "conn_ok (c\<lparr>nc_recv := io'\<rparr>)" "io_len io' = io_len (nc_recv c)" "io_len io' < io_size io'" using g rs True by simp_all
      have "grows m (upd a (\<lambda>c. c\<lparr>nc_recv := io'\<rparr>) m)"
        using ok c g(1) by (intro grows_upd) (simp_all add: conn_grows_def nc_out_def)
      then show ?thesis
        using 2 rs True c g by (intro that(2) [of "upd a (\<lambda>c. c\<lparr>nc_recv := io'\<rparr>) m" "c\<lparr>nc_recv := io'\<rparr>"]) (simp_all add: ioalloc_def Let_def not_le [symmetric] upd_def)
    next
      case False
      then show ?thesis using 2 rs error_grows [OF ok] by (intro that(1)) (simp_all add: ioalloc_def Let_def not_le [symmetric])
    qed
  next
    case 3
    then show ?thesis using ok c grows_refl by (intro that(2) [of m c]) (simp_all add: ioalloc_def Let_def not_le [symmetric])
  qed
qed

lemma read_grows:
  assumes ok: "mgr_ok m" and c: "mg_conns m a = Some c"
  shows "\<exists>m'. read_conn call alloc k a m = Some m' \<and> grows m m'"
proof (cases rule: ioalloc_room [OF ok c, of alloc])
  case (1 m1)
  with c show ?thesis by (simp add: read_conn_def)
next
  case (2 m1 d)
  let ?io = "nc_recv d"
  have ok1: "mgr_ok m1" using grows_ok [OF ok 2(2)] .
  have d: "conn_ok d" using conn_of_ok [OF ok1 2(3)] .
  then have io: "io_ok ?io" by (simp add: conn_ok_def)
  obtain n s where r: "recv_raw k (unat (io_size ?io - io_len ?io)) = (n, s)" by (cases "recv_raw k (unat (io_size ?io - io_len ?io))")
  have s: "length s \<le> unat (io_size ?io - io_len ?io)" "0 < n \<Longrightarrow> n = int (length s)"
    using r by (auto simp: recv_raw_def Let_def MG_IO_ERR_def MG_IO_WAIT_def MG_IO_RESET_def split: rx.splits if_splits)
  obtain b where b: "mem_write (io_buf ?io) (unat (io_len ?io)) s = Some b" "io_ok (?io\<lparr>io_buf := b\<rparr>)"
    "io_ok (?io\<lparr>io_buf := b, io_len := io_len ?io + word_of_nat (length s)\<rparr>)"
    by (rule io_behind [OF io s(1)])
  define m2 where "m2 = upd a (\<lambda>c. c\<lparr>nc_recv := ?io\<lparr>io_buf := b\<rparr>\<rparr>) m1"
  have e: "read_conn call alloc k a m = Some (iolog_read call n a m2)"
    using c 2(1,3) r b(1) by (simp add: read_conn_def m2_def Let_def)
  have g2: "grows m1 m2" unfolding m2_def
    using ok1 2(3) b(2) by (intro grows_upd) (auto simp: conn_grows_def conn_ok_def nc_out_def)
  have ok2: "mgr_ok m2" using grows_ok [OF ok1 g2] .
  have d2: "mg_conns m2 a = Some (d\<lparr>nc_recv := ?io\<lparr>io_buf := b\<rparr>\<rparr>)" using 2(3) by (simp add: m2_def upd_def)
  have "grows m2 (iolog_read call n a m2)"
  proof -
    consider "n = MG_IO_WAIT" | "n \<noteq> MG_IO_WAIT" "n \<le> 0" | "n \<noteq> MG_IO_WAIT" "0 < n" by linarith
    then show ?thesis
    proof cases
      case 1
      then show ?thesis using grows_refl [OF ok2] by (simp add: iolog_read_def)
    next
      case 2
      have "grows m2 (upd a (\<lambda>c. c\<lparr>nc_is_closing := True\<rparr>) m2)" using ok2 by (rule grows_flags) simp
      then show ?thesis using 2 by (simp add: iolog_read_def)
    next
      case 3
      have "grows m2 (upd a (\<lambda>c. c\<lparr>nc_recv := (nc_recv c)\<lparr>io_len := io_len (nc_recv c) + word_of_int n\<rparr>\<rparr>) m2)"
        using ok2 d2 b(3) s(2) 3 by (intro grows_upd) (auto simp: conn_grows_def conn_ok_def nc_out_def)
      then show ?thesis using 3 upd_call_grows [OF ok2] by (simp add: iolog_read_def)
    qed
  qed
  then show ?thesis using e grows_trans [OF 2(2) grows_trans [OF g2]] by simp
qed

lemma write_grows:
  assumes ok: "mgr_ok m" and c: "mg_conns m a = Some c"
  shows "\<exists>m'. write_conn call k a m = Some m' \<and> grows m m'"
proof -
  let ?s = "io_bytes (nc_send c)" let ?n = "mg_io_send k (length ?s)"
  have cok: "conn_ok c" using conn_of_ok [OF ok c] .
  consider "?n = MG_IO_WAIT" | "?n \<noteq> MG_IO_WAIT" "?n \<le> 0" | "?n \<noteq> MG_IO_WAIT" "0 < ?n" by linarith
  then show ?thesis
  proof cases
    case 1
    then show ?thesis using c grows_refl [OF ok] by (simp add: write_conn_def)
  next
    case 2
    have "grows m (upd a (\<lambda>c. c\<lparr>nc_is_closing := True\<rparr>) m)" using ok by (rule grows_flags) simp
    then show ?thesis using 2 c by (simp add: write_conn_def Let_def)
  next
    case 3
    obtain n where n: "?n = int n" "0 < n" "n \<le> length ?s"
      using 3 by (auto simp: mg_io_send_def MG_IO_ERR_def MG_IO_WAIT_def MG_IO_RESET_def split: tx.splits if_splits)
    have so: "io_ok (nc_send c)" using cok by (simp add: conn_ok_def)
    have "n < 2 ^ 64" using n(3) io_bytes_len [OF so] unsigned_less [where 'a = nat, of "io_len (nc_send c)"] by simp
    then have u: "unat (word_of_nat n :: u64) = n" by (simp add: unat_of_nat)
    obtain r io where del: "mg_iobuf_del (nc_send c) 0 (word_of_nat n) = Some (r, io)" "io_ok io" "io_size io = io_size (nc_send c)"
      "io_align io = io_align (nc_send c)" "io_bytes io = take (unat (0 :: u64)) ?s @ drop (unat (0 :: u64) + unat (word_of_nat n :: u64)) ?s"
      by (rule iobuf_del [OF so, of 0 "word_of_nat n"]) (use u \<open>n < 2 ^ 64\<close> in simp)
    define f where "f c = c\<lparr>nc_send := io, nc_wire := nc_wire c @ take n ?s\<rparr>" for c :: net_conn
    have "grows m (upd a f m)"
      using ok c cok del u by (intro grows_upd) (auto simp: f_def conn_grows_def conn_ok_def nc_out_def)
    moreover have "write_conn call k a m = Some (call Net_write a (upd a f m))"
      using c 3 n del(1) by (simp add: write_conn_def Let_def f_def [abs_def])
    ultimately show ?thesis using upd_call_grows [OF ok] by simp
  qed
qed

lemma foldl_grows:
  assumes "\<And>m a. mgr_ok m \<Longrightarrow> grows m (f m a)"
  shows "mgr_ok m \<Longrightarrow> grows m (foldl f m as)"
proof (induction as arbitrary: m)
  case (Cons a as)
  then show ?case using assms grows_ok grows_trans by (metis foldl_Cons)
qed (simp add: grows_refl)

lemma iotest_grows:
  assumes "mgr_ok m"
  shows "grows m (mg_iotest call evs m)"
proof -
  have 1: "grows m (upd a (\<lambda>c. c\<lparr>nc_is_readable := False, nc_is_writable := False\<rparr>) m)" if "mgr_ok m" for m :: "'u mgr" and a
    using that by (rule grows_flags) simp
  have 2: "grows m (iotest_conn call (evs a) a m)" if "mgr_ok m" for m a
  proof -
    have "grows m (upd a (\<lambda>c. c\<lparr>nc_is_readable := rd, nc_is_writable := (0 < io_len (nc_send c) \<and> wr)\<rparr>) m)" for rd wr
      using that by (rule grows_flags) simp
    then show ?thesis using that grows_refl error_grows by (auto simp: iotest_conn_def split: option.split)
  qed
  note g = foldl_grows [OF 1 assms, where as = "mg_list m"]
  show ?thesis unfolding mg_iotest_def by (rule grows_trans [OF g foldl_grows [OF 2 grows_ok [OF assms g]]])
qed

lemma accept_full:
  assumes f: "mgr_full m" and a: "\<And>a. slot = Some a \<Longrightarrow> a \<notin> set (mg_list m)" and n: "unat (mg_nextid m) < 2 ^ 64 - 1"
  shows "mgr_full (accept_conn call slot m)" "served m (accept_conn call slot m)"
    "set (mg_list m) \<subseteq> set (mg_list (accept_conn call slot m))"
    "unat (mg_nextid (accept_conn call slot m)) \<le> unat (mg_nextid m) + 1"
proof -
  have "mgr_full (accept_conn call slot m) \<and> served m (accept_conn call slot m) \<and> set (mg_list m) \<subseteq> set (mg_list (accept_conn call slot m))
    \<and> unat (mg_nextid (accept_conn call slot m)) \<le> unat (mg_nextid m) + 1"
  proof (cases slot)
    case None
    moreover have "served m m" using f by (intro grows_served grows_refl) (simp add: mgr_full_def)
    ultimately show ?thesis using f by (simp add: accept_conn_def)
  next
    case (Some b)
    let ?c = "(new_conn (mg_nextid m + 1))\<lparr>nc_is_accepted := True\<rparr>"
    define m2 where "m2 = m\<lparr>mg_nextid := mg_nextid m + 1, mg_list := b # mg_list m, mg_conns := (mg_conns m)(b \<mapsto> ?c)\<rparr>"
    have "conn_ok ?c" "nc_id ?c = mg_nextid m + 1" using new_conn_ok [of "mg_nextid m + 1"] by (simp_all add: conn_ok_def)
    then have f2: "mgr_full m2" unfolding m2_def using f a [OF Some] n by (intro add_full)
    have e: "accept_conn call slot m = call Net_accept b (call Net_open b m2)"
      using Some by (simp add: accept_conn_def mg_alloc_conn_def upd_def m2_def Let_def)
    have g: "grows m2 (accept_conn call slot m)" unfolding e
      using f2 grows_ok grows_trans call_grows unfolding mgr_full_def by metis
    have "mg_conns m b = None" using a [OF Some] f by (auto simp: mgr_full_def)
    then have "mg_conns m x = Some c \<Longrightarrow> mg_conns m2 x = Some c" for x c by (auto simp: m2_def)
    then have "served m m2" by (auto simp: served_def intro: followed_here) (simp add: m2_def)
    then have "served m (accept_conn call slot m)" using g grows_served served_trans by blast
    moreover have "unat (mg_nextid m + 1) = unat (mg_nextid m) + 1" using n by (subst word_add_fits) simp_all
    ultimately show ?thesis using g grows_full [OF f2 g] by (auto simp: grows_def m2_def)
  qed
  then show "mgr_full (accept_conn call slot m)" "served m (accept_conn call slot m)"
    "set (mg_list m) \<subseteq> set (mg_list (accept_conn call slot m))"
    "unat (mg_nextid (accept_conn call slot m)) \<le> unat (mg_nextid m) + 1" by blast+
qed

lemma close_full:
  assumes f: "mgr_full m" and a: "a \<in> set (mg_list m)"
  shows "mgr_full (close_conn call a m)" "served m (close_conn call a m)" "set (mg_list (close_conn call a m)) = set (mg_list m) - {a}"
    "mg_nextid (close_conn call a m) = mg_nextid m"
proof -
  define m0 where "m0 = m\<lparr>mg_list := remove1 a (mg_list m)\<rparr>"
  define m1 where "m1 = call Net_close a m0"
  have d: "distinct (mg_list m)" using f by (simp add: mgr_full_def mgr_ok_def)
  have ok0: "mgr_ok m0" using f d by (auto simp: m0_def mgr_full_def mgr_ok_def)
  have g: "grows m0 m1" unfolding m1_def using call_grows [OF ok0] .
  obtain c where c: "mg_conns m a = Some c" using grows_alive [OF f a] by blast
  then have "mg_conns m0 a = Some c" by (simp add: m0_def)
  then obtain e where e: "mg_conns m1 a = Some e" "conn_grows c e" using grows_conn [OF g] by blast
  define m' where "m' = m1\<lparr>mg_conns := (mg_conns m1)(a := None), mg_done := (nc_id e, nc_wire e) # mg_done m1\<rparr>"
  have cl: "close_conn call a m = m'"
    using e(1) by (simp add: close_conn_def m0_def [symmetric] m1_def [symmetric] m'_def)
  have l: "mg_list m1 = remove1 a (mg_list m)" "mg_nextid m1 = mg_nextid m" "mg_done m1 = mg_done m"
    using g by (simp_all add: grows_def m0_def)
  have "dom (mg_conns m1) = dom (mg_conns m0)" using grows_conn [OF g] grows_back [OF g] by fast
  then have s: "set (mg_list m1) = dom (mg_conns m1) - {a}" using f d l(1) by (simp add: mgr_full_def m0_def)
  show "mgr_full (close_conn call a m)" unfolding cl m'_def using grows_ok [OF ok0 g] s by (rule drop_full)
  show "set (mg_list (close_conn call a m)) = set (mg_list m) - {a}" "mg_nextid (close_conn call a m) = mg_nextid m"
    unfolding cl m'_def using d l by simp_all
  have "followed x m'" if x: "mg_conns m b = Some x" for b x
  proof (cases "b = a")
    case True
    with c x have "x = c" by simp
    then show ?thesis using e(2) by (intro followed_gone [of x "nc_wire e" m' "nc_out e"]) (auto simp: m'_def conn_grows_def nc_out_def)
  next
    case False
    have "mg_conns m0 b = Some x" using x by (simp add: m0_def)
    then obtain y where "mg_conns m1 b = Some y" "conn_grows x y" using grows_conn [OF g] by blast
    with False show ?thesis by (intro followed_here [of m' b y]) (simp_all add: m'_def conn_grows_def)
  qed
  then show "served m (close_conn call a m)" unfolding cl served_def using l(3) by (auto simp: m'_def)
qed

lemma grows_turn: "mgr_full m \<Longrightarrow> grows m m' \<Longrightarrow> turn {} 0 m m'"
  using grows_full grows_served by (auto simp: turn_def grows_def)

lemma call_turn: "mgr_full m \<Longrightarrow> turn {} 0 m (call ev a m)"
  by (rule grows_turn [OF _ call_grows]) (simp_all add: mgr_full_def)

lemma poll_io_turn:
  assumes f: "mgr_full m" and a: "a \<in> set (mg_list m)" and slot: "\<And>b. v_slot v (mg_list m) = Some b \<Longrightarrow> b \<notin> set (mg_list m)"
    and n: "unat (mg_nextid m) < 2 ^ 64 - 1"
  shows "\<exists>m'. poll_io call v a m = Some m' \<and> turn {} 1 m m'"
proof -
  obtain c where c: "mg_conns m a = Some c" using grows_alive [OF f a] by blast
  have ok: "mgr_ok m" using f by (simp add: mgr_full_def)
  have same: "turn {} 1 m m" using f served_trans grows_served [OF grows_refl [OF ok]] by (simp add: turn_def)
  have grown: "turn {} 1 m m'" if "grows m m'" for m' using grows_turn [OF f that] by (auto simp: turn_def)
  consider "nc_is_closing c" | "\<not> nc_is_closing c" "nc_is_listening c" | "\<not> nc_is_closing c" "\<not> nc_is_listening c" by blast
  then show ?thesis
  proof cases
    case 1
    then show ?thesis using c same by (simp add: poll_io_def)
  next
    case 2
    have "turn {} 1 m (accept_conn call (v_slot v (mg_list m)) m)"
      using accept_full [OF f slot n] by (simp add: turn_def)
    then show ?thesis using 2 c same by (simp add: poll_io_def)
  next
    case 3
    obtain m1 where m1: "(if nc_is_readable c then read_conn call (v_alloc v) (v_rx v) a m else Some m) = Some m1" "grows m m1"
      using read_grows [OF ok c, of "v_alloc v" "v_rx v"] grows_refl [OF ok] by (cases "nc_is_readable c") auto
    obtain c1 where c1: "mg_conns m1 a = Some c1" using grows_conn [OF m1(2) c] by blast
    have ok1: "mgr_ok m1" using grows_ok [OF ok m1(2)] .
    obtain m2 where m2: "(if nc_is_writable c1 then write_conn call (v_tx v) a m1 else Some m1) = Some m2" "grows m1 m2"
      using write_grows [OF ok1 c1, of "v_tx v"] grows_refl [OF ok1] by (cases "nc_is_writable c1") auto
    have "poll_io call v a m = Some m2" using 3 c m1(1) c1 m2(1) by (simp add: poll_io_def)
    then show ?thesis using grown [OF grows_trans [OF m1(2) m2(2)]] by blast
  qed
qed

lemma poll_conn_turn:
  assumes f: "mgr_full m" and a: "a \<in> set (mg_list m)" and slot: "\<And>l b. v_slot v l = Some b \<Longrightarrow> b \<notin> set l"
    and n: "unat (mg_nextid m) < 2 ^ 64 - 1"
  shows "\<exists>m'. poll_conn call v a m = Some m' \<and> turn {a} 1 m m'"
proof -
  define resp where "resp m \<longleftrightarrow> (case mg_conns m a of Some c \<Rightarrow> nc_is_resp c | None \<Rightarrow> False)" for m :: "'u mgr"
  define m1 where "m1 = call Net_poll a m"
  define m2 where "m2 = (if resp m \<and> \<not> resp m1 then call Net_read a m1 else m1)"
  have t1: "turn {} 0 m m1" unfolding m1_def by (rule call_turn [OF f])
  then have f1: "mgr_full m1" by (simp add: turn_def)
  have t2: "turn {} 0 m m2"
    using t1 turn_trans [OF t1 call_turn [OF f1]] by (simp add: m2_def)
  then have f2: "mgr_full m2" and a2: "a \<in> set (mg_list m2)" and n2: "unat (mg_nextid m2) < 2 ^ 64 - 1"
    using a n by (auto simp: turn_def)
  obtain m3 where m3: "poll_io call v a m2 = Some m3" "turn {} 1 m2 m3"
    using poll_io_turn [OF f2 a2 slot n2] by blast
  have t3: "turn {} 1 m m3" using turn_trans [OF t2 m3(2)] by simp
  then have f3: "mgr_full m3" by (simp add: turn_def)
  define m4 where "m4 = upd a (\<lambda>c. if nc_is_draining c \<and> io_len (nc_send c) = 0 then c\<lparr>nc_is_closing := True\<rparr> else c) m3"
  have "grows m3 m4" unfolding m4_def using f3 by (intro grows_flags) (simp_all add: mgr_full_def)
  then have t4: "turn {} 1 m m4" using turn_trans [OF t3 grows_turn [OF f3]] by simp
  then have f4: "mgr_full m4" and a4: "a \<in> set (mg_list m4)" using a by (auto simp: turn_def)
  obtain c where c: "mg_conns m4 a = Some c" using grows_alive [OF f4 a4] by blast
  have "turn {a} 0 m4 (close_conn call a m4)" using close_full [OF f4 a4] by (simp add: turn_def)
  then have "turn {a} 1 m (close_conn call a m4)" using turn_trans [OF t4] by fastforce
  moreover have "turn {a} 1 m m4" using t4 by (auto simp: turn_def)
  moreover have "poll_conn call v a m = Some (if nc_is_closing c then close_conn call a m4 else m4)"
    unfolding poll_conn_def Let_def resp_def [symmetric] m1_def [symmetric] m2_def [symmetric] using m3(1) c
    by (simp add: m4_def)
  ultimately show ?thesis by auto
qed

lemma poll_list_turn:
  assumes slot: "\<And>a l b. v_slot (vs a) l = Some b \<Longrightarrow> b \<notin> set l"
  shows "mgr_full m \<Longrightarrow> set as \<subseteq> set (mg_list m) \<Longrightarrow> distinct as \<Longrightarrow> unat (mg_nextid m) + length as < 2 ^ 64
    \<Longrightarrow> \<exists>m'. poll_list call vs as m = Some m' \<and> turn (set as) (length as) m m'"
proof (induction as arbitrary: m)
  case Nil
  then show ?case using grows_turn grows_refl by (auto simp: mgr_full_def)
next
  case (Cons a as)
  have "unat (mg_nextid m) < 2 ^ 64 - 1" using Cons.prems(4) by simp
  then obtain m1 where m1: "poll_conn call (vs a) a m = Some m1" "turn {a} 1 m m1"
    using poll_conn_turn [OF Cons.prems(1), of a "vs a"] slot Cons.prems(2) by auto
  have p: "mgr_full m1" "set as \<subseteq> set (mg_list m1)" "unat (mg_nextid m1) + length as < 2 ^ 64"
    using m1(2) Cons.prems by (auto simp: turn_def)
  obtain m2 where "poll_list call vs as m1 = Some m2" "turn (set as) (length as) m1 m2"
    using Cons.IH [OF p(1,2) _ p(3)] Cons.prems(3) by auto
  then show ?case using m1(1) turn_trans [OF m1(2)] by fastforce
qed

lemma mgr_poll_turn:
  assumes f: "mgr_full m" and slot: "\<And>a l b. v_slot (vs a) l = Some b \<Longrightarrow> b \<notin> set l"
    and n: "unat (mg_nextid m) + length (mg_list m) < 2 ^ 64"
  shows "\<exists>m'. mg_mgr_poll call evs vs m = Some m' \<and> mgr_full m' \<and> served m m'
    \<and> unat (mg_nextid m') \<le> unat (mg_nextid m) + length (mg_list m)"
proof -
  let ?m = "mg_iotest call evs m"
  have g: "grows m ?m" using f by (intro iotest_grows) (simp add: mgr_full_def)
  then have l: "mg_list ?m = mg_list m" "mg_nextid ?m = mg_nextid m" by (simp_all add: grows_def)
  have "mgr_full ?m" using grows_full [OF f g] .
  then obtain m' where "poll_list call vs (mg_list m) ?m = Some m'" "turn (set (mg_list m)) (length (mg_list m)) ?m m'"
    using poll_list_turn [of vs ?m "mg_list m"] slot f n l by (auto simp: mgr_full_def mgr_ok_def)
  then show ?thesis using served_trans [OF grows_served [OF g]] l by (auto simp: mg_mgr_poll_def turn_def)
qed

end

section \<open>The HTTP handler keeps the contract\<close>

lemma unat_small: "n < 2 ^ 64 \<Longrightarrow> unat (word_of_nat n :: u64) = n"
  by (simp add: unat_of_nat)

lemma io_put_ok:
  assumes "io_ok io" "length s \<le> unat (io_len io)"
  shows "io_ok (io_put io s)" "io_size (io_put io s) = io_size io" "io_align (io_put io s) = io_align io"
proof -
  have l: "unat (io_len io) \<le> unat (io_size io)" using assms(1) by (simp add: io_ok_def word_le_nat_alt)
  have u: "unat (io_len io) < 2 ^ 64" using unsigned_less [where 'a = nat, of "io_len io"] by simp
  have w: "word_of_nat (length s) \<le> io_len io"
    using assms(2) u unat_small [of "length s"] by (simp add: word_le_nat_alt del: unsigned_of_nat)
  show "io_ok (io_put io s)"
  proof (cases "io_buf io")
    case (Some b)
    then have "length b = unat (io_size io)" using assms(1) by (simp add: io_ok_def)
    moreover have "length (overwrite (replicate (length b) NUL) 0 s) = length b"
      using l assms(2) calculation by (subst length_overwrite) simp_all
    ultimately show ?thesis using Some w assms(1) by (auto simp: io_put_def io_ok_def)
  qed (use assms(1) in \<open>simp add: io_put_def\<close>)
  show "io_size (io_put io s) = io_size io" "io_align (io_put io s) = io_align io" by (auto simp: io_put_def split: option.split)
qed

lemma iobuf_add_size:
  "mg_iobuf_add alloc io ofs buf len = Some (k, io') \<Longrightarrow> io_size io' = io_size io \<or> io_size io' = 0 \<or> alloc (io_size io')"
  by (auto simp: mg_iobuf_add_def mg_iobuf_resize_def Let_def split: if_splits option.splits)

lemma mg_send_ok:
  assumes ok: "io_ok io" and al: "io_align io = MG_IO_SIZE" and s: "io_size io < 2 ^ 62"
  shows "io_ok (snd (mg_send alloc b io))" "io_align (snd (mg_send alloc b io)) = MG_IO_SIZE"
    "io_size (snd (mg_send alloc b io)) < 2 ^ 62" "prefix (io_bytes io) (io_bytes (snd (mg_send alloc b io)))"
proof -
  have "io_ok (snd (mg_send alloc b io)) \<and> io_align (snd (mg_send alloc b io)) = MG_IO_SIZE
    \<and> io_size (snd (mg_send alloc b io)) < 2 ^ 62 \<and> prefix (io_bytes io) (io_bytes (snd (mg_send alloc b io)))"
  proof (cases "b = [] \<or> 2 ^ 62 \<le> length b")
    case True
    with assms show ?thesis by (auto simp: mg_send_def)
  next
    case False
    then have lb: "length b < 2 ^ 62" by simp
    then have u: "unat (word_of_nat (length b) :: u64) = length b" by (intro unat_small) simp
    have "unat (io_len io) \<le> unat (io_size io)" "unat (io_size io) < 2 ^ 62"
      using ok s by (simp_all add: io_ok_def word_le_nat_alt word_less_nat_alt)
    then have fits: "unat (io_len io) + unat (word_of_nat (length b) :: u64) + 2 * unat (io_align io) \<le> 2 ^ 64 - 1"
      unfolding u al using lb by (simp add: MG_IO_SIZE_def)
    obtain k io' where add: "mg_iobuf_add (mg_calloc alloc) io (io_len io) (Some b) (word_of_nat (length b)) = Some (k, io')"
      "io_ok io'" "io_align io' = io_align io"
      "k = word_of_nat (length b) \<and> io_bytes io' = take (unat (io_len io)) (io_bytes io) @ b @ drop (unat (io_len io)) (io_bytes io)
        \<or> k = 0 \<and> \<not> mg_calloc alloc (roundup (io_len io + word_of_nat (length b)) (io_align io)) \<and> io_bytes io' = io_bytes io"
      by (rule iobuf_add [OF ok fits order.refl u [symmetric], of "mg_calloc alloc"])
    have "prefix (io_bytes io) (io_bytes io')" using add(4) io_bytes_len [OF ok] by auto
    moreover have "io_size io' < 2 ^ 62" using iobuf_add_size [OF add(1)] s by (auto simp: mg_calloc_def)
    ultimately show ?thesis using add al False by (simp add: mg_send_def)
  qed
  then show "io_ok (snd (mg_send alloc b io))" "io_align (snd (mg_send alloc b io)) = MG_IO_SIZE"
    "io_size (snd (mg_send alloc b io)) < 2 ^ 62" "prefix (io_bytes io) (io_bytes (snd (mg_send alloc b io)))" by blast+
qed

lemma recv_small: "conn_ok c \<Longrightarrow> length (io_bytes (nc_recv c)) < 2 ^ 31"
  by (simp add: conn_ok_def io_bytes_len io_ok_def word_le_nat_alt MG_MAX_RECV_SIZE_def)

lemma recv_bound: "mgr_ok m \<Longrightarrow> mg_conns m a = Some c \<Longrightarrow> length (io_bytes (nc_recv c)) \<le> 3 * 1024 * 1024"
  using conn_of_ok [of m a c] by (auto simp: conn_ok_def io_bytes_len io_ok_def word_le_nat_alt MG_MAX_RECV_SIZE_def)

lemma http_handled:
  assumes ok: "conn_ok c" and r: "http_cb fn acc cl ev (http_view c u) = Some h"
  shows "handled c (c\<lparr>nc_recv := io_put (nc_recv c) (hc_recv h), nc_send := snd (mg_send alloc (hc_sent h) (nc_send c)),
    nc_is_resp := hc_is_resp h, nc_is_draining := hc_is_draining h, nc_is_closing := hc_is_closing h\<rparr>)"
proof -
  have "conn_kept (http_view c u) h" using r by (rule http_cb_kept)
  then have k: "length (hc_recv h) \<le> length (io_bytes (nc_recv c))" "nc_is_closing c \<longrightarrow> hc_is_closing h"
    by (simp_all add: conn_kept_def http_view_def)
  have ro: "io_ok (nc_recv c)" "length (hc_recv h) \<le> unat (io_len (nc_recv c))"
    using ok k io_bytes_len [of "nc_recv c"] by (simp_all add: conn_ok_def)
  have so: "io_ok (nc_send c)" "io_align (nc_send c) = MG_IO_SIZE" "io_size (nc_send c) < 2 ^ 62" using ok by (simp_all add: conn_ok_def)
  show ?thesis
    using ok k io_put_ok [OF ro] mg_send_ok [OF so, of alloc "hc_sent h"]
    by (simp add: handled_def conn_grows_def conn_ok_def nc_out_def)
qed

interpretation http: io_handler "http_net alloc fn" for alloc fn
proof
  fix m :: "'a mgr" and ev a b
  assume ok: "mgr_ok m"
  show "mg_list (http_net alloc fn ev a m) = mg_list m \<and> mg_nextid (http_net alloc fn ev a m) = mg_nextid m
      \<and> mg_done (http_net alloc fn ev a m) = mg_done m"
    by (simp add: http_net_def split: option.split)
  have same: "rel_option handled (mg_conns m b) (mg_conns m b)"
    using ok by (intro option.rel_refl_strong) (auto simp: handled_def conn_grows_refl conn_of_ok)
  show "rel_option handled (mg_conns m b) (mg_conns (http_net alloc fn ev a m) b)"
  proof (cases "mg_conns m a")
    case (Some c)
    note h = http_handled [OF conn_of_ok [OF ok Some], of fn "nc_is_accepted c" "\<not> nc_is_accepted c" "http_event ev" "mg_user m" _ alloc]
    show ?thesis using same Some h by (cases "b = a") (auto simp: http_net_def split: option.split)
  qed (use same in \<open>simp add: http_net_def\<close>)
qed

section \<open>The loop with the HTTP handler\<close>

text \<open>Numbers are unique and start from 1, so there are no more connections than numbers given.\<close>

lemma few_conns:
  assumes "mgr_full m"
  shows "length (mg_list m) \<le> unat (mg_nextid m)"
proof -
  let ?i = "\<lambda>a. case mg_conns m a of Some c \<Rightarrow> unat (nc_id c) | None \<Rightarrow> 0"
  have "inj_on ?i (set (mg_list m))"
    using assms by (auto simp: inj_on_def mgr_full_def mgr_ok_def word_unat_eq_iff [symmetric] split: option.splits)
  moreover have "?i ` set (mg_list m) \<subseteq> {1..unat (mg_nextid m)}"
    using assms by (fastforce simp: mgr_full_def mgr_ok_def word_le_nat_alt split: option.splits)
  ultimately have "card (set (mg_list m)) \<le> card {1..unat (mg_nextid m)}" by (intro card_inj_on_le) simp_all
  moreover have "card (set (mg_list m)) = length (mg_list m)" using assms by (intro distinct_card) (simp add: mgr_full_def mgr_ok_def)
  ultimately show ?thesis by (simp only: card_atLeastAtMost)
qed

context io_handler
begin

lemma poll_goes_on:
  assumes "mgr_full m" "unat (mg_nextid m) < 2 ^ 63" "\<And>a l b. v_slot (vs a) l = Some b \<Longrightarrow> b \<notin> set l"
  obtains m' where "mg_mgr_poll call evs vs m = Some m'" "mgr_full m'" "served m m'"
    "unat (mg_nextid m') \<le> 2 * unat (mg_nextid m)"
proof -
  have "unat (mg_nextid m) + length (mg_list m) < 2 ^ 64" using few_conns [OF assms(1)] assms(2) by simp
  from mgr_poll_turn [OF assms(1) _ this] assms(3) obtain m' where "mg_mgr_poll call evs vs m = Some m'"
    "mgr_full m'" "served m m'" "unat (mg_nextid m') \<le> unat (mg_nextid m) + length (mg_list m)" by metis
  moreover from this have "unat (mg_nextid m') \<le> 2 * unat (mg_nextid m)" using few_conns [OF assms(1)] by linarith
  ultimately show ?thesis by (intro that)
qed

lemma run_full:
  assumes run: "\<And>i. i < n \<Longrightarrow> mg_mgr_poll call (evs i) (vs i) (st i) = Some (st (Suc i))"
    and m: "mgr_full (st 0)" "\<And>i. i < n \<Longrightarrow> unat (mg_nextid (st i)) < 2 ^ 63" "\<And>i b l x. v_slot (vs i b) l = Some x \<Longrightarrow> x \<notin> set l"
  shows "i \<le> n \<Longrightarrow> mgr_full (st i)"
proof (induction i)
  case (Suc i)
  then have i: "i < n" "mgr_full (st i)" by simp_all
  obtain m' where "mg_mgr_poll call (evs i) (vs i) (st i) = Some m'" "mgr_full m'"
    using poll_goes_on [OF i(2) m(2) [OF i(1)], of "vs i" "evs i"] m(3) by metis
  then show ?case using run [OF i(1)] by simp
qed (use m(1) in simp)

end

lemmas http_poll = http.poll_goes_on

text \<open>The event loop never copies outside a buffer. Whatever the kernel answers, whatever clients send and
  whatever the HTTP handlers reply, a turn of the loop ends with every buffer well formed, no receive buffer longer than
  3 MB, and all connections numbered differently.\<close>

theorem mgr_poll_safe:
  assumes "mgr_full m" "unat (mg_nextid m) < 2 ^ 63" "\<And>a l b. v_slot (vs a) l = Some b \<Longrightarrow> b \<notin> set l"
  shows "\<exists>m'. mg_mgr_poll (http_net alloc fn) evs vs m = Some m' \<and> mgr_full m'
    \<and> (\<forall>a c. mg_conns m' a = Some c \<longrightarrow> length (io_bytes (nc_recv c)) \<le> 3 * 1024 * 1024)
    \<and> (\<forall>a b c d. mg_conns m' a = Some c \<longrightarrow> mg_conns m' b = Some d \<longrightarrow> nc_id c = nc_id d \<longrightarrow> a = b)"
proof -
  obtain m' where m': "mg_mgr_poll (http_net alloc fn) evs vs m = Some m'" "mgr_full m'"
    using http_poll [OF assms(1,2), of vs alloc fn evs] assms(3) by metis
  then have "length (io_bytes (nc_recv c)) \<le> 3 * 1024 * 1024" if "mg_conns m' a = Some c" for a c
    using recv_bound that by (auto simp: mgr_full_def)
  then show ?thesis using m' unfolding mgr_full_def mgr_ok_def by blast
qed


end
