(* ===== verification/MgNetLocal.thy ===== *)
theory MgNetLocal
  imports MgNetProofs
begin

text \<open>
  Handlers of one connection that leave the others alone: then what a turn of the loop does to a connection is what
  the connection's own turn does to it. \<open>view\<close> is the part of the handlers' state that belongs to a connection.
\<close>

section \<open>Folds over the list of connections\<close>

text \<open>A connection, and what the handlers keep of it.\<close>

definition spot :: "(nat \<Rightarrow> 'u \<Rightarrow> 'v) \<Rightarrow> nat \<Rightarrow> 'u mgr \<Rightarrow> net_conn option \<times> 'v" where
  "spot view a m = (mg_conns m a, view a (mg_user m))"

lemma foldl_other:
  "(\<And>m a. a \<noteq> b \<Longrightarrow> g (f m a) = g m) \<Longrightarrow> b \<notin> set as \<Longrightarrow> g (foldl f m as) = g m"
  by (induction as arbitrary: m) auto

lemma foldl_at:
  assumes "\<And>m a. a \<noteq> b \<Longrightarrow> g (f m a) = g m" "\<And>m. g (f m b) = h (g m)"
    and "b \<in> set as" "distinct as"
  shows "g (foldl f m as) = h (g m)"
  using assms(3,4)
proof (induction as arbitrary: m)
  case (Cons a as)
  show ?case
  proof (cases "a = b")
    case True
    then show ?thesis using Cons.prems foldl_other [where b = b and f = f and g = g, OF assms(1)] assms(2) by simp
  next
    case False
    then show ?thesis using Cons assms(1) by simp
  qed
qed simp

section \<open>Writing\<close>

text \<open>The kernel takes k bytes; the handler hears of it.\<close>

context io_handler
begin

lemma write_some:
  assumes ok: "mgr_ok m" and c: "mg_conns m a = Some c" "io_bytes (nc_send c) \<noteq> []" and k: "0 < k"
  obtains io where "io_ok io" "io_bytes io = drop k (io_bytes (nc_send c))" "io_size io = io_size (nc_send c)"
    "io_align io = io_align (nc_send c)"
    "write_conn call (Tx_sent k) a m = Some (call Net_write a
       (upd a (\<lambda>c'. c'\<lparr>nc_send := io, nc_wire := nc_wire c' @ take k (io_bytes (nc_send c))\<rparr>) m))"
    "grows m (upd a (\<lambda>c'. c'\<lparr>nc_send := io, nc_wire := nc_wire c' @ take k (io_bytes (nc_send c))\<rparr>) m)"
proof -
  let ?s = "io_bytes (nc_send c)"
  define n where "n = min k (length ?s)"
  have n: "0 < n" "n \<le> length ?s" "mg_io_send (Tx_sent k) (length ?s) = int n"
    using k c(2) by (auto simp: n_def mg_io_send_def min_def split: if_splits)
  have t: "take k ?s = take n ?s" "drop k ?s = drop n ?s" by (auto simp: n_def min_def)
  have cok: "conn_ok c" using conn_of_ok [OF ok c(1)] .
  then have so: "io_ok (nc_send c)" by (simp add: conn_ok_def)
  have "n < 2 ^ 64" using n(2) io_bytes_len [OF so] unsigned_less [where 'a = nat, of "io_len (nc_send c)"] by simp
  then have u: "unat (word_of_nat n :: u64) = n" by (simp add: unat_of_nat)
  obtain r io where del: "mg_iobuf_del (nc_send c) 0 (word_of_nat n) = Some (r, io)" "io_ok io" "io_size io = io_size (nc_send c)"
    "io_align io = io_align (nc_send c)" "io_bytes io = take (unat (0 :: u64)) ?s @ drop (unat (0 :: u64) + unat (word_of_nat n :: u64)) ?s"
    by (rule iobuf_del [OF so, of 0 "word_of_nat n"]) (use u \<open>n < 2 ^ 64\<close> in simp)
  have bytes: "io_bytes io = drop n ?s" using del(5) u by simp
  have w: "write_conn call (Tx_sent k) a m = Some (call Net_write a (upd a (\<lambda>c'. c'\<lparr>nc_send := io, nc_wire := nc_wire c' @ take k ?s\<rparr>) m))"
    using c n del(1) unfolding write_conn_def t by (simp add: Let_def MG_IO_WAIT_def)
  have "grows m (upd a (\<lambda>c'. c'\<lparr>nc_send := io, nc_wire := nc_wire c' @ take k ?s\<rparr>) m)"
    using ok c(1) cok del(2-4) bytes by (intro grows_upd) (auto simp: t conn_grows_def conn_ok_def nc_out_def)
  with w bytes del(2-4) show ?thesis by (intro that [of io]) (simp_all add: t)
qed

end

section \<open>Handlers that leave other connections alone\<close>

locale local_handler = io_handler call for call :: "'u net_fn" +
  fixes view :: "nat \<Rightarrow> 'u \<Rightarrow> 'v"
  assumes elsewhere: "b \<noteq> a \<Longrightarrow> spot view b (call ev a m) = spot view b m"
begin

lemma spot_frame [simp]:
  "spot view b (m\<lparr>mg_list := l\<rparr>) = spot view b m" "spot view b (m\<lparr>mg_nextid := i\<rparr>) = spot view b m"
  by (simp_all add: spot_def)

lemma upd_elsewhere: "b \<noteq> a \<Longrightarrow> spot view b (upd a f m) = spot view b m"
  by (simp add: spot_def upd_def split: option.split)

lemma error_elsewhere: "b \<noteq> a \<Longrightarrow> spot view b (mg_error call s a m) = spot view b m"
  by (simp add: mg_error_def elsewhere upd_elsewhere)

lemmas elsewhere_all = elsewhere upd_elsewhere error_elsewhere

lemma ioalloc_elsewhere: "b \<noteq> a \<Longrightarrow> spot view b (snd (ioalloc call al a c m)) = spot view b m"
  by (simp add: ioalloc_def Let_def elsewhere_all split: prod.split bool.split)

lemma iolog_elsewhere: "b \<noteq> a \<Longrightarrow> spot view b (iolog_read call n a m) = spot view b m"
  by (simp add: iolog_read_def elsewhere_all)

lemma read_elsewhere:
  assumes "b \<noteq> a" "read_conn call al k a m = Some m'"
  shows "spot view b m' = spot view b m"
proof -
  obtain c where c: "mg_conns m a = Some c" using assms(2) by (auto simp: read_conn_def split: option.splits)
  obtain r m1 where i: "ioalloc call al a c m = (r, m1)" by (cases "ioalloc call al a c m")
  have "spot view b m1 = spot view b m" using ioalloc_elsewhere [OF assms(1), of al c m] i by simp
  then show ?thesis
    using assms c i by (auto simp: read_conn_def Let_def iolog_elsewhere elsewhere_all split: option.splits bool.splits prod.splits)
qed

lemma write_elsewhere: "b \<noteq> a \<Longrightarrow> write_conn call k a m = Some m' \<Longrightarrow> spot view b m' = spot view b m"
  by (auto simp: write_conn_def Let_def elsewhere_all split: option.splits if_splits)

lemma accept_elsewhere: "slot \<noteq> Some b \<Longrightarrow> spot view b (accept_conn call slot m) = spot view b m"
proof (cases slot)
  case (Some x)
  moreover assume "slot \<noteq> Some b"
  ultimately have "b \<noteq> x" by simp
  moreover from this have "spot view b (mg_alloc_conn x m) = spot view b m" by (simp add: spot_def mg_alloc_conn_def Let_def)
  ultimately show ?thesis using Some by (simp add: accept_conn_def Let_def elsewhere_all)
qed (simp add: accept_conn_def)

lemma close_elsewhere: "b \<noteq> a \<Longrightarrow> spot view b (close_conn call a m) = spot view b m"
proof -
  assume "b \<noteq> a"
  then have "spot view b (close_conn call a m) = spot view b (call Net_close a (m\<lparr>mg_list := remove1 a (mg_list m)\<rparr>))"
    by (simp add: spot_def close_conn_def Let_def)
  with \<open>b \<noteq> a\<close> show ?thesis by (simp add: elsewhere)
qed

lemma poll_io_elsewhere:
  assumes "b \<noteq> a" "v_slot v (mg_list m) \<noteq> Some b" "poll_io call v a m = Some m'"
  shows "spot view b m' = spot view b m"
  using assms
  by (auto simp: poll_io_def accept_elsewhere split: option.splits if_splits dest!: read_elsewhere [OF assms(1)] write_elsewhere [OF assms(1)])

lemma poll_conn_elsewhere:
  assumes "b \<noteq> a" "\<And>l. v_slot v l = Some b \<Longrightarrow> b \<notin> set l" "b \<in> set (mg_list m)" "mgr_ok m" "poll_conn call v a m = Some m'"
  shows "spot view b m' = spot view b m"
proof -
  define resp where "resp m \<longleftrightarrow> (case mg_conns m a of Some c \<Rightarrow> nc_is_resp c | None \<Rightarrow> False)" for m :: "'u mgr"
  define m2 where "m2 = (if resp m \<and> \<not> resp (call Net_poll a m) then call Net_read a (call Net_poll a m) else call Net_poll a m)"
  have "mgr_ok (call Net_poll a m)" using grows_ok [OF assms(4) call_grows [OF assms(4)]] .
  then have "mg_list m2 = mg_list m" using keeps [OF assms(4)] keeps [of "call Net_poll a m"] by (simp add: m2_def)
  then have slot: "v_slot v (mg_list m2) \<noteq> Some b" using assms(2,3) by auto
  have same: "spot view b m2 = spot view b m" using assms(1) by (simp add: m2_def elsewhere)
  have p: "poll_conn call v a m = (case poll_io call v a m2 of None \<Rightarrow> None | Some m3 \<Rightarrow>
      (let m4 = upd a (\<lambda>c. if nc_is_draining c \<and> io_len (nc_send c) = 0 then c\<lparr>nc_is_closing := True\<rparr> else c) m3
       in case mg_conns m4 a of None \<Rightarrow> None | Some c \<Rightarrow> Some (if nc_is_closing c then close_conn call a m4 else m4)))"
    unfolding poll_conn_def Let_def resp_def m2_def by (rule refl)
  show ?thesis
    using assms(5) same unfolding p
    by (auto simp: Let_def upd_elsewhere [OF assms(1)] close_elsewhere [OF assms(1)] split: option.splits if_splits
        dest!: poll_io_elsewhere [OF assms(1) slot])
qed

lemma poll_list_elsewhere:
  assumes slot: "\<And>a l x. v_slot (vs a) l = Some x \<Longrightarrow> x \<notin> set l"
  shows "mgr_full m \<Longrightarrow> set as \<subseteq> set (mg_list m) \<Longrightarrow> distinct as \<Longrightarrow> unat (mg_nextid m) + length as < 2 ^ 64
    \<Longrightarrow> b \<notin> set as \<Longrightarrow> b \<in> set (mg_list m) \<Longrightarrow> poll_list call vs as m = Some m' \<Longrightarrow> spot view b m' = spot view b m"
proof (induction as arbitrary: m)
  case (Cons a as)
  have "unat (mg_nextid m) < 2 ^ 64 - 1" using Cons.prems(4) by simp
  then obtain m1 where m1: "poll_conn call (vs a) a m = Some m1" "turn {a} 1 m m1"
    using poll_conn_turn [OF Cons.prems(1), of a "vs a"] slot Cons.prems(2) by auto
  have p: "mgr_full m1" "set as \<subseteq> set (mg_list m1)" "unat (mg_nextid m1) + length as < 2 ^ 64" "b \<in> set (mg_list m1)"
    using m1(2) Cons.prems by (auto simp: turn_def)
  have "spot view b m1 = spot view b m"
    using poll_conn_elsewhere [OF _ _ Cons.prems(6) _ m1(1)] slot Cons.prems(1,5) by (auto simp: mgr_full_def)
  moreover have "spot view b m' = spot view b m1"
    using Cons.IH [OF p(1,2) _ p(3) _ p(4)] Cons.prems(3,5,7) m1(1) by simp
  ultimately show ?case by simp
qed simp

lemma iotest_at:
  assumes "mgr_full m" "mg_conns m a = Some c" "evs a = Some (False, False, True)"
  shows "spot view a (mg_iotest call evs m)
    = (Some (c\<lparr>nc_is_readable := False, nc_is_writable := 0 < io_len (nc_send c)\<rparr>), view a (mg_user m))"
proof -
  have a: "a \<in> set (mg_list m)" "distinct (mg_list m)" using assms(1,2) by (auto simp: mgr_full_def mgr_ok_def)
  let ?m = "foldl (\<lambda>m a. upd a (\<lambda>c. c\<lparr>nc_is_readable := False, nc_is_writable := False\<rparr>) m) m (mg_list m)"
  have "spot view a ?m = apfst (map_option (\<lambda>c. c\<lparr>nc_is_readable := False, nc_is_writable := False\<rparr>)) (spot view a m)"
    by (rule foldl_at [where g = "spot view a", OF _ _ a]) (simp_all add: upd_elsewhere, simp add: upd_def spot_def split: option.split)
  moreover have "spot view a (mg_iotest call evs m)
      = apfst (map_option (\<lambda>c. c\<lparr>nc_is_readable := False, nc_is_writable := 0 < io_len (nc_send c)\<rparr>)) (spot view a ?m)"
    unfolding mg_iotest_def
    by (rule foldl_at [where g = "spot view a", OF _ _ a])
      (simp_all add: iotest_conn_def assms(3) elsewhere_all split: option.split, simp add: upd_def spot_def split: option.split)
  ultimately show ?thesis using assms(2) by (simp add: spot_def)
qed

lemma poll_list_append:
  "poll_list call vs (as @ bs) m = (case poll_list call vs as m of None \<Rightarrow> None | Some m1 \<Rightarrow> poll_list call vs bs m1)"
  by (induction as arbitrary: m) (simp_all split: option.split)

text \<open>A turn of the loop, seen from a connection that is ready for output: only its own turn matters.\<close>

lemma poll_at:
  assumes f: "mgr_full m" and slot: "\<And>a l x. v_slot (vs a) l = Some x \<Longrightarrow> x \<notin> set l"
    and num: "unat (mg_nextid m) + length (mg_list m) < 2 ^ 64"
    and c: "mg_conns m a = Some c" and v: "evs a = Some (False, False, True)" and m': "mg_mgr_poll call evs vs m = Some m'"
  obtains m1 m2 where "mgr_ok m1"
    "spot view a m1 = (Some (c\<lparr>nc_is_readable := False, nc_is_writable := 0 < io_len (nc_send c)\<rparr>), view a (mg_user m))"
    "poll_conn call (vs a) a m1 = Some m2" "set (mg_done m2) \<subseteq> set (mg_done m')"
    "\<forall>d. mg_conns m2 a = Some d \<longrightarrow> spot view a m' = spot view a m2"
proof -
  let ?m = "mg_iotest call evs m"
  have ok: "mgr_ok m" "distinct (mg_list m)" "set (mg_list m) = dom (mg_conns m)" using f by (simp_all add: mgr_full_def mgr_ok_def)
  have g: "grows m ?m" using iotest_grows [OF ok(1)] .
  then have f1: "mgr_full ?m" and l: "mg_list ?m = mg_list m" "mg_nextid ?m = mg_nextid m" using grows_full [OF f] by (simp_all add: grows_def)
  obtain as bs where split: "mg_list m = as @ a # bs" using ok(3) c by (metis domI split_list)
  have num1: "unat (mg_nextid ?m) + length as < 2 ^ 64" "distinct as" "a \<notin> set as" "distinct bs" "a \<notin> set bs" "set as \<inter> set bs = {}"
    using num l ok(2) by (simp_all add: split)
  obtain m1 where m1: "poll_list call vs as ?m = Some m1" "turn (set as) (length as) ?m m1"
    using poll_list_turn [of vs ?m as] slot f1 num1 l by (auto simp: split)
  have a1: "spot view a m1 = (Some (c\<lparr>nc_is_readable := False, nc_is_writable := 0 < io_len (nc_send c)\<rparr>), view a (mg_user m))"
    using poll_list_elsewhere [of vs ?m as a m1] slot f1 num1 l m1(1) iotest_at [where evs = evs, OF f c v] by (auto simp: split)
  have f2: "mgr_full m1" "a \<in> set (mg_list m1)" "set bs \<subseteq> set (mg_list m1)" "unat (mg_nextid m1) + length (a # bs) < 2 ^ 64"
    using m1(2) num1 num l by (auto simp: turn_def split)
  then obtain m2 where m2: "poll_conn call (vs a) a m1 = Some m2" "turn {a} 1 m1 m2"
    using poll_conn_turn [of m1 a "vs a"] slot by auto
  have p: "poll_list call vs bs m2 = Some m'" using m' m1(1) m2(1) by (simp add: mg_mgr_poll_def split poll_list_append)
  have f3: "mgr_full m2" "set bs \<subseteq> set (mg_list m2)" "unat (mg_nextid m2) + length bs < 2 ^ 64"
    using m2(2) f2 num1 by (auto simp: turn_def)
  have "turn (set bs) (length bs) m2 m'" using poll_list_turn [of vs m2 bs] slot f3 num1 p by auto
  then have "set (mg_done m2) \<subseteq> set (mg_done m')" by (simp add: turn_def served_def)
  moreover have "spot view a m' = spot view a m2" if "mg_conns m2 a = Some d" for d
    using poll_list_elsewhere [of vs m2 bs a m'] slot f3 num1 p that by (auto simp: mgr_full_def)
  ultimately show ?thesis using f2(1) a1 m2(1) by (intro that [of m1 m2]) (simp_all add: mgr_full_def)
qed

end

end
