(* ===== verification/MgNetDrain.thy ===== *)
theory MgNetDrain
  imports MgNetLocal
begin

text \<open>
  A connection that is draining is sent to its end and then closed, by handlers that add nothing to it meanwhile when
  they are polled or told of a write. The HTTP handler is one.
\<close>

text \<open>What becomes of a draining connection when the kernel takes k bytes and more are left.\<close>

definition drained_by :: "nat \<Rightarrow> net_conn \<Rightarrow> net_conn \<Rightarrow> bool" where
  "drained_by k c d \<longleftrightarrow> nc_id d = nc_id c \<and> nc_is_draining d \<and> \<not> nc_is_closing d \<and> \<not> nc_is_listening d
     \<and> nc_wire d = nc_wire c @ take k (io_bytes (nc_send c)) \<and> io_bytes (nc_send d) = drop k (io_bytes (nc_send c))"

text \<open>A connection of which c's output is still to be sent, at most l bytes of it.\<close>

definition still_draining :: "net_conn \<Rightarrow> nat \<Rightarrow> nat \<Rightarrow> 'u mgr \<Rightarrow> bool" where
  "still_draining c a l m \<longleftrightarrow>
     (\<exists>d. mg_conns m a = Some d \<and> nc_id d = nc_id c \<and> nc_is_draining d \<and> \<not> nc_is_closing d \<and> \<not> nc_is_listening d
        \<and> io_bytes (nc_send d) \<noteq> [] \<and> nc_out d = nc_out c \<and> length (io_bytes (nc_send d)) \<le> l)"

lemma io_len_empty: "io_ok io \<Longrightarrow> io_len io = 0 \<longleftrightarrow> io_bytes io = []"
  by (metis io_bytes_len length_0_conv unsigned_0 word_unat_eq_iff)

locale quiet_handler = local_handler +
  assumes quiet: "mg_conns m a = Some c \<Longrightarrow> nc_is_draining c \<Longrightarrow> ev = Net_poll \<or> ev = Net_write
      \<Longrightarrow> mg_conns (call ev a m) a = Some c"
begin

lemma draining_turn:
  assumes ok: "mgr_ok m" and c: "mg_conns m a = Some c" "nc_is_draining c" "\<not> nc_is_closing c" "\<not> nc_is_listening c"
      "\<not> nc_is_readable c" "nc_is_writable c" "io_bytes (nc_send c) \<noteq> []"
    and v: "v_tx v = Tx_sent k" "0 < k" and m': "poll_conn call v a m = Some m'"
  shows "if length (io_bytes (nc_send c)) \<le> k then (nc_id c, nc_wire c @ io_bytes (nc_send c)) \<in> set (mg_done m')
    else \<exists>d. mg_conns m' a = Some d \<and> drained_by k c d"
proof -
  let ?s = "io_bytes (nc_send c)"
  define m1 where "m1 = call Net_poll a m"
  have m1: "mg_conns m1 a = Some c" unfolding m1_def using quiet [OF c(1,2)] by blast
  have ok1: "mgr_ok m1" unfolding m1_def by (rule grows_ok [OF ok call_grows [OF ok]])
  obtain io where io: "io_ok io" "io_bytes io = drop k ?s"
    "write_conn call (Tx_sent k) a m1 = Some (call Net_write a (upd a (\<lambda>c. c\<lparr>nc_send := io, nc_wire := nc_wire c @ take k ?s\<rparr>) m1))"
    "grows m1 (upd a (\<lambda>c. c\<lparr>nc_send := io, nc_wire := nc_wire c @ take k ?s\<rparr>) m1)"
    by (rule write_some [OF ok1 m1 c(7) v(2)])
  define f where "f c = c\<lparr>nc_send := io, nc_wire := nc_wire c @ take k ?s\<rparr>" for c :: net_conn
  note io = io [folded f_def]
  let ?d = "f c"
  define m3 where "m3 = call Net_write a (upd a f m1)"
  have "mg_conns (upd a f m1) a = Some ?d" using m1 by (simp add: upd_def)
  then have m3: "mg_conns m3 a = Some ?d" unfolding m3_def using quiet [of "upd a f m1" a ?d] c(2) by (simp add: f_def)
  have p3: "poll_io call v a m1 = Some m3" using m1 c v(1) io(3) by (simp add: poll_io_def m3_def f_def [abs_def])
  define m4 where "m4 = upd a (\<lambda>c. if nc_is_draining c \<and> io_len (nc_send c) = 0 then c\<lparr>nc_is_closing := True\<rparr> else c) m3"
  have d: "nc_is_draining ?d" "io_len (nc_send ?d) = 0 \<longleftrightarrow> length ?s \<le> k" "\<not> nc_is_closing ?d"
    using c io_len_empty [OF io(1)] io(2) by (simp_all add: f_def)
  have p: "poll_conn call v a m = Some (if length ?s \<le> k then close_conn call a m4 else m4)"
    unfolding poll_conn_def Let_def m1_def [symmetric] using m1 c(1) p3 m3 d by (simp add: m4_def upd_def)
  have ok3: "mgr_ok m3" unfolding m3_def using upd_call_grows [OF ok1 io(4) [folded f_def [abs_def]]] grows_ok [OF ok1] by (simp add: f_def [abs_def])
  have "grows m3 m4" unfolding m4_def using ok3 by (rule grows_flags) simp
  then have ok4: "mgr_ok m4" using grows_ok [OF ok3] by blast
  show ?thesis
  proof (cases "length ?s \<le> k")
    case True
    let ?m = "m4\<lparr>mg_list := remove1 a (mg_list m4)\<rparr>" and ?e = "?d\<lparr>nc_is_closing := True\<rparr>"
    have e: "mg_conns ?m a = Some ?e" using m3 d True by (simp add: m4_def upd_def)
    have "mgr_ok ?m" using ok4 set_remove1_subset [of a "mg_list m4"] by (auto simp: mgr_ok_def)
    then have "rel_option handled (mg_conns ?m a) (mg_conns (call Net_close a ?m) a)" by (rule handles)
    then obtain g where g: "mg_conns (call Net_close a ?m) a = Some g" "handled ?e g" using e by (auto simp: option_rel_Some1)
    then have "nc_id g = nc_id c \<and> nc_wire g = nc_wire c @ ?s" using True by (simp add: handled_def conn_grows_def f_def)
    then show ?thesis using p m' True g(1) by (simp add: close_conn_def Let_def)
  next
    case False
    then show ?thesis using p m' m3 d c io(2) by (simp add: m4_def upd_def drained_by_def f_def)
  qed
qed

lemma poll_draining:
  assumes f: "mgr_full m" and slot: "\<And>a l x. v_slot (vs a) l = Some x \<Longrightarrow> x \<notin> set l"
    and num: "unat (mg_nextid m) + length (mg_list m) < 2 ^ 64"
    and c: "mg_conns m a = Some c" "nc_is_draining c" "\<not> nc_is_closing c" "\<not> nc_is_listening c" "io_bytes (nc_send c) \<noteq> []"
    and v: "evs a = Some (False, False, True)" "v_tx (vs a) = Tx_sent k" "0 < k"
    and m': "mg_mgr_poll call evs vs m = Some m'"
  shows "if length (io_bytes (nc_send c)) \<le> k then (nc_id c, nc_wire c @ io_bytes (nc_send c)) \<in> set (mg_done m')
    else \<exists>d. mg_conns m' a = Some d \<and> drained_by k c d"
proof -
  let ?c = "c\<lparr>nc_is_readable := False, nc_is_writable := 0 < io_len (nc_send c)\<rparr>"
  obtain m1 m2 where m1: "mgr_ok m1" "spot view a m1 = (Some ?c, view a (mg_user m))"
    and m2: "poll_conn call (vs a) a m1 = Some m2" "set (mg_done m2) \<subseteq> set (mg_done m')"
    and same: "\<forall>d. mg_conns m2 a = Some d \<longrightarrow> spot view a m' = spot view a m2"
    by (rule poll_at [where vs = vs and evs = evs, OF f slot num c(1) v(1) m'])
  have a1: "mg_conns m1 a = Some ?c" using m1(2) by (simp add: spot_def)
  have "io_ok (nc_send c)" using f conn_of_ok c(1) by (auto simp: mgr_full_def conn_ok_def)
  then have w: "nc_is_writable ?c" using c(5) io_len_empty by (simp add: word_gt_0)
  have "nc_is_draining ?c" "\<not> nc_is_closing ?c" "\<not> nc_is_listening ?c" "\<not> nc_is_readable ?c" "io_bytes (nc_send ?c) \<noteq> []"
    using c by simp_all
  from draining_turn [OF m1(1) a1 this(1-4) w this(5) v(2,3) m2(1)]
  have t: "if length (io_bytes (nc_send c)) \<le> k then (nc_id c, nc_wire c @ io_bytes (nc_send c)) \<in> set (mg_done m2)
    else \<exists>d. mg_conns m2 a = Some d \<and> drained_by k c d"
    by (cases "length (io_bytes (nc_send c)) \<le> k") (simp_all add: drained_by_def)
  moreover have "mg_conns m' a = mg_conns m2 a" if "mg_conns m2 a = Some d" for d
    using same that by (simp add: spot_def)
  ultimately show ?thesis using m2(2) by (auto split: if_splits)
qed

lemma drains_on:
  assumes f: "mgr_full m" and small: "unat (mg_nextid m) < 2 ^ 63" and slot: "\<And>a l x. v_slot (vs a) l = Some x \<Longrightarrow> x \<notin> set l"
    and d: "still_draining c a (Suc l) m" and v: "evs a = Some (False, False, True)" "v_tx (vs a) = Tx_sent k" "0 < k"
    and m': "mg_mgr_poll call evs vs m = Some m'"
  shows "(nc_id c, nc_out c) \<in> set (mg_done m') \<or> still_draining c a l m'"
proof -
  obtain d where d: "mg_conns m a = Some d" "nc_id d = nc_id c" "nc_is_draining d" "\<not> nc_is_closing d" "\<not> nc_is_listening d"
    "io_bytes (nc_send d) \<noteq> []" "nc_out d = nc_out c" "length (io_bytes (nc_send d)) \<le> Suc l"
    using d by (auto simp: still_draining_def)
  have num: "unat (mg_nextid m) + length (mg_list m) < 2 ^ 64" using few_conns [OF f] small by simp
  have p: "if length (io_bytes (nc_send d)) \<le> k then (nc_id d, nc_wire d @ io_bytes (nc_send d)) \<in> set (mg_done m')
      else \<exists>e. mg_conns m' a = Some e \<and> drained_by k d e"
    by (rule poll_draining [where vs = vs and evs = evs, OF f slot num d(1,3-6) v m'])
  show ?thesis
  proof (cases "length (io_bytes (nc_send d)) \<le> k")
    case True
    then show ?thesis using p d(2,7) by (simp add: nc_out_def)
  next
    case False
    then obtain e where e: "mg_conns m' a = Some e" "drained_by k d e" using p by auto
    then have "io_bytes (nc_send e) = drop k (io_bytes (nc_send d))" "nc_out e = nc_out d" by (simp_all add: drained_by_def nc_out_def)
    then show ?thesis using e d v(3) False by (auto simp: drained_by_def still_draining_def)
  qed
qed

end

section \<open>The HTTP handler\<close>

lemma io_put_same: "io_put io (io_bytes io) = io"
  by (simp add: io_put_def split: option.split)

interpretation httpd: quiet_handler "http_net alloc fn" "\<lambda>a u. ()" for alloc fn
proof
  fix a b ev and m :: "'a mgr"
  show "b \<noteq> a \<Longrightarrow> spot (\<lambda>a u. ()) b (http_net alloc fn ev a m) = spot (\<lambda>a u. ()) b m"
    by (simp add: http_net_def spot_def split: option.split)
  fix c assume "mg_conns m a = Some c" "nc_is_draining c" "ev = Net_poll \<or> ev = Net_write"
  then show "mg_conns (http_net alloc fn ev a m) a = Some c"
    by (auto simp: http_net_def http_cb_def http_event_def http_view_def io_put_same mg_send_def)
qed


text \<open>Two bytes to send, one taken at a turn.\<close>

definition two_bytes :: net_conn where
  "two_bytes = (new_conn 1)\<lparr>nc_send := \<lparr>io_buf = Some (''ab'' @ replicate 16382 NUL), io_size = MG_IO_SIZE, io_len = 2, io_align = MG_IO_SIZE\<rparr>,
     nc_is_accepted := True, nc_is_draining := True\<rparr>"

definition one_conn :: "unit mgr" where
  "one_conn = \<lparr>mg_list = [0], mg_conns = [0 \<mapsto> two_bytes], mg_nextid = 1, mg_user = (), mg_done = []\<rparr>"

definition silent :: "unit http_fn" where
  "silent x r u = ([], r, u)"

definition one_byte :: "nat \<Rightarrow> visit" where
  "one_byte a = \<lparr>v_alloc = (\<lambda>n. True), v_rx = Rx_pending, v_tx = Tx_sent 1, v_slot = (\<lambda>l. None)\<rparr>"

primrec two_turns :: "nat \<Rightarrow> unit mgr" where
  "two_turns 0 = one_conn"
| "two_turns (Suc i) = (case mg_mgr_poll (http_net (\<lambda>n. True) silent) (\<lambda>a. Some (False, False, True)) one_byte (two_turns i) of
     Some m \<Rightarrow> m | None \<Rightarrow> two_turns i)"

lemma two_bytes_ok: "conn_ok two_bytes" "io_bytes (nc_send two_bytes) = ''ab''" "nc_id two_bytes = 1" "nc_wire two_bytes = []"
  "nc_is_draining two_bytes" "\<not> nc_is_closing two_bytes" "\<not> nc_is_listening two_bytes"
  by (simp_all add: two_bytes_def new_conn_def conn_ok_def io_ok_def io_bytes_def MG_IO_SIZE_def MG_MAX_RECV_SIZE_def Let_def)

lemma one_conn_full: "mgr_full one_conn"
  using two_bytes_ok by (simp add: mgr_full_def mgr_ok_def one_conn_def)

lemma one_conn_small: "unat (mg_nextid one_conn) < 2 ^ 63"
  by (simp add: one_conn_def)

lemma one_byte_slot: "v_slot (one_byte a) l = Some b \<Longrightarrow> b \<notin> set l"
  by (simp add: one_byte_def)


theorem mgr_poll_safe_witness:
  "\<exists>m'. mg_mgr_poll (http_net (\<lambda>n. True) silent) (\<lambda>a. Some (False, True, True)) one_byte one_conn = Some m' \<and> mgr_full m'"
proof -
  have "\<exists>m'. mg_mgr_poll (http_net (\<lambda>n. True) silent) (\<lambda>a. Some (False, True, True)) one_byte one_conn = Some m' \<and> mgr_full m'
    \<and> (\<forall>a c. mg_conns m' a = Some c \<longrightarrow> length (io_bytes (nc_recv c)) \<le> 3 * 1024 * 1024)
    \<and> (\<forall>a b c d. mg_conns m' a = Some c \<longrightarrow> mg_conns m' b = Some d \<longrightarrow> nc_id c = nc_id d \<longrightarrow> a = b)"
    by (rule mgr_poll_safe [OF one_conn_full one_conn_small]) (rule one_byte_slot)
  then show ?thesis by blast
qed


end

