(* ===== verification/MgFile.thy ===== *)
theory MgFile
  imports MgNetDrain
begin

text \<open>
  How mongoose streams a file (src/crates/mongoose/mongoose.c, \<open>static_cb\<close>, \<open>restore_http_cb\<close>, \<open>p_read\<close>): the protocol
  handler of a connection that \<open>mg_http_serve_file\<close> has put in the place of \<open>http_cb\<close>, and which gives the
  connection back when the file has been read. It keeps the contracts of handlers, and the file is sent to its end.
\<close>

section \<open>The handler\<close>

text \<open>An open file: what can be read from it, the position, and how much of it is to be sent, which the code
  keeps in the last bytes of the connection's \<open>data\<close>.\<close>

record open_file =
  of_data :: string
  of_pos :: nat
  of_cl :: u64

text \<open>The files that connections stream, and the one that the user's handler has just opened.\<close>

record 'u streams =
  st_user :: 'u
  st_opened :: "open_file option"
  st_files :: "nat \<rightharpoonup> open_file"

definition p_read :: "open_file \<Rightarrow> nat \<Rightarrow> string" where
  "p_read f len = take len (drop (of_pos f) (of_data f))"

definition put_file :: "nat \<Rightarrow> open_file option \<Rightarrow> 'u streams mgr \<Rightarrow> 'u streams mgr" where
  "put_file a f m = m\<lparr>mg_user := (mg_user m)\<lparr>st_files := (st_files (mg_user m))(a := f)\<rparr>\<rparr>"

definition restore_http_cb :: "nat \<Rightarrow> 'u streams mgr \<Rightarrow> 'u streams mgr" where
  "restore_http_cb a m = upd a (\<lambda>c. c\<lparr>nc_is_resp := False\<rparr>) (put_file a None m)"

text \<open>The send buffer with room for a block, the bytes read and the file after it; None: the buffer is full.\<close>

definition block_room :: "(u64 \<Rightarrow> bool) \<Rightarrow> iobuf \<Rightarrow> iobuf" where
  "block_room alloc io = (if io_size io < MG_IO_SIZE then snd (mg_iobuf_resize (mg_calloc alloc) io MG_IO_SIZE) else io)"

definition read_block :: "iobuf \<Rightarrow> open_file \<Rightarrow> (iobuf \<times> open_file \<times> u64) option" where
  "read_block io f =
     (if io_size io \<le> io_len io then None
      else (let space = min (io_size io - io_len io) (of_cl f); s = p_read f (unat space); n = word_of_nat (length s)
        in case mem_write (io_buf io) (unat (io_len io)) s of
             None \<Rightarrow> None
           | Some b \<Rightarrow> Some (io\<lparr>io_buf := b, io_len := io_len io + n\<rparr>,
               f\<lparr>of_pos := of_pos f + length s, of_cl := of_cl f - n\<rparr>, n)))"

definition static_cb :: "(u64 \<Rightarrow> bool) \<Rightarrow> open_file \<Rightarrow> 'u streams net_fn" where
  "static_cb alloc f ev a m =
     (case mg_conns m a of
        None \<Rightarrow> m
      | Some c \<Rightarrow>
          if ev = Net_write \<or> ev = Net_poll then
            (let io = block_room alloc (nc_send c); m1 = upd a (\<lambda>c. c\<lparr>nc_send := io\<rparr>) m
             in case read_block io f of
                  None \<Rightarrow> m1
                | Some (io', f', n) \<Rightarrow>
                    (let m2 = put_file a (Some f') (upd a (\<lambda>c. c\<lparr>nc_send := io'\<rparr>) m1)
                     in if n = 0 then restore_http_cb a m2 else m2))
          else if ev = Net_close then restore_http_cb a m
          else m)"

text \<open>The user's handler answers a request as before, and may have opened a file for it.\<close>

type_synonym 'u opener = "http_note \<Rightarrow> bool \<Rightarrow> 'u \<Rightarrow> (string \<times> bool \<times> 'u) \<times> open_file option"

definition with_file :: "'u opener \<Rightarrow> 'u streams http_fn" where
  "with_file fn x r s =
     (case fn x r (st_user s) of ((b, r', u), f) \<Rightarrow>
        (b, r', s\<lparr>st_user := u, st_opened := (case f of None \<Rightarrow> st_opened s | Some _ \<Rightarrow> f)\<rparr>))"

text \<open>\<open>mg_call\<close> for a connection of the server: \<open>http_cb\<close>, or \<open>static_cb\<close> while it streams a file. A closing connection
  is not given a file.\<close>

definition file_net :: "(u64 \<Rightarrow> bool) \<Rightarrow> 'u opener \<Rightarrow> 'u streams net_fn" where
  "file_net alloc fn ev a m =
     (case st_files (mg_user m) a of
        Some f \<Rightarrow> static_cb alloc f ev a m
      | None \<Rightarrow>
          (let m1 = http_net alloc (with_file fn) ev a (m\<lparr>mg_user := (mg_user m)\<lparr>st_opened := None\<rparr>\<rparr>); s = mg_user m1
           in m1\<lparr>mg_user := s\<lparr>st_files := (st_files (mg_user m))(a := if ev = Net_close then None else st_opened s)\<rparr>\<rparr>))"

section \<open>A block\<close>

text \<open>What is still to be sent of a file.\<close>

definition of_rest :: "open_file \<Rightarrow> string" where
  "of_rest f = take (unat (of_cl f)) (drop (of_pos f) (of_data f))"

definition rest_of :: "open_file option \<Rightarrow> string" where
  "rest_of fo = (case fo of None \<Rightarrow> [] | Some f \<Rightarrow> of_rest f)"

text \<open>A send buffer that \<open>conn_ok\<close> allows.\<close>

definition send_ok :: "iobuf \<Rightarrow> bool" where
  "send_ok io \<longleftrightarrow> io_ok io \<and> io_align io = MG_IO_SIZE \<and> io_size io < 2 ^ 62"

lemma conn_send_ok: "conn_ok c \<Longrightarrow> send_ok (nc_send c)"
  by (simp add: conn_ok_def send_ok_def)

lemma conn_ok_send: "conn_ok c \<Longrightarrow> send_ok io \<Longrightarrow> conn_ok (c\<lparr>nc_send := io\<rparr>)"
  by (simp add: conn_ok_def send_ok_def)

lemma block_roundup: "roundup MG_IO_SIZE MG_IO_SIZE = MG_IO_SIZE"
  by code_simp

lemma block_room_ok:
  assumes "send_ok io"
  shows "send_ok (block_room alloc io)" "io_bytes (block_room alloc io) = io_bytes io"
    "alloc MG_IO_SIZE \<Longrightarrow> MG_IO_SIZE \<le> io_size (block_room alloc io)"
proof -
  obtain r io' where rs: "mg_iobuf_resize (mg_calloc alloc) io MG_IO_SIZE = (r, io')"
    by (cases "mg_iobuf_resize (mg_calloc alloc) io MG_IO_SIZE")
  have io: "io_ok io" "io_align io = MG_IO_SIZE" "io_size io < 2 ^ 62" using assms by (simp_all add: send_ok_def)
  note i = io_resize [OF io(1) rs, unfolded io(2) block_roundup]
  have "send_ok (block_room alloc io) \<and> io_bytes (block_room alloc io) = io_bytes io
      \<and> (alloc MG_IO_SIZE \<longrightarrow> MG_IO_SIZE \<le> io_size (block_room alloc io))"
  proof (cases "io_size io < MG_IO_SIZE")
    case True
    have "length (io_bytes io) \<le> unat MG_IO_SIZE"
      using io(1) True by (simp add: io_bytes_len io_ok_def word_le_nat_alt word_less_nat_alt)
    moreover have "mg_calloc alloc MG_IO_SIZE = alloc MG_IO_SIZE" "MG_IO_SIZE < 2 ^ 62" by (simp_all add: mg_calloc_def MG_IO_SIZE_def)
    ultimately show ?thesis using True rs i io by (cases r) (auto simp: block_room_def send_ok_def)
  qed (use assms in \<open>simp add: block_room_def, simp add: not_less\<close>)
  then show "send_ok (block_room alloc io)" "io_bytes (block_room alloc io) = io_bytes io"
    "alloc MG_IO_SIZE \<Longrightarrow> MG_IO_SIZE \<le> io_size (block_room alloc io)" by blast+
qed

text \<open>The bytes read go behind those in the buffer, always within it; nothing is read only at the end.\<close>

lemma take_in_two:
  assumes "k \<le> n"
  shows "take k d @ take (n - length (take k d)) (drop (length (take k d)) d) = take n d"
proof (cases "length d \<le> k")
  case False
  then show ?thesis using take_add [of k "n - k" d] assms by simp
qed (use assms in simp)

lemma read_block_ok:
  assumes "send_ok io" "\<not> io_size io \<le> io_len io"
  obtains io' f' n where "read_block io f = Some (io', f', n)" "send_ok io'" "prefix (io_bytes io) (io_bytes io')"
    "io_bytes io' @ of_rest f' = io_bytes io @ of_rest f" "n = 0 \<longrightarrow> of_rest f' = []" "n \<noteq> 0 \<longrightarrow> io_bytes io' \<noteq> []"
proof -
  define k where "k = unat (min (io_size io - io_len io) (of_cl f))"
  define s where "s = p_read f k"
  have k: "k \<le> unat (io_size io - io_len io)" "k \<le> unat (of_cl f)" by (simp_all add: k_def min_def word_le_nat_alt)
  have "io_size io - io_len io \<noteq> 0" using assms(2) by auto
  then have room: "0 < unat (io_size io - io_len io)" by (simp add: unat_gt_0)
  have l: "length s \<le> k" by (simp add: s_def p_read_def)
  have io: "io_ok io" "length s \<le> unat (io_size io - io_len io)" using assms(1) k l by (simp_all add: send_ok_def)
  obtain b where b: "mem_write (io_buf io) (unat (io_len io)) s = Some b"
    "io_ok (io\<lparr>io_buf := b, io_len := io_len io + word_of_nat (length s)\<rparr>)"
    "io_bytes (io\<lparr>io_buf := b, io_len := io_len io + word_of_nat (length s)\<rparr>) = io_bytes io @ s"
    by (rule io_behind [OF io])
  let ?n = "word_of_nat (length s) :: u64"
  have u: "unat ?n = length s" using l k unsigned_less [where 'a = nat, of "of_cl f"] by (intro unat_small) simp
  then have "unat (of_cl f - ?n) = unat (of_cl f) - length s"
    using l k by (subst unat_sub) (simp_all add: word_le_nat_alt del: unsigned_of_nat)
  then have rest: "s @ of_rest (f\<lparr>of_pos := of_pos f + length s, of_cl := of_cl f - ?n\<rparr>) = of_rest f"
    using take_in_two [OF k(2), of "drop (of_pos f) (of_data f)"]
    by (simp add: of_rest_def s_def p_read_def add.commute)
  have z: "?n = 0 \<longleftrightarrow> s = []" using u by (metis length_0_conv unsigned_0 word_unat_eq_iff)
  have "of_rest f = []" if "s = []"
    using that room k_def by (auto simp: s_def p_read_def of_rest_def min_def unat_eq_0 split: if_splits)
  then show ?thesis
    using assms b rest z
    by (intro that [of "io\<lparr>io_buf := b, io_len := io_len io + ?n\<rparr>"]) (auto simp: read_block_def Let_def k_def s_def send_ok_def)
qed

section \<open>An event\<close>

definition file_view :: "nat \<Rightarrow> 'u streams \<Rightarrow> open_file option" where
  "file_view a s = st_files s a"

text \<open>A connection and its file replaced.\<close>

definition set_spot :: "nat \<Rightarrow> net_conn \<Rightarrow> open_file option \<Rightarrow> 'u streams mgr \<Rightarrow> 'u streams mgr" where
  "set_spot a c fo m = put_file a fo (m\<lparr>mg_conns := (mg_conns m)(a \<mapsto> c)\<rparr>)"

lemma set_spot_simps [simp]:
  "mg_conns (set_spot a c fo m) = (mg_conns m)(a \<mapsto> c)" "st_files (mg_user (set_spot a c fo m)) = (st_files (mg_user m))(a := fo)"
  "mg_list (set_spot a c fo m) = mg_list m" "mg_nextid (set_spot a c fo m) = mg_nextid m" "mg_done (set_spot a c fo m) = mg_done m"
  by (simp_all add: set_spot_def put_file_def)

lemma set_spot_spot [simp]:
  "spot file_view a (set_spot a c fo m) = (Some c, fo)"
  "b \<noteq> a \<Longrightarrow> spot file_view b (set_spot a c fo m) = spot file_view b m"
  by (simp_all add: spot_def file_view_def)

text \<open>What polling a connection with a file, or telling it of a write, does.\<close>

definition filled :: "bool \<Rightarrow> net_conn \<Rightarrow> open_file option \<Rightarrow> net_conn \<Rightarrow> open_file option \<Rightarrow> bool" where
  "filled mem c fo d fo' \<longleftrightarrow>
     (\<exists>io r. d = c\<lparr>nc_send := io, nc_is_resp := r\<rparr> \<and> send_ok io \<and> prefix (io_bytes (nc_send c)) (io_bytes io)
        \<and> io_bytes io @ rest_of fo' = io_bytes (nc_send c) @ rest_of fo
        \<and> (fo' = None \<longrightarrow> \<not> r) \<and> (mem \<longrightarrow> fo' \<noteq> None \<longrightarrow> io_bytes io \<noteq> []))"

lemma static_cb_fills:
  assumes "mg_conns m a = Some c" "st_files (mg_user m) a = Some f" "send_ok (nc_send c)" "ev = Net_write \<or> ev = Net_poll"
  obtains d fo where "static_cb alloc f ev a m = set_spot a d fo m" "filled (alloc MG_IO_SIZE) c (Some f) d fo"
proof -
  define io where "io = block_room alloc (nc_send c)"
  note i = block_room_ok [OF assms(3), of alloc, folded io_def]
  have same: "put_file a (Some f) m = m" if "st_files (mg_user m) a = Some f" for m :: "'a streams mgr"
    using that by (simp add: put_file_def fun_upd_idem)
  show ?thesis
  proof (cases "io_size io \<le> io_len io")
    case True
    then have r: "read_block io f = None" by (simp add: read_block_def)
    have "static_cb alloc f ev a m = set_spot a (c\<lparr>nc_send := io\<rparr>) (Some f) m"
      using assms r by (auto simp: static_cb_def io_def [symmetric] Let_def upd_def set_spot_def same)
    moreover have "io_bytes io \<noteq> []" if "alloc MG_IO_SIZE"
    proof -
      have "MG_IO_SIZE \<le> io_len io" using i(3) [OF that] True by simp
      then have "0 < unat (io_len io)" by (simp add: word_le_nat_alt MG_IO_SIZE_def)
      with i(1) io_bytes_len [of io] show ?thesis by (auto simp: send_ok_def)
    qed
    ultimately show ?thesis
      using i by (intro that [of "c\<lparr>nc_send := io\<rparr>" "Some f"])
        (auto simp: filled_def intro!: exI [of _ io] exI [of _ "nc_is_resp c"])
  next
    case False
    obtain io' f' n where b: "read_block io f = Some (io', f', n)" "send_ok io'" "prefix (io_bytes io) (io_bytes io')"
      "io_bytes io' @ of_rest f' = io_bytes io @ of_rest f" "n = 0 \<longrightarrow> of_rest f' = []" "n \<noteq> 0 \<longrightarrow> io_bytes io' \<noteq> []"
      by (rule read_block_ok [OF i(1) False, of f])
    let ?fo = "if n = 0 then None else Some f'" and ?d = "c\<lparr>nc_send := io', nc_is_resp := n \<noteq> 0 \<and> nc_is_resp c\<rparr>"
    have "static_cb alloc f ev a m = set_spot a ?d ?fo m"
      using assms b(1) by (auto simp: static_cb_def io_def [symmetric] Let_def upd_def set_spot_def put_file_def restore_http_cb_def)
    moreover have "filled (alloc MG_IO_SIZE) c (Some f) ?d ?fo"
      using b i unfolding filled_def by (intro exI [of _ io'] exI [of _ "n \<noteq> 0 \<and> nc_is_resp c"]) (auto simp: rest_of_def)
    ultimately show ?thesis by (rule that)
  qed
qed

lemma filled_handled: "conn_ok c \<Longrightarrow> filled mem c fo d fo' \<Longrightarrow> handled c d"
  by (auto simp: filled_def handled_def conn_grows_def conn_ok_def send_ok_def nc_out_def)

text \<open>What \<open>static_cb\<close> does on any event: to its own connection and file only.\<close>

lemma static_cb_effect:
  assumes "mgr_ok m" "mg_conns m a = Some c" "st_files (mg_user m) a = Some f"
  obtains d fo where "static_cb alloc f ev a m = set_spot a d fo m" "handled c d"
proof -
  have ok: "conn_ok c" using assms conn_of_ok by blast
  have refl: "handled c c" using ok by (simp add: handled_def conn_grows_refl)
  consider "ev = Net_write \<or> ev = Net_poll" | "ev = Net_close" | "ev \<noteq> Net_write" "ev \<noteq> Net_poll" "ev \<noteq> Net_close" by blast
  then show ?thesis
  proof cases
    case 1
    show ?thesis
      by (rule static_cb_fills [OF assms(2,3) conn_send_ok [OF ok] 1, of alloc]) (blast intro: that filled_handled [OF ok])
  next
    case 2
    have "static_cb alloc f ev a m = set_spot a (c\<lparr>nc_is_resp := False\<rparr>) None m"
      using assms 2 by (simp add: static_cb_def restore_http_cb_def upd_def put_file_def set_spot_def)
    moreover have "handled c (c\<lparr>nc_is_resp := False\<rparr>)" using ok by (simp add: handled_def conn_grows_def conn_ok_def nc_out_def)
    ultimately show ?thesis by (rule that)
  next
    case 3
    then have "static_cb alloc f ev a m = set_spot a c (Some f) m"
      using assms by (simp add: static_cb_def set_spot_def put_file_def fun_upd_idem)
    then show ?thesis using refl by (rule that)
  qed
qed

interpretation streamed: local_handler "file_net alloc fn" file_view for alloc fn
proof
  fix m :: "'a streams mgr" and ev a b
  have none: "static_cb alloc f ev a m = m" if "mg_conns m a = None" for f using that by (simp add: static_cb_def)
  show "b \<noteq> a \<Longrightarrow> spot file_view b (file_net alloc fn ev a m) = spot file_view b m"
  proof (cases "st_files (mg_user m) a")
    case (Some f)
    assume "b \<noteq> a"
    with Some show ?thesis
      by (cases "mg_conns m a")
        (auto simp: file_net_def none static_cb_def spot_def file_view_def Let_def upd_def restore_http_cb_def put_file_def split: option.split)
  qed (simp add: file_net_def http_net_def spot_def file_view_def Let_def split: option.split)
  assume ok: "mgr_ok m"
  have refl: "rel_option handled (mg_conns m b) (mg_conns m b)"
    using ok by (intro option.rel_refl_strong) (auto simp: handled_def conn_grows_refl conn_of_ok)
  have "mg_list (file_net alloc fn ev a m) = mg_list m \<and> mg_nextid (file_net alloc fn ev a m) = mg_nextid m
      \<and> mg_done (file_net alloc fn ev a m) = mg_done m \<and> rel_option handled (mg_conns m b) (mg_conns (file_net alloc fn ev a m) b)"
  proof (cases "st_files (mg_user m) a")
    case None
    let ?m = "m\<lparr>mg_user := (mg_user m)\<lparr>st_opened := None\<rparr>\<rparr>"
    have "mgr_ok ?m" using ok by (simp add: mgr_ok_def)
    from http.keeps [OF this] http.handles [OF this] None show ?thesis by (simp add: file_net_def Let_def)
  next
    case (Some f)
    show ?thesis
    proof (cases "mg_conns m a")
      case None
      then show ?thesis using Some refl by (simp add: file_net_def none)
    next
      case (Some c)
      obtain d fo where "static_cb alloc f ev a m = set_spot a d fo m" "handled c d"
        by (rule static_cb_effect [OF ok Some \<open>st_files (mg_user m) a = Some f\<close>])
      then show ?thesis using Some \<open>st_files (mg_user m) a = Some f\<close> refl by (simp add: file_net_def)
    qed
  qed
  then show "mg_list (file_net alloc fn ev a m) = mg_list m \<and> mg_nextid (file_net alloc fn ev a m) = mg_nextid m
      \<and> mg_done (file_net alloc fn ev a m) = mg_done m"
    "rel_option handled (mg_conns m b) (mg_conns (file_net alloc fn ev a m) b)" by blast+
qed

section \<open>A turn\<close>

text \<open>A connection with nothing left to receive, which has sent or is still to send T.\<close>

definition sends :: "string \<Rightarrow> net_conn \<Rightarrow> open_file option \<Rightarrow> bool" where
  "sends T c fo \<longleftrightarrow> \<not> nc_is_draining c \<and> \<not> nc_is_closing c \<and> \<not> nc_is_listening c \<and> io_bytes (nc_recv c) = []
     \<and> nc_out c @ rest_of fo = T \<and> (fo = None \<longrightarrow> \<not> nc_is_resp c)"

definition sending :: "string \<Rightarrow> net_conn \<Rightarrow> open_file option \<Rightarrow> bool" where
  "sending T c fo \<longleftrightarrow> sends T c fo \<and> (fo \<noteq> None \<longrightarrow> io_bytes (nc_send c) \<noteq> [])"

lemma idle_event:
  assumes "mg_conns m a = Some c" "st_files (mg_user m) a = None" "io_bytes (nc_recv c) = []" "ev = Net_poll \<or> ev = Net_read \<or> ev = Net_write"
  shows "spot file_view a (file_net alloc fn ev a m) = (Some c, None)"
proof -
  have "hc_recv (http_view c u) = []" for u :: "'a streams" using assms(3) by (simp add: http_view_def)
  then have cb: "http_cb (with_file fn) x y (http_event ev) (http_view c u) = Some (http_view c u)" for u x y
    using assms(4) by (auto simp: http_cb_def http_event_def http_rounds.simps)
  have "io_put (nc_recv c) (hc_recv (http_view c u)) = nc_recv c" for u :: "'a streams" by (simp add: http_view_def io_put_same)
  with assms cb show ?thesis
    by (auto simp: file_net_def http_net_def spot_def file_view_def Let_def) (simp_all add: http_view_def mg_send_def)
qed

lemma sending_event:
  assumes "mgr_ok m" "spot file_view a m = (Some c, fo)" "sends T c fo" "alloc MG_IO_SIZE" "ev = Net_poll \<or> ev = Net_write"
  obtains d fo' where "spot file_view a (file_net alloc fn ev a m) = (Some d, fo')" "sending T d fo'"
    "nc_id d = nc_id c" "nc_wire d = nc_wire c" "nc_is_readable d = nc_is_readable c" "nc_is_writable d = nc_is_writable c"
    "prefix (io_bytes (nc_send c)) (io_bytes (nc_send d))" "fo = None \<longrightarrow> d = c"
proof -
  have c: "mg_conns m a = Some c" "st_files (mg_user m) a = fo" using assms(2) by (simp_all add: spot_def file_view_def)
  show ?thesis
  proof (cases fo)
    case None
    have "spot file_view a (file_net alloc fn ev a m) = (Some c, None)"
      using c None assms(3,5) by (intro idle_event) (auto simp: sends_def)
    then show ?thesis using None assms(3) by (intro that [of c None]) (simp_all add: sending_def)
  next
    case (Some f)
    have ok: "send_ok (nc_send c)" using conn_of_ok [OF assms(1) c(1)] by (rule conn_send_ok)
    obtain d fo' where d: "static_cb alloc f ev a m = set_spot a d fo' m" "filled (alloc MG_IO_SIZE) c (Some f) d fo'"
      by (rule static_cb_fills [OF c(1) _ ok, of f ev alloc]) (use c(2) Some assms(5) in auto)
    then have "spot file_view a (file_net alloc fn ev a m) = (Some d, fo')" using c(2) Some by (simp add: file_net_def)
    moreover have "sending T d fo'" using d(2) assms(3,4) Some by (auto simp: filled_def sending_def sends_def nc_out_def)
    ultimately show ?thesis using d(2) Some by (intro that [of d fo']) (auto simp: filled_def)
  qed
qed

lemma read_unheard:
  assumes "spot file_view a m = (Some c, fo)" "sends T c fo"
  shows "spot file_view a (file_net alloc fn Net_read a m) = (Some c, fo)"
proof (cases fo)
  case None
  then show ?thesis using assms idle_event [of m a c Net_read alloc fn] by (simp add: spot_def file_view_def sends_def)
qed (use assms in \<open>simp add: spot_def file_view_def file_net_def static_cb_def\<close>)

lemma sending_turn:
  assumes ok: "mgr_ok m" and c: "spot file_view a m = (Some c, fo)" "sending T c fo" "\<not> nc_is_readable c"
      "nc_is_writable c \<longleftrightarrow> 0 < io_len (nc_send c)"
    and v: "v_tx v = Tx_sent k" "0 < k" and al: "alloc MG_IO_SIZE" and m': "poll_conn (file_net alloc fn) v a m = Some m'"
  shows "\<exists>d fo'. spot file_view a m' = (Some d, fo') \<and> sending T d fo' \<and> nc_id d = nc_id c
    \<and> (nc_wire d = T \<or> length (nc_wire c) < length (nc_wire d))"
proof -
  let ?call = "file_net alloc fn"
  define m1 where "m1 = ?call Net_poll a m"
  have s: "sends T c fo" using c(2) by (simp add: sending_def)
  obtain c1 fo1 where c1: "spot file_view a m1 = (Some c1, fo1)" "sending T c1 fo1" "nc_id c1 = nc_id c" "nc_wire c1 = nc_wire c"
    "nc_is_readable c1 = nc_is_readable c" "nc_is_writable c1 = nc_is_writable c" "prefix (io_bytes (nc_send c)) (io_bytes (nc_send c1))" "fo = None \<longrightarrow> c1 = c"
    unfolding m1_def by (rule sending_event [where ev = Net_poll and alloc = alloc, OF ok c(1) s al]) simp_all
  have ok1: "mgr_ok m1" unfolding m1_def by (rule grows_ok [OF ok streamed.call_grows [OF ok]])
  define resp where "resp m \<longleftrightarrow> (case mg_conns m a of Some c \<Rightarrow> nc_is_resp c | None \<Rightarrow> False)" for m :: "'a streams mgr"
  define m2 where "m2 = (if resp m \<and> \<not> resp m1 then ?call Net_read a m1 else m1)"
  have s1: "sends T c1 fo1" using c1(2) by (simp add: sending_def)
  have c2: "spot file_view a m2 = (Some c1, fo1)" unfolding m2_def using read_unheard [OF c1(1) s1] c1(1) by simp
  have ok2: "mgr_ok m2" unfolding m2_def using ok1 grows_ok [OF ok1 streamed.call_grows [OF ok1]] by simp
  have p: "poll_conn ?call v a m = (case poll_io ?call v a m2 of None \<Rightarrow> None | Some m3 \<Rightarrow>
      (let m4 = upd a (\<lambda>c. if nc_is_draining c \<and> io_len (nc_send c) = 0 then c\<lparr>nc_is_closing := True\<rparr> else c) m3
       in case mg_conns m4 a of None \<Rightarrow> None | Some c \<Rightarrow> Some (if nc_is_closing c then close_conn ?call a m4 else m4)))"
    unfolding poll_conn_def Let_def resp_def m2_def m1_def by (rule refl)
  have fin: "\<exists>d fo'. spot file_view a m' = (Some d, fo') \<and> sending T d fo' \<and> nc_id d = nc_id c
      \<and> (nc_wire d = T \<or> length (nc_wire c) < length (nc_wire d))"
    if "poll_io ?call v a m2 = Some m3" "spot file_view a m3 = (Some d, fo')" "sending T d fo'" "nc_id d = nc_id c"
      "nc_wire d = T \<or> length (nc_wire c) < length (nc_wire d)" for m3 d fo'
    using that m' by (auto simp: p spot_def upd_def sending_def sends_def)
  have m2: "mg_conns m2 a = Some c1" "\<not> nc_is_closing c1" "\<not> nc_is_listening c1" using c2 s1 by (simp_all add: spot_def sends_def)
  have send: "io_ok (nc_send c)" "io_ok (nc_send c1)"
    using conn_of_ok [OF ok, of a c] conn_of_ok [OF ok2 m2(1)] c(1) by (simp_all add: spot_def conn_ok_def)
  show ?thesis
  proof (cases "io_bytes (nc_send c) = []")
    case True
    then have "fo = None" "c1 = c" using c(2) c1(8) by (auto simp: sending_def)
    moreover have "io_len (nc_send c) = 0" using io_len_empty [OF send(1)] True by simp
    ultimately have "poll_io ?call v a m2 = Some m2" using m2 c(3,4) by (simp add: poll_io_def)
    moreover have "nc_wire c1 = T" using s \<open>fo = None\<close> True c1(4) by (simp add: sends_def nc_out_def rest_of_def)
    ultimately show ?thesis using c2 c1(2,3) by (intro fin [of m2 c1 fo1]) simp_all
  next
    case False
    then have b: "io_bytes (nc_send c1) \<noteq> []" using c1(7) by auto
    obtain io where io: "io_ok io" "io_bytes io = drop k (io_bytes (nc_send c1))"
      "write_conn ?call (Tx_sent k) a m2 = Some (?call Net_write a
         (upd a (\<lambda>c. c\<lparr>nc_send := io, nc_wire := nc_wire c @ take k (io_bytes (nc_send c1))\<rparr>) m2))"
      "grows m2 (upd a (\<lambda>c. c\<lparr>nc_send := io, nc_wire := nc_wire c @ take k (io_bytes (nc_send c1))\<rparr>) m2)"
      by (rule streamed.write_some [OF ok2 m2(1) b v(2)])
    define m3 where "m3 = upd a (\<lambda>c. c\<lparr>nc_send := io, nc_wire := nc_wire c @ take k (io_bytes (nc_send c1))\<rparr>) m2"
    let ?c = "c1\<lparr>nc_send := io, nc_wire := nc_wire c1 @ take k (io_bytes (nc_send c1))\<rparr>"
    have c3: "spot file_view a m3 = (Some ?c, fo1)" using c2 by (simp add: m3_def spot_def upd_def)
    have s3: "sends T ?c fo1" using s1 io(2) by (simp add: sends_def nc_out_def)
    have ok3: "mgr_ok m3" unfolding m3_def by (rule grows_ok [OF ok2 io(4)])
    obtain d fo' where d: "spot file_view a (?call Net_write a m3) = (Some d, fo')" "sending T d fo'" "nc_id d = nc_id ?c" "nc_wire d = nc_wire ?c"
      by (rule sending_event [where ev = Net_write and alloc = alloc, OF ok3 c3 s3 al]) simp_all
    have "nc_is_writable c1" using c1(6) c(4) False io_len_empty [OF send(1)] by (simp add: word_gt_0)
    then have "poll_io ?call v a m2 = Some (?call Net_write a m3)" using m2 c1(5) c(3) io(3) v(1) by (simp add: poll_io_def m3_def)
    moreover have "length (nc_wire c) < length (nc_wire d)" using d(4) b v(2) c1(4) by (simp add: min_def)
    ultimately show ?thesis using d c1(3) by (intro fin [of "?call Net_write a m3" d fo']) simp_all
  qed
qed

lemma poll_sending:
  assumes full: "mgr_full m" and small: "unat (mg_nextid m) < 2 ^ 63" and slot: "\<And>b l x. v_slot (vs b) l = Some x \<Longrightarrow> x \<notin> set l"
    and d: "spot file_view a m = (Some d, fo)" "sending T d fo"
    and k: "evs a = Some (False, False, True)" "v_tx (vs a) = Tx_sent k" "0 < k" and al: "alloc MG_IO_SIZE"
    and m': "mg_mgr_poll (file_net alloc fn) evs vs m = Some m'"
  shows "\<exists>e fo'. spot file_view a m' = (Some e, fo') \<and> sending T e fo' \<and> nc_id e = nc_id d
    \<and> (nc_wire e = T \<or> length (nc_wire d) < length (nc_wire e))"
proof -
  have num: "unat (mg_nextid m) + length (mg_list m) < 2 ^ 64" using few_conns [OF full] small by simp
  have da: "mg_conns m a = Some d" "file_view a (mg_user m) = fo" using d(1) by (simp_all add: spot_def)
  let ?d = "d\<lparr>nc_is_readable := False, nc_is_writable := 0 < io_len (nc_send d)\<rparr>"
  obtain m1 m2 where m1: "mgr_ok m1" "spot file_view a m1 = (Some ?d, file_view a (mg_user m))"
    and m2: "poll_conn (file_net alloc fn) (vs a) a m1 = Some m2"
    and same: "\<forall>d. mg_conns m2 a = Some d \<longrightarrow> spot file_view a m' = spot file_view a m2"
    by (rule streamed.poll_at [where vs = vs and evs = evs, OF full slot num da(1) k(1) m'])
  have "sending T ?d fo" using d(2) by (simp add: sending_def sends_def nc_out_def)
  then obtain e fo' where "spot file_view a m2 = (Some e, fo')" "sending T e fo'" "nc_id e = nc_id d"
    "nc_wire e = T \<or> length (nc_wire d) < length (nc_wire e)"
    using sending_turn [where T = T and k = k, OF m1(1) m1(2) [unfolded da(2)] _ _ _ k(2,3) al m2] by auto
  moreover from this(1) have "spot file_view a m' = (Some e, fo')" using same by (simp add: spot_def)
  ultimately show ?thesis by blast
qed

section \<open>Properties\<close>

text \<open>C11: A file that is served is sent, all of it and nothing else. A connection with a file to stream (its reply's head is in the
  send buffer) has, after at most as many turns of the loop as there are bytes to send, given the kernel
  exactly the head and then the part of the file that was asked for, in order; its file is closed, and it takes requests
  again. What is needed: memory for one block, the kernel takes at least a byte at each turn, and the
  client sends nothing meanwhile. The other connections may do anything. (When the file turns out to be shorter than
  its size was, less than the announced length is sent, and the connection is kept as if all was well.)\<close>

theorem file_sent_completely:
  assumes run: "\<And>i. i < n \<Longrightarrow> mg_mgr_poll (file_net alloc fn) (evs i) (vs i) (st i) = Some (st (Suc i))"
    and m: "mgr_full (st 0)" "\<And>i. i < n \<Longrightarrow> unat (mg_nextid (st i)) < 2 ^ 63" "\<And>i b l x. v_slot (vs i b) l = Some x \<Longrightarrow> x \<notin> set l"
    and c: "mg_conns (st 0) a = Some c" "\<not> nc_is_draining c" "\<not> nc_is_closing c" "\<not> nc_is_listening c"
      "io_bytes (nc_recv c) = []" "io_bytes (nc_send c) \<noteq> []"
    and f: "st_files (mg_user (st 0)) a = Some f" "alloc MG_IO_SIZE"
    and kernel: "\<And>i. i < n \<Longrightarrow> evs i a = Some (False, False, True) \<and> (\<exists>k > 0. v_tx (vs i a) = Tx_sent k)"
    and n: "n = length (io_bytes (nc_send c)) + length (take (unat (of_cl f)) (drop (of_pos f) (of_data f)))"
  shows "\<exists>d. mg_conns (st n) a = Some d \<and> nc_id d = nc_id c
     \<and> nc_wire d = nc_wire c @ io_bytes (nc_send c) @ take (unat (of_cl f)) (drop (of_pos f) (of_data f))
     \<and> io_bytes (nc_send d) = [] \<and> st_files (mg_user (st n)) a = None \<and> \<not> nc_is_resp d"
proof -
  define T where "T = nc_out c @ of_rest f"
  have full: "mgr_full (st i)" if "i \<le> n" for i
    by (rule streamed.run_full [where vs = vs, OF run m that])
  have "\<exists>d fo. spot file_view a (st i) = (Some d, fo) \<and> sending T d fo \<and> nc_id d = nc_id c
      \<and> (nc_wire d = T \<or> length (nc_wire c) + i \<le> length (nc_wire d))" if "i \<le> n" for i
    using that
  proof (induction i)
    case 0
    then show ?case using m(1) c f by (auto simp: spot_def file_view_def sending_def sends_def T_def rest_of_def)
  next
    case (Suc i)
    then have i: "i < n" "mgr_full (st i)" using full by simp_all
    obtain d fo where d: "spot file_view a (st i) = (Some d, fo)" "sending T d fo" "nc_id d = nc_id c"
      "nc_wire d = T \<or> length (nc_wire c) + i \<le> length (nc_wire d)" using Suc by auto
    obtain k where k: "0 < k" "evs i a = Some (False, False, True)" "v_tx (vs i a) = Tx_sent k" using kernel [OF i(1)] by blast
    have slot: "v_slot (vs i b) l = Some x \<Longrightarrow> x \<notin> set l" for b l x by (rule m(3))
    obtain e fo' where "spot file_view a (st (Suc i)) = (Some e, fo')" "sending T e fo'" "nc_id e = nc_id d"
      "nc_wire e = T \<or> length (nc_wire d) < length (nc_wire e)"
      using poll_sending [where vs = "vs i" and evs = "evs i", OF i(2) m(2) [OF i(1)] _ d(1,2) k(2,3,1) f(2) run [OF i(1)]] slot by blast
    moreover from this(2) have "length (nc_wire e) \<le> length T" by (auto simp: sending_def sends_def nc_out_def)
    ultimately show ?case using d(3,4) by (intro exI [of _ e] exI [of _ fo']) auto
  qed
  from this [OF order.refl] obtain d fo where d: "spot file_view a (st n) = (Some d, fo)" "sending T d fo" "nc_id d = nc_id c"
    "nc_wire d = T \<or> length (nc_wire c) + n \<le> length (nc_wire d)" by auto
  have l: "length T = length (nc_wire c) + n" using n by (simp add: T_def nc_out_def of_rest_def)
  have t: "nc_wire d @ io_bytes (nc_send d) @ rest_of fo = T" using d(2) by (simp add: sending_def sends_def nc_out_def)
  have "length T \<le> length (nc_wire d)" using d(4) l by auto
  with arg_cong [OF t, of length] have "length (io_bytes (nc_send d) @ rest_of fo) = 0" unfolding length_append by linarith
  then have w: "nc_wire d = T \<and> io_bytes (nc_send d) = []" using t by simp
  then have "fo = None" using d(2) by (auto simp: sending_def)
  then show ?thesis using d w by (intro exI [of _ d]) (simp add: spot_def file_view_def sending_def sends_def T_def nc_out_def of_rest_def)
qed

text \<open>A reply's head of two bytes and a file of three, of which two are asked for; the kernel takes a byte at a turn.\<close>

definition three_bytes :: open_file where
  "three_bytes = \<lparr>of_data = ''xyz'', of_pos = 1, of_cl = 2\<rparr>"

definition file_conn :: "unit streams mgr" where
  "file_conn = \<lparr>mg_list = [0], mg_conns = [0 \<mapsto> two_bytes\<lparr>nc_is_draining := False, nc_is_resp := True\<rparr>], mg_nextid = 1,
     mg_user = \<lparr>st_user = (), st_opened = None, st_files = [0 \<mapsto> three_bytes]\<rparr>, mg_done = []\<rparr>"

definition no_reply :: "unit opener" where
  "no_reply x r u = (([], r, u), None)"

primrec file_turns :: "nat \<Rightarrow> unit streams mgr" where
  "file_turns 0 = file_conn"
| "file_turns (Suc i) = (case mg_mgr_poll (file_net (\<lambda>n. True) no_reply) (\<lambda>a. Some (False, False, True)) one_byte (file_turns i) of
     Some m \<Rightarrow> m | None \<Rightarrow> file_turns i)"

lemma file_turns_run:
  "i \<le> 4 \<Longrightarrow> mgr_full (file_turns i) \<and> unat (mg_nextid (file_turns i)) \<le> 2 ^ i"
  "i < 4 \<Longrightarrow> mg_mgr_poll (file_net (\<lambda>n. True) no_reply) (\<lambda>a. Some (False, False, True)) one_byte (file_turns i) = Some (file_turns (Suc i))"
proof -
  have step: "mg_mgr_poll (file_net (\<lambda>n. True) no_reply) (\<lambda>a. Some (False, False, True)) one_byte (file_turns i) = Some (file_turns (Suc i))
      \<and> mgr_full (file_turns (Suc i)) \<and> unat (mg_nextid (file_turns (Suc i))) \<le> 2 * unat (mg_nextid (file_turns i))"
    if "mgr_full (file_turns i)" "unat (mg_nextid (file_turns i)) < 2 ^ 63" for i
    by (rule streamed.poll_goes_on [OF that, of one_byte "\<lambda>n. True" no_reply "\<lambda>a. Some (False, False, True)"]) (simp_all add: one_byte_def)
  have small: "unat (mg_nextid m) < 2 ^ 63" if "unat (mg_nextid m) \<le> 2 ^ i" "i \<le> 4" for i and m :: "unit streams mgr"
    using that power_increasing [of i 4 "2 :: nat"] by simp
  have full: "mgr_full (file_turns i) \<and> unat (mg_nextid (file_turns i)) \<le> 2 ^ i" if "i \<le> 4" for i
    using that
  proof (induction i)
    case 0
    have "conn_ok (two_bytes\<lparr>nc_is_draining := False, nc_is_resp := True\<rparr>)" using two_bytes_ok(1) by (simp add: conn_ok_def)
    then show ?case using two_bytes_ok(3) by (simp add: file_conn_def mgr_full_def mgr_ok_def)
  next
    case (Suc i)
    then show ?case using step [of i] small [of "file_turns i" i] by simp
  qed
  show "i \<le> 4 \<Longrightarrow> mgr_full (file_turns i) \<and> unat (mg_nextid (file_turns i)) \<le> 2 ^ i" by (rule full)
  show "i < 4 \<Longrightarrow> mg_mgr_poll (file_net (\<lambda>n. True) no_reply) (\<lambda>a. Some (False, False, True)) one_byte (file_turns i) = Some (file_turns (Suc i))"
    using step [of i] full [of i] small [of "file_turns i" i] by simp
qed

theorem file_sent_completely_witness:
  "\<exists>d. mg_conns (file_turns 4) 0 = Some d \<and> nc_wire d = ''abyz'' \<and> st_files (mg_user (file_turns 4)) 0 = None"
proof -
  let ?c = "two_bytes\<lparr>nc_is_draining := False, nc_is_resp := True\<rparr>"
  have b: "unat (mg_nextid (file_turns i)) < 2 ^ 63" if "i < 4" for i
    using file_turns_run(1) [of i] that power_increasing [of i 4 "2 :: nat"] by simp
  have c: "mg_conns (file_turns 0) 0 = Some ?c" "st_files (mg_user (file_turns 0)) 0 = Some three_bytes" by (simp_all add: file_conn_def)
  have "io_bytes (nc_recv ?c) = []" by (simp add: two_bytes_def new_conn_def io_bytes_def Let_def)
  then have "\<exists>d. mg_conns (file_turns 4) 0 = Some d \<and> nc_id d = nc_id ?c
     \<and> nc_wire d = nc_wire ?c @ io_bytes (nc_send ?c) @ take (unat (of_cl three_bytes)) (drop (of_pos three_bytes) (of_data three_bytes))
     \<and> io_bytes (nc_send d) = [] \<and> st_files (mg_user (file_turns 4)) 0 = None \<and> \<not> nc_is_resp d"
    by (intro file_sent_completely [where st = file_turns and n = 4 and f = three_bytes and c = ?c, OF file_turns_run(2) _ b _ c(1) _ _ _ _ _ c(2)])
      (use file_turns_run(1) [of 0] in \<open>auto simp: two_bytes_ok one_byte_def three_bytes_def\<close>)
  then show ?thesis by (auto simp: two_bytes_ok three_bytes_def)
qed

end
