(* ===== verification/MgUrl.thy ===== *)
theory MgUrl
  imports HttpRecv
begin

text \<open>
  mongoose's URLs and addresses (src/crates/mongoose/mongoose.c): \<open>urlparse\<close>, \<open>mg_url_is_ssl\<close>, \<open>mg_url_host\<close>, \<open>mg_url_uri\<close>, \<open>mg_url_port\<close>,
  \<open>mg_url_user\<close>, \<open>mg_url_pass\<close>, \<open>mg_aton\<close> and its parts; and what they make of the address that \<open>main\<close> listens on.
\<close>

section \<open>URLs\<close>

text \<open>Offsets into the text; 0 stands for absent.\<close>

record url =
  u_user :: nat
  u_pass :: nat
  u_host :: nat
  u_port :: nat
  u_uri :: nat
  u_end :: nat

definition no_url :: url where
  "no_url = \<lparr>u_user = 0, u_pass = 0, u_host = 0, u_port = 0, u_uri = 0, u_end = 0\<rparr>"

definition url_step :: "char option \<Rightarrow> nat \<Rightarrow> char \<Rightarrow> url \<Rightarrow> url" where
  "url_step prev i c u =
     (if c = CHR ''/'' \<and> u_host u = 0 \<and> prev = Some (CHR ''/'') then u\<lparr>u_host := i + 1, u_port := 0\<rparr>
      else if c = CHR '']'' then u\<lparr>u_port := 0\<rparr>
      else if c = CHR '':'' \<and> u_port u = 0 \<and> u_uri u = 0 then u\<lparr>u_port := i + 1\<rparr>
      else if c = CHR ''@'' \<and> u_user u = 0 \<and> u_pass u = 0 \<and> u_uri u = 0
        then u\<lparr>u_user := u_host u, u_pass := u_port u, u_host := i + 1, u_port := 0\<rparr>
      else if c = CHR ''/'' \<and> u_host u \<noteq> 0 \<and> u_uri u = 0 then u\<lparr>u_uri := i\<rparr>
      else u)"

fun url_loop :: "char option \<Rightarrow> nat \<Rightarrow> string \<Rightarrow> url \<Rightarrow> url" where
  "url_loop prev i [] u = u\<lparr>u_end := i\<rparr>"
| "url_loop prev i (c # cs) u = url_loop (Some c) (i + 1) cs (url_step prev i c u)"

definition urlparse :: "string \<Rightarrow> url" where
  "urlparse s = url_loop None 0 s no_url"

definition mg_url_is_ssl :: "string \<Rightarrow> bool" where
  "mg_url_is_ssl s \<longleftrightarrow> strncmp_eq s ''wss:'' 4 \<or> strncmp_eq s ''https:'' 6 \<or> strncmp_eq s ''mqtts:'' 6
     \<or> strncmp_eq s ''ssl:'' 4 \<or> strncmp_eq s ''tls:'' 4 \<or> strncmp_eq s ''tcps:'' 5"

definition mg_url_host :: "string \<Rightarrow> string" where
  "mg_url_host s =
     (let u = urlparse s;
          n = (if u_port u \<noteq> 0 then u_port u - u_host u - 1
               else if u_uri u \<noteq> 0 then u_uri u - u_host u else u_end u - u_host u)
      in take n (drop (u_host u) s))"

definition mg_url_uri :: "string \<Rightarrow> string" where
  "mg_url_uri s = (let u = urlparse s in if u_uri u \<noteq> 0 then drop (u_uri u) s else ''/'')"

definition default_port :: "string \<Rightarrow> nat" where
  "default_port s =
     (if strncmp_eq s ''mqtts:'' 6 then 8883
      else if strncmp_eq s ''mqtt:'' 5 then 1883
      else if strncmp_eq s ''wss:'' 4 \<or> strncmp_eq s ''https:'' 6 then 443
      else if strncmp_eq s ''http:'' 5 \<or> strncmp_eq s ''ws:'' 3 then 80
      else 0)"

definition mg_url_port :: "string \<Rightarrow> 16 word" where
  "mg_url_port s =
     (let u = urlparse s
      in if u_port u \<noteq> 0 then word_of_int (atoi (drop (u_port u) s)) else word_of_nat (default_port s))"

definition mg_url_user :: "string \<Rightarrow> string" where
  "mg_url_user s =
     (let u = urlparse s
      in if u_user u \<noteq> 0 \<and> (u_pass u \<noteq> 0 \<or> u_host u \<noteq> 0)
         then take (if u_pass u \<noteq> 0 then u_pass u - u_user u - 1 else u_host u - u_user u - 1) (drop (u_user u) s)
         else [])"

definition mg_url_pass :: "string \<Rightarrow> string" where
  "mg_url_pass s =
     (let u = urlparse s
      in if u_pass u \<noteq> 0 \<and> u_host u \<noteq> 0 then take (u_host u - u_pass u - 1) (drop (u_pass u) s) else [])"

section \<open>Addresses\<close>

text \<open>The bytes in network order, zero before the text is read; \<open>None\<close> when it is not an address.\<close>

record mg_addr =
  a_ip :: "nat list"
  a_scope :: nat
  a_is_ip6 :: bool

definition ip4_addr :: "nat list \<Rightarrow> mg_addr" where
  "ip4_addr ds = \<lparr>a_ip = ds @ replicate 12 0, a_scope = 0, a_is_ip6 = False\<rparr>"

definition mg_atone :: "string \<Rightarrow> mg_addr option" where
  "mg_atone s = (if s = [] then Some (ip4_addr [0, 0, 0, 0]) else None)"

definition mg_atonl :: "string \<Rightarrow> mg_addr option" where
  "mg_atonl s = (if mg_strcasecmp s ''localhost'' = 0 then Some (ip4_addr [127, 0, 0, 1]) else None)"

fun aton4_loop :: "char option \<Rightarrow> string \<Rightarrow> nat list \<Rightarrow> nat \<Rightarrow> nat list option" where
  "aton4_loop prev [] data dots = (if dots \<noteq> 3 \<or> prev = Some (CHR ''.'') then None else Some data)"
| "aton4_loop prev (c # cs) data dots =
     (if isdigit c then
        (let octet = data ! dots * 10 + (byte c - 48)
         in if 255 < octet then None else aton4_loop (Some c) cs (data[dots := octet]) dots)
      else if c = CHR ''.'' then
        (if 3 \<le> dots \<or> prev = None \<or> prev = Some (CHR ''.'') then None else aton4_loop (Some c) cs data (dots + 1))
      else None)"

definition mg_aton4 :: "string \<Rightarrow> mg_addr option" where
  "mg_aton4 s = map_option ip4_addr (aton4_loop None s [0, 0, 0, 0] 0)"

definition mg_v4mapped :: "string \<Rightarrow> mg_addr option" where
  "mg_v4mapped s =
     (if length s < 14 \<or> s ! 0 \<noteq> CHR '':'' \<or> s ! 1 \<noteq> CHR '':'' \<or> s ! 6 \<noteq> CHR '':''
         \<or> \<not> list_all (\<lambda>c. c = CHR ''f'' \<or> c = CHR ''F'') (take 4 (drop 2 s)) then None
      else (case mg_aton4 (drop 7 s) of
              None \<Rightarrow> None
            | Some a \<Rightarrow> Some \<lparr>a_ip = replicate 10 0 @ [255, 255] @ take 4 (a_ip a), a_scope = a_scope a, a_is_ip6 = True\<rparr>))"

text \<open>One group of the address is read again at each of its digits. \<open>dc\<close>: where the double colon was.\<close>

definition put_group :: "nat list \<Rightarrow> nat \<Rightarrow> nat \<Rightarrow> nat list" where
  "put_group ip n v = ip[n := (v div 256) mod 256, n + 1 := v mod 256]"

definition close_gap :: "nat list \<Rightarrow> nat \<Rightarrow> nat \<Rightarrow> nat list" where
  "close_gap ip n dc = take dc ip @ replicate (14 - n) 0 @ take (n - dc + 2) (drop dc ip)"

function aton6_loop :: "string \<Rightarrow> nat \<Rightarrow> nat \<Rightarrow> nat \<Rightarrow> nat option \<Rightarrow> nat list \<Rightarrow> mg_addr option" where
  "aton6_loop s i j n dc ip =
     (if length s \<le> i then
        (if 14 \<le> n then Some \<lparr>a_ip = ip, a_scope = 0, a_is_ip6 = True\<rparr>
         else (case dc of None \<Rightarrow> None | Some d \<Rightarrow> Some \<lparr>a_ip = close_gap ip n d, a_scope = 0, a_is_ip6 = True\<rparr>))
      else if is_hex_digit (s ! i) then
        (if j + 3 < i then None
         else (let v = (case mg_str_to_num (take (i - j + 1) (drop j s)) 16 8 of Some v \<Rightarrow> v | None \<Rightarrow> 0)
               in aton6_loop s (i + 1) j n dc (put_group ip n v)))
      else if s ! i = CHR '':'' then
        (let double = (0 < i \<and> s ! (i - 1) = CHR '':''); n' = (if double then n else if 0 < i then n + 2 else n)
         in if double \<and> 1 < i \<and> s ! (i - 2) = CHR '':'' then None
            else if 14 < n' then None
            else aton6_loop s (i + 1) (i + 1) n' (if double then Some n else dc) (put_group ip n' 0))
      else if s ! i = CHR ''%'' then
        (case mg_str_to_num (drop (i + 1) s) 10 1 of
           Some k \<Rightarrow> Some \<lparr>a_ip = ip, a_scope = k, a_is_ip6 = True\<rparr> | None \<Rightarrow> None)
      else None)"
  by pat_completeness auto
termination
  by (relation "measure (\<lambda>(s, i, j, n, dc, ip). length s - i)") auto

declare aton6_loop.simps [simp del]

definition mg_aton6 :: "string \<Rightarrow> mg_addr option" where
  "mg_aton6 s =
     (let t = (if 2 < length s \<and> s ! 0 = CHR ''['' then take (length s - 2) (drop 1 s) else s)
      in case mg_v4mapped t of
           Some a \<Rightarrow> Some a
         | None \<Rightarrow> aton6_loop t 0 0 0 None (replicate 16 0))"

definition mg_aton :: "string \<Rightarrow> mg_addr option" where
  "mg_aton s =
     (case mg_atone s of Some a \<Rightarrow> Some a
      | None \<Rightarrow> (case mg_atonl s of Some a \<Rightarrow> Some a
        | None \<Rightarrow> (case mg_aton4 s of Some a \<Rightarrow> Some a | None \<Rightarrow> mg_aton6 s)))"

section \<open>What they read\<close>

text \<open>Offsets lie in their order, so that no length is negative.\<close>

definition url_ok :: "nat \<Rightarrow> url \<Rightarrow> bool" where
  "url_ok i u \<longleftrightarrow> u_host u \<le> i \<and> (u_port u \<noteq> 0 \<longrightarrow> u_host u < u_port u \<and> u_port u \<le> i) \<and> (u_uri u \<noteq> 0 \<longrightarrow> u_host u \<le> u_uri u \<and> u_uri u < i)
     \<and> (u_pass u \<noteq> 0 \<longrightarrow> u_pass u < u_host u) \<and> (u_pass u \<noteq> 0 \<longrightarrow> u_user u < u_pass u) \<and> (u_user u \<noteq> 0 \<longrightarrow> u_user u < u_host u)"

lemma url_step_ok: "url_ok i u \<Longrightarrow> (u_uri u \<noteq> 0 \<longrightarrow> u_host u \<noteq> 0) \<Longrightarrow> url_ok (i + 1) (url_step prev i c u)
    \<and> (u_uri (url_step prev i c u) \<noteq> 0 \<longrightarrow> u_host (url_step prev i c u) \<noteq> 0)"
  unfolding url_step_def url_ok_def by (cases "u_port u = 0"; cases "u_uri u = 0"; cases "u_host u = 0") auto

lemma url_loop_ok: "url_ok i u \<Longrightarrow> (u_uri u \<noteq> 0 \<longrightarrow> u_host u \<noteq> 0) \<Longrightarrow> url_ok (i + length s) (url_loop prev i s u)"
proof (induction s arbitrary: prev i u)
  case (Cons c cs)
  then show ?case using url_step_ok [OF Cons.prems, of prev c] Cons.IH [of "i + 1" "url_step prev i c u" "Some c"] by simp
qed (simp add: url_ok_def)

lemma urlparse_ok: "url_ok (length s) (urlparse s)"
  using url_loop_ok [of 0 no_url s None] by (simp add: urlparse_def url_ok_def no_url_def)

lemma url_loop_digits:
  "list_all isdigit cs \<Longrightarrow> u_port u \<noteq> 0 \<Longrightarrow> url_loop prev i cs u = u\<lparr>u_end := i + length cs\<rparr>"
proof (induction cs arbitrary: prev i u)
  case (Cons c cs)
  have "url_step prev i c u = u" using Cons.prems by (auto simp: url_step_def isdigit_def)
  then show ?case using Cons by simp
qed simp

text \<open>A decimal number is read by \<open>atoi\<close>, modulo 2 ^ 32.\<close>

lemma strtol10_nat_str:
  assumes "int n \<le> LONG_MAX"
  shows "fst (strtol10 (nat_str n)) = int n"
proof -
  obtain c cs where c: "nat_str n = c # cs" "isdigit c" using nat_str_hd_digit by blast
  have "takeWhile isdigit (nat_str n) = nat_str n" using takeWhile_digits_nat_str [of "[]" n] by simp
  moreover have "takeWhile isspace (nat_str n) = []" "dropWhile isspace (nat_str n) = nat_str n" "c \<noteq> CHR ''-''" "c \<noteq> CHR ''+''"
    using c isdigit_not_space isdigit_not_sign by auto
  ultimately show ?thesis
    using c(1) assms digits_val_nat_str [of n] unfolding strtol10_def clamp_long_def LONG_MIN_def Let_def by (simp only:) simp
qed

lemma port_text: "n < 2 ^ 31 \<Longrightarrow> word_of_int (atoi (nat_str n)) = (word_of_nat n :: 16 word)"
proof -
  assume n: "n < 2 ^ 31"
  then have "fst (strtol10 (nat_str n)) = int n" by (intro strtol10_nat_str) (simp add: LONG_MAX_def)
  moreover have "sint (word_of_int (int n) :: 32 word) = int n" using n by (subst sint_sbintrunc') (simp add: signed_take_bit_int_eq_self)
  ultimately show ?thesis by (simp add: atoi_def)
qed

lemma url_of_port:
  "mg_url_port (''http://0.0.0.0:'' @ nat_str n) = word_of_int (atoi (nat_str n))"
  "mg_url_host (''http://0.0.0.0:'' @ nat_str n) = ''0.0.0.0''"
proof -
  define v where "v = no_url\<lparr>u_host := 7, u_port := 15\<rparr>"
  have pre: "url_loop None 0 (''http://0.0.0.0:'' @ cs) no_url = url_loop (Some (CHR '':'')) 15 cs v" for cs
    by (simp add: url_step_def no_url_def v_def eval_nat_numeral)
  have u: "urlparse (''http://0.0.0.0:'' @ nat_str n) = v\<lparr>u_end := 15 + length (nat_str n)\<rparr>"
    unfolding urlparse_def pre by (rule url_loop_digits) (simp_all add: nat_str_digits v_def)
  show "mg_url_port (''http://0.0.0.0:'' @ nat_str n) = word_of_int (atoi (nat_str n))"
    unfolding mg_url_port_def u by (simp add: v_def no_url_def numeral_eq_Suc)
  show "mg_url_host (''http://0.0.0.0:'' @ nat_str n) = ''0.0.0.0''"
    unfolding mg_url_host_def u by (simp add: v_def no_url_def numeral_eq_Suc)
qed

lemma any_address: "mg_aton ''0.0.0.0'' = Some (ip4_addr [0, 0, 0, 0])"
  by code_simp

text \<open>An IPv4 address in its usual form.\<close>

lemma digits_val_ge: "acc \<le> digits_val acc cs"
proof (induction cs arbitrary: acc)
  case (Cons c cs)
  have "acc \<le> acc * 10 + digit_val c" by simp
  also have "\<dots> \<le> digits_val (acc * 10 + digit_val c) cs" by (rule Cons)
  finally show ?case by simp
qed simp

lemma aton4_digits:
  "list_all isdigit cs \<Longrightarrow> cs \<noteq> [] \<Longrightarrow> dots < length data \<Longrightarrow> digits_val (data ! dots) cs \<le> 255
    \<Longrightarrow> \<exists>c. isdigit c \<and> aton4_loop prev (cs @ rest) data dots = aton4_loop (Some c) rest (data[dots := digits_val (data ! dots) cs]) dots"
proof (induction cs arbitrary: prev data)
  case (Cons c cs)
  let ?o = "data ! dots * 10 + (byte c - 48)"
  have v: "digit_val c = byte c - 48" by (simp add: digit_val_def)
  have le: "?o \<le> 255" using digits_val_ge [of ?o cs] Cons.prems(4) v by simp
  have s: "aton4_loop prev ((c # cs) @ rest) data dots = aton4_loop (Some c) (cs @ rest) (data[dots := ?o]) dots"
    using Cons.prems(1) le by simp
  show ?case
  proof (cases "cs = []")
    case True
    then show ?thesis using s Cons.prems v by auto
  next
    case False
    then show ?thesis using Cons.IH [of "data[dots := ?o]" "Some c"] Cons.prems s v by simp
  qed
qed simp

lemma aton4_octet:
  assumes "dots < length data" "data ! dots = 0" "n \<le> 255"
  obtains c where "isdigit c" "aton4_loop prev (nat_str n @ rest) data dots = aton4_loop (Some c) rest (data[dots := n]) dots"
  using aton4_digits [of "nat_str n" dots data prev rest] assms nat_str_digits [of n] digits_val_nat_str [of n] by auto

lemma aton4_dot: "isdigit c \<Longrightarrow> dots < 3 \<Longrightarrow> aton4_loop (Some c) (CHR ''.'' # rest) data dots = aton4_loop (Some (CHR ''.'')) rest data (dots + 1)"
  by (auto simp: isdigit_def)

lemma aton4_dotted:
  assumes "a \<le> 255" "b \<le> 255" "c \<le> 255" "d \<le> 255"
  shows "mg_aton4 (nat_str a @ ''.'' @ nat_str b @ ''.'' @ nat_str c @ ''.'' @ nat_str d) = Some (ip4_addr [a, b, c, d])"
proof -
  obtain x where x: "isdigit x" "aton4_loop None (nat_str a @ ''.'' @ nat_str b @ ''.'' @ nat_str c @ ''.'' @ nat_str d) [0, 0, 0, 0] 0
      = aton4_loop (Some x) (''.'' @ nat_str b @ ''.'' @ nat_str c @ ''.'' @ nat_str d) [a, 0, 0, 0] 0"
    by (rule aton4_octet [of 0 "[0, 0, 0, 0]" a None "''.'' @ nat_str b @ ''.'' @ nat_str c @ ''.'' @ nat_str d"]) (use assms in auto)
  obtain y where y: "isdigit y" "aton4_loop (Some (CHR ''.'')) (nat_str b @ ''.'' @ nat_str c @ ''.'' @ nat_str d) [a, 0, 0, 0] 1
      = aton4_loop (Some y) (''.'' @ nat_str c @ ''.'' @ nat_str d) [a, b, 0, 0] 1"
    by (rule aton4_octet [of 1 "[a, 0, 0, 0]" b "Some (CHR ''.'')" "''.'' @ nat_str c @ ''.'' @ nat_str d"]) (use assms in auto)
  obtain z where z: "isdigit z" "aton4_loop (Some (CHR ''.'')) (nat_str c @ ''.'' @ nat_str d) [a, b, 0, 0] 2
      = aton4_loop (Some z) (''.'' @ nat_str d) [a, b, c, 0] 2"
    by (rule aton4_octet [of 2 "[a, b, 0, 0]" c "Some (CHR ''.'')" "''.'' @ nat_str d"]) (use assms in auto)
  obtain w where w: "isdigit w" "aton4_loop (Some (CHR ''.'')) (nat_str d @ []) [a, b, c, 0] 3 = aton4_loop (Some w) [] [a, b, c, d] 3"
    by (rule aton4_octet [of 3 "[a, b, c, 0]" d "Some (CHR ''.'')" "[]"]) (use assms in auto)
  have "w \<noteq> CHR ''.''" using w(1) by (auto simp: isdigit_def)
  then show ?thesis using x y z w by (simp add: mg_aton4_def aton4_dot numeral_2_eq_2 numeral_3_eq_3 del: aton4_loop.simps(2))
qed

end
