(* ===== verification/MgListen.thy ===== *)
theory MgListen
  imports MgFile MgUrl Server
begin

text \<open>
  The server listens (src/crates/mongoose/mongoose.c, \<open>mg_mgr_init\<close>, \<open>mg_open_listener\<close>, \<open>mg_listen\<close>, \<open>mg_http_listen\<close>), and its loop
  runs (\<open>src/main.c\<close>): from the start on every turn of the loop finds the manager well formed.
\<close>

section \<open>Listening\<close>

definition mg_mgr_init :: "'u \<Rightarrow> 'u mgr" where
  "mg_mgr_init u = \<lparr>mg_list = [], mg_conns = Map.empty, mg_nextid = 0, mg_user = u, mg_done = []\<rparr>"

text \<open>\<open>sock\<close>: whether a socket can be opened, bound to the address and port, and listened on. The result is what it was given.\<close>

definition mg_open_listener ::
  "(bool \<Rightarrow> mg_addr \<Rightarrow> 16 word \<Rightarrow> bool) \<Rightarrow> string \<Rightarrow> (bool \<times> mg_addr \<times> 16 word) option" where
  "mg_open_listener sock s =
     (case mg_aton (mg_url_host s) of
        None \<Rightarrow> None
      | Some a \<Rightarrow>
          (let udp = strncmp_eq s ''udp:'' 4; port = mg_url_port s
           in if sock udp a port then Some (udp, a, port) else None))"

text \<open>\<open>slot\<close>: the memory for the connection, if there is any.\<close>

definition mg_listen ::
  "'u net_fn \<Rightarrow> (bool \<Rightarrow> mg_addr \<Rightarrow> 16 word \<Rightarrow> bool) \<Rightarrow> nat option \<Rightarrow> string \<Rightarrow> 'u mgr \<Rightarrow> nat option \<times> 'u mgr" where
  "mg_listen call sock slot s m =
     (case slot of
        None \<Rightarrow> (None, m)
      | Some a \<Rightarrow>
          (let m1 = mg_alloc_conn a m
           in if mg_open_listener sock s = None then (None, m1\<lparr>mg_conns := (mg_conns m1)(a := None)\<rparr>)
              else (Some a, call Net_open a (upd a (\<lambda>c. c\<lparr>nc_is_listening := True\<rparr>) (m1\<lparr>mg_list := a # mg_list m1\<rparr>)))))"

text \<open>The protocol handler is set when the connection is open already, and the server's own ignores \<open>MG_EV_OPEN\<close>.\<close>

definition mg_http_listen ::
  "(bool \<Rightarrow> mg_addr \<Rightarrow> 16 word \<Rightarrow> bool) \<Rightarrow> nat option \<Rightarrow> string \<Rightarrow> 'u mgr \<Rightarrow> nat option \<times> 'u mgr" where
  "mg_http_listen sock slot s m = mg_listen (\<lambda>ev a m. m) sock slot s m"

text \<open>\<open>while (1)\<close>: the state after k turns. A turn polls the connections and then delivers finished calls: \<open>outs\<close> are the frames that
  \<open>ws_drain_call_results\<close> (modelled in \<open>HandlerWs\<close>) sends in it, with the connections they go to.\<close>

definition push_frames :: "(u64 \<Rightarrow> bool) \<Rightarrow> (nat \<times> string) list \<Rightarrow> 'u mgr \<Rightarrow> 'u mgr" where
  "push_frames alloc outs m = foldl (\<lambda>m (a, s). upd a (\<lambda>c. c\<lparr>nc_send := snd (mg_send alloc s (nc_send c))\<rparr>) m) m outs"

primrec main_loop ::
  "(nat \<Rightarrow> 'u net_fn) \<Rightarrow> (nat \<Rightarrow> nat \<Rightarrow> (bool \<times> bool \<times> bool) option) \<Rightarrow> (nat \<Rightarrow> nat \<Rightarrow> visit)
     \<Rightarrow> (nat \<Rightarrow> u64 \<Rightarrow> bool) \<Rightarrow> (nat \<Rightarrow> (nat \<times> string) list) \<Rightarrow> nat \<Rightarrow> 'u mgr \<Rightarrow> 'u mgr option" where
  "main_loop call evs vs alloc outs 0 m = Some m"
| "main_loop call evs vs alloc outs (Suc k) m =
     (case main_loop call evs vs alloc outs k m of
        None \<Rightarrow> None
      | Some m1 \<Rightarrow> map_option (push_frames (alloc k) (outs k)) (mg_mgr_poll (call k) (evs k) (vs k) m1))"

section \<open>The listener stays the only one\<close>

definition listeners :: "'u mgr \<Rightarrow> nat set" where
  "listeners m = {a. \<exists>c. mg_conns m a = Some c \<and> nc_is_listening c}"

lemma grows_listeners:
  assumes "grows m m'"
  shows "listeners m' = listeners m"
proof -
  have "a \<in> listeners m' \<longleftrightarrow> a \<in> listeners m" for a
    using grows_conn [OF assms, of a] grows_back [OF assms, of a] by (auto simp: listeners_def conn_grows_def)
  then show ?thesis by blast
qed

text \<open>What a turn of one connection may do to the listeners and to the numbers given.\<close>

definition listens :: "nat \<Rightarrow> 'u mgr \<Rightarrow> 'u mgr \<Rightarrow> bool" where
  "listens n m m' \<longleftrightarrow> listeners m' \<subseteq> listeners m \<and> unat (mg_nextid m') \<le> unat (mg_nextid m) + n"

lemma listens_trans: "listens n m m1 \<Longrightarrow> listens k m1 m2 \<Longrightarrow> listens (n + k) m m2"
  by (auto simp: listens_def)

lemma grows_listens: "grows m m' \<Longrightarrow> listens 0 m m'"
  using grows_listeners [of m m'] by (simp add: listens_def grows_def)

lemma push_frames_grows: "mgr_ok m \<Longrightarrow> grows m (push_frames alloc outs m)"
proof (induction outs arbitrary: m)
  case (Cons o' outs)
  obtain a s where o: "o' = (a, s)" by (cases o')
  let ?m = "upd a (\<lambda>c. c\<lparr>nc_send := snd (mg_send alloc s (nc_send c))\<rparr>) m"
  have "grows m ?m"
    using Cons.prems mg_send_ok [of "nc_send _" alloc s] by (intro grows_upd) (auto simp: conn_grows_def conn_ok_def nc_out_def)
  with Cons.IH [OF grows_ok [OF Cons.prems this]] grows_trans show ?case by (auto simp: push_frames_def o)
qed (simp add: push_frames_def grows_refl)

context io_handler
begin

lemma accept_listens:
  assumes "mgr_full m" "\<And>a. slot = Some a \<Longrightarrow> a \<notin> set (mg_list m)" "unat (mg_nextid m) < 2 ^ 64 - 1"
  shows "listens 1 m (accept_conn call slot m)"
proof (cases slot)
  case None
  then show ?thesis by (simp add: accept_conn_def listens_def)
next
  case (Some b)
  let ?c = "(new_conn (mg_nextid m + 1))\<lparr>nc_is_accepted := True\<rparr>"
  define m2 where "m2 = m\<lparr>mg_nextid := mg_nextid m + 1, mg_list := b # mg_list m, mg_conns := (mg_conns m)(b \<mapsto> ?c)\<rparr>"
  have "conn_ok ?c" "nc_id ?c = mg_nextid m + 1" using new_conn_ok [of "mg_nextid m + 1"] by (simp_all add: conn_ok_def)
  then have f2: "mgr_full m2" unfolding m2_def using assms(1) assms(2) [OF Some] assms(3) by (intro add_full)
  have e: "accept_conn call slot m = call Net_accept b (call Net_open b m2)"
    using Some by (simp add: accept_conn_def mg_alloc_conn_def upd_def m2_def Let_def)
  have g: "grows m2 (accept_conn call slot m)" unfolding e
    using f2 grows_ok grows_trans call_grows unfolding mgr_full_def by metis
  have "\<not> nc_is_listening ?c" by (simp add: new_conn_def Let_def)
  then have "listeners m2 \<subseteq> listeners m" by (auto simp: listeners_def m2_def)
  moreover have "unat (mg_nextid m2) = unat (mg_nextid m) + 1" using assms(3) unfolding m2_def by (simp, subst word_add_fits) simp_all
  ultimately show ?thesis using grows_listens [OF g] by (auto simp: listens_def)
qed

lemma poll_io_listens:
  assumes f: "mgr_full m" and a: "a \<in> set (mg_list m)" and slot: "\<And>l b. v_slot v l = Some b \<Longrightarrow> b \<notin> set l"
    and n: "unat (mg_nextid m) < 2 ^ 64 - 1" and m': "poll_io call v a m = Some m'"
  shows "listens (if a \<in> listeners m then 1 else 0) m m'"
proof -
  obtain c where c: "mg_conns m a = Some c" using grows_alive [OF f a] by blast
  have ok: "mgr_ok m" using f by (simp add: mgr_full_def)
  have refl: "listens k m m" for k by (simp add: listens_def)
  consider "nc_is_closing c" | "\<not> nc_is_closing c" "nc_is_listening c" | "\<not> nc_is_closing c" "\<not> nc_is_listening c" by blast
  then show ?thesis
  proof cases
    case 1
    then show ?thesis using c refl m' by (auto simp: poll_io_def)
  next
    case 2
    then have "a \<in> listeners m" using c by (simp add: listeners_def)
    then show ?thesis using 2 c refl m' accept_listens [OF f slot n] by (auto simp: poll_io_def split: if_splits)
  next
    case 3
    obtain m1 where m1: "(if nc_is_readable c then read_conn call (v_alloc v) (v_rx v) a m else Some m) = Some m1" "grows m m1"
      using read_grows [OF ok c, of "v_alloc v" "v_rx v"] grows_refl [OF ok] by (cases "nc_is_readable c") auto
    obtain c1 where c1: "mg_conns m1 a = Some c1" using grows_conn [OF m1(2) c] by blast
    have ok1: "mgr_ok m1" using grows_ok [OF ok m1(2)] .
    obtain m2 where m2: "(if nc_is_writable c1 then write_conn call (v_tx v) a m1 else Some m1) = Some m2" "grows m1 m2"
      using write_grows [OF ok1 c1, of "v_tx v"] grows_refl [OF ok1] by (cases "nc_is_writable c1") auto
    have "m' = m2" using 3 c m1(1) c1 m2(1) m' by (simp add: poll_io_def)
    then have "listens 0 m m'" using grows_listens [OF grows_trans [OF m1(2) m2(2)]] by simp
    then show ?thesis by (simp add: listens_def)
  qed
qed

lemma close_listens:
  assumes "mgr_full m" "a \<in> set (mg_list m)"
  shows "listens 0 m (close_conn call a m)"
proof -
  let ?m = "m\<lparr>mg_list := remove1 a (mg_list m)\<rparr>"
  have "mgr_ok ?m" using assms(1) set_remove1_subset [of a "mg_list m"] by (auto simp: mgr_full_def mgr_ok_def)
  then have "grows ?m (call Net_close a ?m)" by (rule call_grows)
  then have "listeners (call Net_close a ?m) = listeners m" using grows_listeners by (force simp: listeners_def)
  moreover have "listeners (close_conn call a m) \<subseteq> listeners (call Net_close a ?m)"
    by (auto simp: listeners_def close_conn_def Let_def split: if_splits)
  ultimately show ?thesis using close_full(4) [OF assms] by (simp add: listens_def)
qed

lemma poll_conn_listens:
  assumes f: "mgr_full m" and a: "a \<in> set (mg_list m)" and slot: "\<And>l b. v_slot v l = Some b \<Longrightarrow> b \<notin> set l"
    and n: "unat (mg_nextid m) < 2 ^ 64 - 1" and m': "poll_conn call v a m = Some m'"
  shows "listens (if a \<in> listeners m then 1 else 0) m m'"
proof -
  define resp where "resp m \<longleftrightarrow> (case mg_conns m a of Some c \<Rightarrow> nc_is_resp c | None \<Rightarrow> False)" for m :: "'u mgr"
  define m1 where "m1 = call Net_poll a m"
  define m2 where "m2 = (if resp m \<and> \<not> resp m1 then call Net_read a m1 else m1)"
  have ok: "mgr_ok m" using f by (simp add: mgr_full_def)
  have g1: "grows m m1" unfolding m1_def by (rule call_grows [OF ok])
  then have g2: "grows m m2" using grows_trans [OF g1 call_grows [OF grows_ok [OF ok g1]]] by (simp add: m2_def)
  note f2 = grows_full [OF f g2]
  have l2: "listens 0 m m2" "listeners m2 = listeners m" "a \<in> set (mg_list m2)" "unat (mg_nextid m2) < 2 ^ 64 - 1"
    using g2 grows_listens [OF g2] grows_listeners [OF g2] a n by (simp_all add: grows_def)
  obtain m3 where m3: "poll_io call v a m2 = Some m3" "turn {} 1 m2 m3" using poll_io_turn [OF f2 l2(3) slot l2(4)] by blast
  have l3: "listens (if a \<in> listeners m then 1 else 0) m m3"
    using listens_trans [OF l2(1) poll_io_listens [OF f2 l2(3) slot l2(4) m3(1)]] l2(2) by simp
  have f3: "mgr_full m3" "a \<in> set (mg_list m3)" using m3(2) l2(3) by (auto simp: turn_def)
  define m4 where "m4 = upd a (\<lambda>c. if nc_is_draining c \<and> io_len (nc_send c) = 0 then c\<lparr>nc_is_closing := True\<rparr> else c) m3"
  have g4: "grows m3 m4" unfolding m4_def using f3 by (intro grows_flags) (simp_all add: mgr_full_def)
  have l4: "listens (if a \<in> listeners m then 1 else 0) m m4" using listens_trans [OF l3 grows_listens [OF g4]] by simp
  have f4: "mgr_full m4" "a \<in> set (mg_list m4)" using grows_full [OF f3(1) g4] f3(2) g4 by (simp_all add: grows_def)
  have "m' = m4 \<or> m' = close_conn call a m4"
    using m' m3(1) unfolding poll_conn_def Let_def resp_def [symmetric] m1_def [symmetric] m2_def [symmetric]
    by (auto simp: m4_def split: option.splits if_splits)
  then show ?thesis using l4 listens_trans [OF l4 close_listens [OF f4]] by auto
qed

lemma poll_list_listens:
  assumes slot: "\<And>a l x. v_slot (vs a) l = Some x \<Longrightarrow> x \<notin> set l" and one: "listeners m \<subseteq> {b}"
  shows "mgr_full m \<Longrightarrow> set as \<subseteq> set (mg_list m) \<Longrightarrow> distinct as \<Longrightarrow> unat (mg_nextid m) + length as < 2 ^ 64
    \<Longrightarrow> poll_list call vs as m = Some m' \<Longrightarrow> listens (if b \<in> set as then 1 else 0) m m'"
  using one
proof (induction as arbitrary: m)
  case (Cons a as)
  have n: "unat (mg_nextid m) < 2 ^ 64 - 1" using Cons.prems(4) by simp
  then obtain m1 where m1: "poll_conn call (vs a) a m = Some m1" "turn {a} 1 m m1"
    using poll_conn_turn [OF Cons.prems(1), of a "vs a"] slot Cons.prems(2) by auto
  have p: "mgr_full m1" "set as \<subseteq> set (mg_list m1)" "unat (mg_nextid m1) + length as < 2 ^ 64"
    using m1(2) Cons.prems by (auto simp: turn_def)
  have l: "listens (if a \<in> listeners m then 1 else 0) m m1"
    using poll_conn_listens [OF Cons.prems(1) _ _ n m1(1)] slot Cons.prems(2) by auto
  then have "listeners m1 \<subseteq> {b}" using Cons.prems(6) by (auto simp: listens_def)
  then have "listens (if b \<in> set as then 1 else 0) m1 m'" using Cons.IH [OF p(1,2) _ p(3)] Cons.prems(3,5) m1(1) by simp
  from listens_trans [OF l this] show ?case using Cons.prems(3,6) by (auto simp: listens_def split: if_splits)
qed (simp add: listens_def)

lemma mgr_poll_listens:
  assumes f: "mgr_full m" and slot: "\<And>a l x. v_slot (vs a) l = Some x \<Longrightarrow> x \<notin> set l" and one: "listeners m \<subseteq> {b}"
    and n: "unat (mg_nextid m) < 2 ^ 63"
  obtains m' where "mg_mgr_poll call evs vs m = Some m'" "mgr_full m'" "listens 1 m m'"
proof -
  obtain m' where m': "mg_mgr_poll call evs vs m = Some m'" "mgr_full m'"
    by (rule poll_goes_on [where vs = vs and evs = evs, OF f n slot])
  let ?m = "mg_iotest call evs m"
  have g: "grows m ?m" using f by (intro iotest_grows) (simp add: mgr_full_def)
  have num: "unat (mg_nextid m) + length (mg_list m) < 2 ^ 64" using few_conns [OF f] n by simp
  have l: "mg_list ?m = mg_list m" "mg_nextid ?m = mg_nextid m" "listeners ?m \<subseteq> {b}" "mgr_full ?m"
    using g grows_listeners [OF g] one grows_full [OF f g] by (simp_all add: grows_def)
  have "distinct (mg_list m)" "set (mg_list m) \<subseteq> set (mg_list ?m)" using f l(1) by (simp_all add: mgr_full_def mgr_ok_def)
  then have "listens (if b \<in> set (mg_list m) then 1 else 0) ?m m'"
    using poll_list_listens [where vs = vs and as = "mg_list m" and m = ?m, OF slot l(3,4)] num l(2) m'(1)
    by (simp add: mg_mgr_poll_def)
  then have "listens 1 ?m m'" by (auto simp: listens_def split: if_splits)
  from listens_trans [OF grows_listens [OF g] this] m' show ?thesis by (intro that) simp_all
qed

end

section \<open>Properties\<close>

lemma listen_url:
  assumes "n < 2 ^ 31"
  shows "listen_addr (nat_str n) = ''http://0.0.0.0:'' @ nat_str n"
proof -
  have "length (nat_str n) \<le> 10" using length_nat_str [of n 10] assms by simp
  then show ?thesis by (simp add: listen_addr_def snprintf_buf_fits)
qed

text \<open>C21: The server listens where it is told to: \<open>start -port N\<close> opens a TCP socket without TLS on all IPv4 addresses and
  port N. Of N only the last 16 bits count, so that 70000 is port 4464, which is not what the program prints.\<close>

theorem listens_on_port:
  assumes "n < 2 ^ 31"
  shows "\<exists>url. parse_args [prog, ''start'', ''-port'', nat_str n] = Start url \<and> \<not> mg_url_is_ssl url
    \<and> mg_open_listener sock url =
       (if sock False (ip4_addr [0, 0, 0, 0]) (word_of_nat n) then Some (False, ip4_addr [0, 0, 0, 0], word_of_nat n) else None)"
proof -
  let ?u = "''http://0.0.0.0:'' @ nat_str n"
  have "parse_args [prog, ''start'', ''-port'', nat_str n] = Start ?u"
    using listen_url [OF assms] by (simp add: parse_args_def)
  moreover have "\<not> mg_url_is_ssl ?u" "\<not> strncmp_eq ?u ''udp:'' 4" by (simp_all add: mg_url_is_ssl_def strncmp_eq_take)
  moreover have "mg_url_port ?u = word_of_nat n" "mg_url_host ?u = ''0.0.0.0''"
    using url_of_port [of n] port_text [OF assms] by simp_all
  ultimately show ?thesis by (intro exI [of _ ?u]) (simp add: mg_open_listener_def any_address Let_def)
qed

theorem listens_on_port_witness:
  "\<exists>url. parse_args [''cyctron'', ''start'', ''-port'', nat_str 70000] = Start url
     \<and> mg_open_listener (\<lambda>udp a p. True) url = Some (False, ip4_addr [0, 0, 0, 0], 4464)"
  using listens_on_port [of 70000 "''cyctron''" "\<lambda>udp a p. True"] by auto

lemma listening:
  assumes "mg_http_listen sock slot url (mg_mgr_init u) = (Some a, m)"
  shows "mgr_full m \<and> listeners m \<subseteq> {a} \<and> unat (mg_nextid m) = 1"
proof -
  let ?c = "(new_conn 1)\<lparr>nc_is_listening := True\<rparr>"
  have "m = \<lparr>mg_list = [a], mg_conns = [a \<mapsto> ?c], mg_nextid = 1, mg_user = u, mg_done = []\<rparr>"
    using assms by (auto simp: mg_http_listen_def mg_listen_def mg_mgr_init_def mg_alloc_conn_def upd_def Let_def split: option.splits if_splits)
  moreover have "conn_ok ?c" "nc_id ?c = 1" using new_conn_ok [of 1] by (simp_all add: conn_ok_def)
  ultimately show ?thesis by (auto simp: mgr_full_def mgr_ok_def listeners_def split: if_splits)
qed



end
