(* ===== verification/Spec2Isabelle.thy ===== *)
theory Spec2Isabelle
  imports ServerCalls HttpChunks MgMatch MgListen
begin

text \<open>
  \<^bold>\<open>cyctron\<close> is a local application server: one process serves a web page from \<open>web/\<close>, answers REST requests and
  WebSocket commands by calling functions of shared libraries (plugins), streams events to browsers, runs
  the plugins' real-time tasks, and pushes messages to a WebSocket and to an nng publisher.

  \<^bold>\<open>The program and the theories.\<close> The order is the order of the calls, from the bottom up; all paths are
  under \<open>src/\<close>.

  \<^item> \<open>CLib\<close>: what the program uses of the C library (snprintf into a buffer, strtol, isalnum, malloc as a question
    to the environment, decimal printing). \<open>MgStr\<close>, \<open>MgJson\<close>, \<open>MgHttp\<close>, \<open>MgWs\<close>, \<open>MgCrypto\<close>, \<open>MgServe\<close>: the functions of
    \<open>crates/mongoose/mongoose.c\<close> that the server reaches: strings, JSON scanning, HTTP parsing and replies,
    WebSocket frames, base64 and SHA-1, static files.
  \<^item> \<open>EventFormat\<close> (\<open>src/event_format.c\<close>), \<open>Paths\<close> (\<open>src/core/uri.c\<close>, \<open>src/handler_utils.c\<close>, \<open>include/global.h\<close>), \<open>PluginPath\<close>
    (\<open>src/plugin_path.c\<close>), \<open>WsCall\<close> (\<open>src/ws_call.c\<close>, \<open>ws_command.c\<close>, \<open>ws_message.c\<close>): pure functions on bytes.
  \<^item> \<open>World\<close>: the state every part shares, and the environment. \<open>'d env\<close> has everything that answers from outside
    (malloc, the file system, the clock, dlopen and dlsym, libffi and the plugins behind it, nng,
    floating-point printing). A question advances the counter \<open>w_tick\<close>, so that two questions may
    have different answers. A connection (\<open>conn\<close>) keeps the flags the handlers read and the list of
    what was put in its send buffer.
  \<^item> \<open>EventPusher\<close> (\<open>src/event_pusher.c\<close>), \<open>CallDyn\<close> (\<open>src/calldyn.c\<close>), \<open>Realtime\<close> (\<open>src/realtime.c\<close>), \<open>WsWorker\<close> (\<open>src/ws_worker.c\<close>),
    \<open>HandlerWs\<close> (\<open>src/handler_ws.c\<close>), \<open>HandlerSse\<close> (\<open>src/handler_sse.c\<close>): the components with a state. Each extends the
    record of the one before with its static variables, so that an operation on \<open>'a rt_world_scheme\<close>
    works in every world built on it, and what it leaves alone is a fact about the record.
  \<^item> \<open>HandlerStatic\<close>, \<open>HandlerLibary\<close>, \<open>Handler\<close> (\<open>src/handler_static.c\<close>, \<open>handler_libary.c\<close>, \<open>handler.c\<close>): the HTTP routes.
  \<^item> \<open>Server\<close> (\<open>src/main.c\<close>): command line, start, and \<open>srv_step\<close>, the program's steps: a connection is accepted, a
    request or another event reaches its handler, it closes, the library changes a connection, the main
    loop delivers finished calls, a worker thread takes a step. \<open>srv_reachable\<close> are the states so reached.
  \<^item> \<open>Interfaces\<close>, \<open>LinkedQueue\<close>: the contracts (locales) between the components, and their interpretations on
    the model's own definitions; \<open>WorkerProofs\<close>, \<open>HandlerWsProofs\<close>, \<open>ServerProofs\<close>, \<open>HandlerProofs\<close>,
    \<open>SseProofs\<close>: invariants and properties.
  \<^item> \<open>HttpRecv\<close>, \<open>HttpChunks\<close>: how mongoose's \<open>http_cb\<close> takes requests out of the bytes received, and joins chunks.
  \<^item> \<open>MgMatch\<close>: \<open>mg_match\<close> against a declarative reading of its patterns.
  \<^item> \<open>MgIo\<close>, \<open>MgNet\<close>: mongoose's growing buffers, and its event loop: reading, writing, accepting and closing TCP
    connections and \<open>mg_mgr_poll\<close>, with \<open>http_cb\<close> on top. \<open>MgNetProofs\<close>, \<open>MgNetLocal\<close>, \<open>MgNetDrain\<close>: the contracts of event handlers (locales,
    interpreted on the HTTP handler) and what the loop makes of them. \<open>MgFile\<close>: the handler that streams a file, another instance of
    the contracts. \<open>MgUrl\<close>: URLs and numeric addresses. \<open>MgListen\<close>: the listening socket, and the loop of \<open>src/main.c\<close> from there on.
  \<^item> \<open>ServerInv\<close>, \<open>ServerTasks\<close>, \<open>ServerParts\<close>: what every component keeps true, lifted to every state of the server. \<open>ServerCalls\<close>: a call
    from the queue to the frame that answers it.

  \<^bold>\<open>How the code is modelled.\<close> A struct is a record; a linked list of tasks is the list of its nodes with
  their addresses; the worker's two queues are cells in a store with head and tail pointers, refined to
  lists (\<open>lq_rep\<close>). A buffer is the string that ends up in it, cut where the code cuts it. Connection
  numbers are 64-bit words; counters that the code keeps within bounds are integers, and the bounds
  are proved. The worker's threads are programs with a program counter (\<open>wk_pc\<close>), one step per
  critical section or unlocked stretch; every interleaving is an execution. The library cache's threads (\<open>dl_step\<close>) are
  modelled the same way.

  \<^bold>\<open>What is shown.\<close> Of the whole server: no pointer to a closed connection survives (\<open>ServerProofs\<close>); every
  request is answered at once and only to its sender (\<open>HandlerProofs\<close>). Of the worker: bookkeeping,
  conservation of replies, service of the queue. Of the handlers: a WebSocket message's effect
  is confined to its sender; finished calls reach the connection with their number; files served
  lie below \<open>web/\<close>; plugin libraries lie below \<open>libary/\<close>. Of the task scheduler: well-formedness, and exactly the
  tasks of a closed connection are removed. Of the codecs: what is printed is read back (JSON,
  HTTP, WebSocket frames, base64, query strings, event streams). Of the event loop: no copy leaves its buffer, receive
  buffers stay below 3 MB, what is sent is sent in order and whole, a connection that drains is closed, and a file that is served is sent to its end. Some lemmas show where the code does less than
  its documentation promises; they are stated as the code behaves.

  \<^bold>\<open>Bounds and fuel.\<close> Loops over input are structural recursion or \<open>function\<close> with a measure (the bytes left,
  the files left); \<open>mg_match\<close>'s backtracking has a lexicographic one. The JSON scanner's depth limit is the code's own
  (\<open>MG_JSON_MAX_DEPTH\<close>). The only fuel is in \<open>worker_run\<close>, a number of steps of one thread, and the property that uses it
  states how many are enough.

  \<^bold>\<open>Not modelled.\<close> TLS, UDP, outgoing connections, name lookups and timers of mongoose, and the code of nng, libev and libffi (vendored; what the program asks of them is a
  parameter); logging and printing; Windows' \<open>LoadLibrary\<close> differs from \<open>dlopen\<close> only in its name. In the handlers' world a
  file's body is one item of the send buffer (\<open>StreamFile\<close>), which \<open>MgFile\<close> takes apart; directory listings cannot be
  reached.
\<close>

end
